(* ===== verification/Kernel_Prelude.thy ===== *)
theory Kernel_Prelude
  imports Main "HOL-Library.Word"
begin

text \<open>
  Shared vocabulary of the development: the widths of the AVR target (an \<open>int\<close> is 16 bits,
  an \<open>unsigned long\<close> 32 bits, a pointer 16 bits), the result type of operations that may
  hit undefined behaviour or may not return, singly linked lists in a heap, and the
  collections of simplification rules the components extend.
\<close>

unbundle bit_operations_syntax

section \<open>Machine types\<close>

type_synonym u8 = "8 word"
type_synonym u16 = "16 word"
type_synonym u32 = "32 word"

text \<open>Data and code pointers of the ATmega328p are 16 bits wide; the null pointer is 0.\<close>

type_synonym ptr = "16 word"

abbreviation NULL :: ptr where "NULL \<equiv> 0"

text \<open>
  Values of the C++ type \<open>int\<close> are integers between \<open>INT_MIN\<close> and \<open>INT_MAX\<close>.
\<close>

abbreviation INT_MIN :: int where "INT_MIN \<equiv> - 32768"

abbreviation INT_MAX :: int where "INT_MAX \<equiv> 32767"

definition is_int16 :: "int \<Rightarrow> bool" where
  "is_int16 n \<longleftrightarrow> INT_MIN \<le> n \<and> n \<le> INT_MAX"

section \<open>Results: a value, undefined behaviour, or no return\<close>

text \<open>
  An operation that touches the heap or an array yields \<open>Some (Ok v)\<close> when it returns
  \<open>v\<close>, \<open>Some (Fault e)\<close> when it runs into behaviour the language leaves undefined, and
  \<open>None\<close> when it never returns (a loop that does not end).
\<close>

datatype fault =
    BadPointer      \<comment> \<open>a dereference of a null, freed or wrongly typed pointer\<close>
  | BadFree         \<comment> \<open>\<open>delete\<close> of a pointer that is not an allocated object\<close>
  | OutOfBounds     \<comment> \<open>an array index outside the array\<close>
  | SignedOverflow  \<comment> \<open>an \<open>int\<close> result outside the 16 bit range\<close>

datatype 'a outcome = Ok 'a | Fault fault

type_synonym 'a res = "'a outcome option"

abbreviation okR :: "'a \<Rightarrow> 'a res" where "okR x \<equiv> Some (Ok x)"

abbreviation failR :: "fault \<Rightarrow> 'a res" where "failR e \<equiv> Some (Fault e)"

definition bindR :: "'a res \<Rightarrow> ('a \<Rightarrow> 'b res) \<Rightarrow> 'b res" where
  "bindR m f = Option.bind m (\<lambda>x. case x of Ok v \<Rightarrow> f v | Fault e \<Rightarrow> failR e)"

lemma bindR_simps [simp]:
  "bindR None f = None"
  "bindR (okR v) f = f v"
  "bindR (failR e) f = failR e"
  by (simp_all add: bindR_def)

lemma bindR_ok_iff: "bindR m f = okR y \<longleftrightarrow> (\<exists>v. m = okR v \<and> f v = okR y)"
  by (auto simp: bindR_def split: Option.bind_splits outcome.splits)

lemma bindR_assoc: "bindR (bindR m f) g = bindR m (\<lambda>x. bindR (f x) g)"
  by (auto simp: bindR_def split: Option.bind_splits outcome.splits)

lemma bindR_okR [simp]: "bindR m okR = m"
  by (auto simp: bindR_def split: Option.bind_splits outcome.splits)

lemma bindR_cong: "m = m' \<Longrightarrow> (\<And>x. m' = okR x \<Longrightarrow> f x = g x) \<Longrightarrow> bindR m f = bindR m' g"
  by (auto simp: bindR_def split: Option.bind_splits outcome.splits)

text \<open>
  Arithmetic of type \<open>int\<close>. The language leaves an overflow undefined; \<open>wrapv\<close> says
  whether the compiler wraps it around (the multiplication and addition instructions of
  the AVR do).
\<close>

definition wrap16 :: "int \<Rightarrow> int" where
  "wrap16 n = signed_take_bit 15 n"

definition to_int :: "bool \<Rightarrow> int \<Rightarrow> int res" where
  "to_int wrapv n =
     (if is_int16 n then okR n else if wrapv then okR (wrap16 n) else failR SignedOverflow)"

lemma to_int_ok [simp]: "INT_MIN \<le> n \<Longrightarrow> n \<le> INT_MAX \<Longrightarrow> to_int wrapv n = okR n"
  by (simp add: to_int_def is_int16_def)

lemma word_wrap16 [simp]: "(word_of_int (wrap16 n) :: 16 word) = word_of_int n"
  by (simp add: wrap16_def word_of_int_eq_iff take_bit_signed_take_bit)

lemma bindR_mono [partial_function_mono]:
  assumes "mono_option m" and "\<And>y. mono_option (\<lambda>f. B y f)"
  shows "mono_option (\<lambda>f. bindR (m f) (\<lambda>y. B y f))"
  unfolding bindR_def
proof (rule bind_mono [OF assms(1)])
  fix y
  show "mono_option (\<lambda>f. case y of Ok v \<Rightarrow> B v f | Fault e \<Rightarrow> failR e)"
    using assms(2) by (cases y) (auto intro: option.const_mono)
qed

section \<open>Linked lists in a heap\<close>

text \<open>
  \<open>node p\<close> reads the list node at address \<open>p\<close>: its payload and its successor, or
  \<open>None\<close> when there is no such node. \<open>lseg node p xs q\<close> says that following the
  successors from \<open>p\<close> visits exactly the addresses and payloads \<open>xs\<close> and ends at
  \<open>q\<close>; \<open>lchain node p xs\<close> is the list that ends in the null pointer.
\<close>

fun lseg :: "(ptr \<Rightarrow> ('v \<times> ptr) option) \<Rightarrow> ptr \<Rightarrow> (ptr \<times> 'v) list \<Rightarrow> ptr \<Rightarrow> bool" where
  "lseg node p [] q \<longleftrightarrow> p = q"
| "lseg node p (x # xs) q \<longleftrightarrow> p \<noteq> NULL \<and> p = fst x \<and>
     (case node p of None \<Rightarrow> False | Some (v, n) \<Rightarrow> v = snd x \<and> lseg node n xs q)"

abbreviation lchain :: "(ptr \<Rightarrow> ('v \<times> ptr) option) \<Rightarrow> ptr \<Rightarrow> (ptr \<times> 'v) list \<Rightarrow> bool" where
  "lchain node p xs \<equiv> lseg node p xs NULL"

abbreviation addrs :: "(ptr \<times> 'v) list \<Rightarrow> ptr list" where "addrs xs \<equiv> map fst xs"

abbreviation vals :: "(ptr \<times> 'v) list \<Rightarrow> 'v list" where "vals xs \<equiv> map snd xs"

lemma lseg_append:
  "lseg node p (xs @ ys) q \<longleftrightarrow> (\<exists>r. lseg node p xs r \<and> lseg node r ys q)"
  by (induction xs arbitrary: p) (auto split: option.splits)

lemma lchain_NULL [simp]: "lchain node NULL xs \<longleftrightarrow> xs = []"
  by (cases xs) auto

lemma lchain_non_NULL:
  "p \<noteq> NULL \<Longrightarrow> lchain node p xs \<longleftrightarrow>
     (\<exists>v n ys. xs = (p, v) # ys \<and> node p = Some (v, n) \<and> lchain node n ys)"
  by (cases xs) (auto split: option.splits)

lemma lseg_cong:
  "(\<And>a. a \<in> set (addrs xs) \<Longrightarrow> node' a = node a) \<Longrightarrow> lseg node' p xs q = lseg node p xs q"
  by (induction xs arbitrary: p) (auto split: option.splits)

lemma lseg_node: "lseg node p xs q \<Longrightarrow> a \<in> set (addrs xs) \<Longrightarrow> node a \<noteq> None"
  by (induction xs arbitrary: p) (auto split: option.splits)

lemma lchain_unique: "lchain node p xs \<Longrightarrow> lchain node p ys \<Longrightarrow> xs = ys"
  by (induction xs arbitrary: p ys) (auto simp: lchain_non_NULL split: option.splits)

lemma lchain_drop: "lchain node p xs \<Longrightarrow> k < length xs \<Longrightarrow> lchain node (fst (xs ! k)) (drop k xs)"
proof (induction xs arbitrary: p k)
  case (Cons x xs)
  then show ?case by (cases k) (auto split: option.splits)
qed simp

lemma lchain_last: "lchain node p xs \<Longrightarrow> xs \<noteq> [] \<Longrightarrow> lchain node (fst (last xs)) [last xs]"
proof -
  assume a: "lchain node p xs" "xs \<noteq> []"
  then have "drop (length xs - 1) xs = [last xs]" by (metis append_butlast_last_id append_eq_conv_conj length_butlast)
  with lchain_drop [OF a(1), of "length xs - 1"] a(2) show ?thesis by (simp add: last_conv_nth)
qed

text \<open>A list that ends in the null pointer visits no node twice.\<close>

lemma lchain_distinct: "lchain node p xs \<Longrightarrow> distinct (addrs xs)"
proof (induction xs arbitrary: p)
  case (Cons x xs)
  then obtain n where n: "node p = Some (snd x, n)" "lchain node n xs" "p = fst x" "p \<noteq> NULL"
    by (auto split: option.splits)
  have "p \<notin> set (addrs xs)"
  proof
    assume "p \<in> set (addrs xs)"
    then obtain us v vs where xs: "xs = us @ (p, v) # vs"
      by (auto simp: in_set_conv_decomp)
    then have "lchain node p ((p, v) # vs)"
      using n(2) by (auto simp: lseg_append split: option.splits)
    moreover have "lchain node p (x # xs)"
      using n by simp
    ultimately have "x # xs = (p, v) # vs"
      using lchain_unique by blast
    then show False using xs by (metis length_append length_Cons not_add_less2 lessI)
  qed
  with Cons.IH [OF n(2)] n(3) show ?case by simp
qed simp

lemma lseg_fun_upd [simp]:
  "a \<notin> set (addrs xs) \<Longrightarrow> lseg (node(a := x)) p xs q = lseg node p xs q"
  by (rule lseg_cong) auto

lemma lseg_snoc:
  "lseg node p (xs @ [x]) q \<longleftrightarrow>
     lseg node p xs (fst x) \<and> fst x \<noteq> NULL \<and> node (fst x) = Some (snd x, q)"
  by (auto simp: lseg_append split: option.splits)

text \<open>Removing the first element that satisfies a predicate.\<close>

fun drop_first :: "('a \<Rightarrow> bool) \<Rightarrow> 'a list \<Rightarrow> 'a list" where
  "drop_first P [] = []"
| "drop_first P (x # xs) = (if P x then xs else x # drop_first P xs)"

lemma drop_first_map: "map f (drop_first (\<lambda>x. P (f x)) xs) = drop_first P (map f xs)"
  by (induction xs) auto

lemma drop_first_subset: "set (drop_first P xs) \<subseteq> set xs"
  by (induction xs) auto

lemma drop_first_once:
  "distinct (map f xs) \<Longrightarrow> drop_first (\<lambda>x. f x = k) xs = filter (\<lambda>x. f x \<noteq> k) xs"
proof (induction xs)
  case (Cons x xs)
  have "f x = k \<Longrightarrow> filter (\<lambda>x. f x \<noteq> k) xs = xs"
    using Cons.prems by (auto simp: filter_id_conv image_iff)
  with Cons show ?case by auto
qed simp

section \<open>Collections of rules\<close>

named_theorems kernel_defs \<open>unfolding rules of the straight-line operations\<close>

named_theorems frame \<open>what an operation leaves unchanged\<close>

named_theorems decode \<open>reading back what an operation encoded\<close>

end
