(* ===== verification/Cpp_Heap.thy ===== *)
theory Cpp_Heap
  imports Kernel_Prelude
begin

text \<open>
  The objects the kernel creates with \<open>new\<close> and the heap they live in. Every kind of
  object is a constructor of \<open>cell\<close>; reading a pointer as an object of the wrong kind, or
  a freed or null pointer, is the fault \<open>BadPointer\<close>. The allocator hands out addresses
  from a finite pool and returns the null pointer when the pool is empty (the case the
  sources test for after every \<open>new\<close>); \<open>delete\<close> puts the address back, so that
  addresses are reused. The interrupt flag of the processor is part of the same state.
\<close>

section \<open>Objects\<close>

text \<open>The ownership and the calling context of a message (\<open>mq.h\<close>).\<close>

datatype MQOWNER = MQ_OWNER_CALLER | MQ_OWNER_MQ

datatype MQCONTEXT = MQ_CONTEXT_TASK | MQ_CONTEXT_INTERRUPT

text \<open>
  A subscription: \<open>MESSAGEHANDLER\<close> with its two subclasses, one holding a function
  pointer and one holding a pointer to an event receiver.
\<close>

datatype messagehandler =
    MHFUNCTION (msgHandler: ptr) (pNextHandler: ptr)
  | MHCLASS (pReceiver: ptr) (pNextHandler: ptr)

fun set_pNextHandler :: "ptr \<Rightarrow> messagehandler \<Rightarrow> messagehandler" where
  "set_pNextHandler n (MHFUNCTION f _) = MHFUNCTION f n"
| "set_pNextHandler n (MHCLASS r _) = MHCLASS r n"

text \<open>
  \<open>checkHandler\<close> compares the raw pointer values: a function pointer and an object pointer
  with the same 16 bits are equal to it.
\<close>

fun checkHandler :: "messagehandler \<Rightarrow> ptr \<Rightarrow> bool" where
  "checkHandler (MHFUNCTION f _) handler = (handler = f)"
| "checkHandler (MHCLASS r _) handler = (handler = r)"

text \<open>A queued message (\<open>MESSAGE\<close>).\<close>

record message =
  msgid :: int
  msg_context :: ptr
  CallerOwns :: MQOWNER
  pNextMsg :: ptr

text \<open>
  A registered task: \<open>TASKSTATE\<close> with its two subclasses. The fields \<open>handler\<close>,
  \<open>type\<close>, \<open>pointers\<close> and \<open>context\<close> of the base class are never read or written.
\<close>

datatype taskstate =
    TASKSTATE_C (task: ptr) (pNext: ptr)
  | TASKSTATE_F (fHandler: ptr) (fContext: ptr) (pNext: ptr)

fun set_pNext :: "ptr \<Rightarrow> taskstate \<Rightarrow> taskstate" where
  "set_pNext n (TASKSTATE_C t _) = TASKSTATE_C t n"
| "set_pNext n (TASKSTATE_F f c _) = TASKSTATE_F f c n"

text \<open>
  What an allocated address holds; \<open>CBlock\<close> is an allocation of the application, and
  \<open>CInternals\<close> is a block of internals of the kernel, whose fields are the records
  \<open>mq\<close> and \<open>taskring\<close>.
\<close>

datatype cell = CHandler messagehandler | CMessage message | CTask taskstate | CBlock | CInternals

section \<open>The heap and the allocator\<close>

record machine =
  cells :: "ptr \<rightharpoonup> cell"
  pool :: "ptr list"
  sreg_i :: bool

definition new_cell :: "cell \<Rightarrow> 'a machine_scheme \<Rightarrow> ptr \<times> 'a machine_scheme" where
  "new_cell c s = (case pool s of
     [] \<Rightarrow> (NULL, s)
   | p # ps \<Rightarrow> (p, s\<lparr>cells := (cells s)(p \<mapsto> c), pool := ps\<rparr>))"

definition delete_cell :: "ptr \<Rightarrow> 'a machine_scheme \<Rightarrow> ('a machine_scheme) res" where
  "delete_cell p s = (case cells s p of
     None \<Rightarrow> failR BadFree
   | Some _ \<Rightarrow> okR (s\<lparr>cells := (cells s)(p := None), pool := p # pool s\<rparr>))"

definition get_handler :: "ptr \<Rightarrow> 'a machine_scheme \<Rightarrow> messagehandler res" where
  "get_handler p s = (case cells s p of Some (CHandler h) \<Rightarrow> okR h | _ \<Rightarrow> failR BadPointer)"

definition get_message :: "ptr \<Rightarrow> 'a machine_scheme \<Rightarrow> message res" where
  "get_message p s = (case cells s p of Some (CMessage m) \<Rightarrow> okR m | _ \<Rightarrow> failR BadPointer)"

definition get_task :: "ptr \<Rightarrow> 'a machine_scheme \<Rightarrow> taskstate res" where
  "get_task p s = (case cells s p of Some (CTask t) \<Rightarrow> okR t | _ \<Rightarrow> failR BadPointer)"

definition put_cell :: "ptr \<Rightarrow> cell \<Rightarrow> 'a machine_scheme \<Rightarrow> 'a machine_scheme" where
  "put_cell p c s = s\<lparr>cells := (cells s)(p \<mapsto> c)\<rparr>"

text \<open>
  Well-formedness: the free addresses are distinct, not null and not in use, and nothing
  lives at the null pointer.
\<close>

definition heap_wf :: "'a machine_scheme \<Rightarrow> bool" where
  "heap_wf s \<longleftrightarrow> distinct (pool s) \<and> NULL \<notin> set (pool s) \<and> cells s NULL = None \<and>
     list_all (\<lambda>p. cells s p = None) (pool s)"

section \<open>Interrupt flag\<close>

text \<open>\<open>interrupts.cpp\<close>: the instructions \<open>cli\<close> and \<open>sei\<close>.\<close>

definition INTDisableMasterInterrupts :: "'a machine_scheme \<Rightarrow> 'a machine_scheme" where
  "INTDisableMasterInterrupts s = s\<lparr>sreg_i := False\<rparr>"

definition INTEnableMasterInterrupts :: "'a machine_scheme \<Rightarrow> 'a machine_scheme" where
  "INTEnableMasterInterrupts s = s\<lparr>sreg_i := True\<rparr>"

declare INTDisableMasterInterrupts_def [kernel_defs] INTEnableMasterInterrupts_def [kernel_defs]

section \<open>Reading list nodes\<close>

text \<open>The three kinds of list node, seen as a payload and a successor.\<close>

datatype subscriber = Fn ptr | Recv ptr

fun subscriber_of :: "messagehandler \<Rightarrow> subscriber" where
  "subscriber_of (MHFUNCTION f _) = Fn f"
| "subscriber_of (MHCLASS r _) = Recv r"

fun raw :: "subscriber \<Rightarrow> ptr" where
  "raw (Fn f) = f"
| "raw (Recv r) = r"

type_synonym letter = "int \<times> ptr \<times> MQOWNER"

definition letter_of :: "message \<Rightarrow> letter" where
  "letter_of m = (msgid m, msg_context m, CallerOwns m)"

datatype job = ClassJob ptr | FunJob ptr ptr

fun job_of :: "taskstate \<Rightarrow> job" where
  "job_of (TASKSTATE_C t _) = ClassJob t"
| "job_of (TASKSTATE_F f c _) = FunJob f c"

fun hcell :: "cell option \<Rightarrow> (subscriber \<times> ptr) option" where
  "hcell (Some (CHandler h)) = Some (subscriber_of h, pNextHandler h)"
| "hcell _ = None"

fun mcell :: "cell option \<Rightarrow> (letter \<times> ptr) option" where
  "mcell (Some (CMessage m)) = Some (letter_of m, pNextMsg m)"
| "mcell _ = None"

fun tcell :: "cell option \<Rightarrow> (job \<times> ptr) option" where
  "tcell (Some (CTask t)) = Some (job_of t, pNext t)"
| "tcell _ = None"

abbreviation hnode :: "(ptr \<rightharpoonup> cell) \<Rightarrow> ptr \<Rightarrow> (subscriber \<times> ptr) option" where
  "hnode m \<equiv> \<lambda>p. hcell (m p)"

abbreviation mnode :: "(ptr \<rightharpoonup> cell) \<Rightarrow> ptr \<Rightarrow> (letter \<times> ptr) option" where
  "mnode m \<equiv> \<lambda>p. mcell (m p)"

abbreviation tnode :: "(ptr \<rightharpoonup> cell) \<Rightarrow> ptr \<Rightarrow> (job \<times> ptr) option" where
  "tnode m \<equiv> \<lambda>p. tcell (m p)"

lemma checkHandler_raw: "checkHandler h p \<longleftrightarrow> p = raw (subscriber_of h)"
  by (cases h) auto

lemma set_pNextHandler_simps [simp]:
  "subscriber_of (set_pNextHandler n h) = subscriber_of h"
  "pNextHandler (set_pNextHandler n h) = n"
  by (cases h; simp)+

lemma set_pNext_simps [simp]:
  "job_of (set_pNext n t) = job_of t"
  "pNext (set_pNext n t) = n"
  by (cases t; simp)+

lemma hcell_SomeD: "hcell c = Some (v, n) \<Longrightarrow> \<exists>h. c = Some (CHandler h) \<and> v = subscriber_of h \<and> n = pNextHandler h"
  by (induction c rule: hcell.induct) auto

lemma mcell_SomeD: "mcell c = Some (v, n) \<Longrightarrow> \<exists>m. c = Some (CMessage m) \<and> v = letter_of m \<and> n = pNextMsg m"
  by (induction c rule: mcell.induct) auto

lemma tcell_SomeD: "tcell c = Some (v, n) \<Longrightarrow> \<exists>t. c = Some (CTask t) \<and> v = job_of t \<and> n = pNext t"
  by (induction c rule: tcell.induct) auto

text \<open>Writing an address outside a list does not change the list.\<close>

lemma lseg_cell_upd [simp]:
  "a \<notin> set (addrs hs) \<Longrightarrow>
     lseg (\<lambda>q. hcell (if q = a then c else m q)) p hs r = lseg (hnode m) p hs r"
  "a \<notin> set (addrs ms) \<Longrightarrow>
     lseg (\<lambda>q. mcell (if q = a then c else m q)) p ms r = lseg (mnode m) p ms r"
  "a \<notin> set (addrs ts) \<Longrightarrow>
     lseg (\<lambda>q. tcell (if q = a then c else m q)) p ts r = lseg (tnode m) p ts r"
  by (rule lseg_cong; force)+

section \<open>Laws of the allocator\<close>

lemma new_cell_fresh:
  assumes "heap_wf s" and "new_cell c s = (p, s')" and "p \<noteq> NULL"
  shows "cells s p = None" and "cells s' = (cells s)(p \<mapsto> c)" and "heap_wf s'"
  using assms by (auto simp: new_cell_def heap_wf_def list_all_iff split: list.splits)

lemma new_cell_full:
  assumes "new_cell c s = (p, s')" and "heap_wf s" and "p = NULL"
  shows "s' = s \<and> pool s = []"
  using assms by (auto simp: new_cell_def heap_wf_def split: list.splits)

lemma delete_cell_ok:
  assumes "heap_wf s" and "cells s p = Some c"
  obtains s' where "delete_cell p s = okR s'" "cells s' = (cells s)(p := None)" "heap_wf s'"
proof
  show "delete_cell p s = okR (s\<lparr>cells := (cells s)(p := None), pool := p # pool s\<rparr>)"
    using assms by (simp add: delete_cell_def)
  show "heap_wf (s\<lparr>cells := (cells s)(p := None), pool := p # pool s\<rparr>)"
    using assms by (auto simp: heap_wf_def list_all_iff)
qed simp

lemma delete_cell_bad: "cells s p = None \<Longrightarrow> delete_cell p s = failR BadFree"
  by (simp add: delete_cell_def)

section \<open>The allocator as an interface\<close>

text \<open>
  What the kernel relies on of \<open>new\<close> and \<open>delete\<close>: a fresh address or the null pointer,
  and a release that makes the address free again. The clients' facts are proved from the
  laws alone.
\<close>

locale allocator =
  fixes alloc :: "'c \<Rightarrow> 's \<Rightarrow> ptr \<times> 's"
    and free :: "ptr \<Rightarrow> 's \<Rightarrow> 's res"
    and content :: "'s \<Rightarrow> ptr \<Rightarrow> 'c option"
    and wf :: "'s \<Rightarrow> bool"
  assumes alloc_content: "wf s \<Longrightarrow> alloc c s = (p, s') \<Longrightarrow> p \<noteq> NULL \<Longrightarrow>
      content s p = None \<and> content s' = (content s)(p \<mapsto> c)"
    and alloc_wf: "wf s \<Longrightarrow> alloc c s = (p, s') \<Longrightarrow> wf s'"
    and alloc_full: "wf s \<Longrightarrow> alloc c s = (NULL, s') \<Longrightarrow> s' = s"
    and free_content: "wf s \<Longrightarrow> content s p = Some c \<Longrightarrow>
      \<exists>s'. free p s = okR s' \<and> content s' = (content s)(p := None) \<and> wf s'"
    and free_bad: "content s p = None \<Longrightarrow> free p s = failR BadFree"
begin

lemma alloc_then_free:
  assumes "wf s" and "alloc c s = (p, s')" and "p \<noteq> NULL"
  shows "\<exists>t. free p s' = okR t \<and> content t = content s \<and> wf t"
proof -
  from alloc_content [OF assms] have c: "content s p = None" "content s' = (content s)(p \<mapsto> c)"
    by auto
  then have "content s' p = Some c" by simp
  from free_content [OF alloc_wf [OF assms(1,2)] this] c show ?thesis
    by (auto simp: fun_upd_idem)
qed

lemma free_twice:
  assumes "wf s" and "content s p = Some c" and "free p s = okR t"
  shows "free p t = failR BadFree"
  using free_content [OF assms(1,2)] assms(3) by (auto intro!: free_bad)

lemma alloc_keeps:
  assumes "wf s" and "alloc c s = (p, s')" and "content s q = Some d"
  shows "content s' q = Some d"
  using alloc_content [OF assms(1,2)] alloc_full [OF assms(1), of c s'] assms(2,3)
  by (cases "p = NULL") auto

end

interpretation heap: allocator new_cell delete_cell cells heap_wf
proof
  fix s :: "'a machine_scheme" and c p s'
  assume wf: "heap_wf s" and new: "new_cell c s = (p, s')"
  show "p \<noteq> NULL \<Longrightarrow> cells s p = None \<and> cells s' = (cells s)(p \<mapsto> c)"
    using new_cell_fresh [OF wf new] by blast
  show "heap_wf s'"
    using new_cell_fresh [OF wf new] new_cell_full [OF new wf] wf by (cases "p = NULL") auto
next
  fix s :: "'a machine_scheme" and c s'
  assume "heap_wf s" and "new_cell c s = (NULL, s')"
  then show "s' = s" using new_cell_full by blast
next
  fix s :: "'a machine_scheme" and p c
  assume "heap_wf s" and "cells s p = Some c"
  then show "\<exists>s'. delete_cell p s = okR s' \<and> cells s' = (cells s)(p := None) \<and> heap_wf s'"
    by (rule delete_cell_ok) blast
qed (rule delete_cell_bad)

end
