(* ===== verification/Message_Queue.thy ===== *)
theory Message_Queue
  imports Cpp_Heap
begin

text \<open>
  The message queue of the kernel (\<open>mq.cpp\<close>): a table of 26 singly linked lists of
  subscriptions, one per message id, and one singly linked FIFO of posted messages, all in
  the shared heap. Operations are modelled on the heap itself; \<open>mq_rep\<close> relates the
  heap to the abstract lists of subscribers and letters.
\<close>

section \<open>State\<close>

definition MSG_MAX_MSG_IDS :: int where "MSG_MAX_MSG_IDS = 26"

definition MSG_ID_NOMESSAGE :: int where "MSG_ID_NOMESSAGE = - 1"

declare MSG_MAX_MSG_IDS_def [simp] MSG_ID_NOMESSAGE_def [simp]

text \<open>\<open>MQInternals\<close>, on top of the heap and the interrupt flag.\<close>

record mq = machine +
  QueueBlock :: "ptr list"
  MsgQueueFirst :: ptr
  MsgQueueLast :: ptr

text \<open>
  The constructor \<open>MQClass::MQClass\<close>, on the raw memory of a state: it writes every entry
  of the table and both ends of the queue.
\<close>

definition MQClass_init :: "'a mq_scheme \<Rightarrow> 'a mq_scheme" where
  "MQClass_init s = s\<lparr>QueueBlock := replicate (nat MSG_MAX_MSG_IDS) NULL,
     MsgQueueFirst := NULL, MsgQueueLast := NULL\<rparr>"

text \<open>Reading and writing \<open>QueueBlock[i]\<close>; an index outside the array is a fault.\<close>

definition read_block :: "int \<Rightarrow> 'a mq_scheme \<Rightarrow> ptr res" where
  "read_block i s = (if 0 \<le> i \<and> i < MSG_MAX_MSG_IDS then okR (QueueBlock s ! nat i)
     else failR OutOfBounds)"

definition write_block :: "int \<Rightarrow> ptr \<Rightarrow> 'a mq_scheme \<Rightarrow> ('a mq_scheme) res" where
  "write_block i p s = (if 0 \<le> i \<and> i < MSG_MAX_MSG_IDS
     then okR (s\<lparr>QueueBlock := (QueueBlock s)[nat i := p]\<rparr>) else failR OutOfBounds)"

section \<open>Subscribing\<close>

text \<open>The search loop of both \<open>Subscribe\<close> functions: it stops at the handler or at null.\<close>

partial_function (option) scan_handlers :: "ptr \<Rightarrow> ptr \<Rightarrow> 'a mq_scheme \<Rightarrow> ptr res" where
  "scan_handlers handler pHead s =
     (if pHead = NULL then okR NULL
      else bindR (get_handler pHead s) (\<lambda>h.
        if checkHandler h handler then okR pHead
        else scan_handlers handler (pNextHandler h) s))"

definition Subscribe_fn :: "int \<Rightarrow> ptr \<Rightarrow> 'a mq_scheme \<Rightarrow> (int \<times> 'a mq_scheme) res" where
  "Subscribe_fn mid handler s =
     (if mid < MSG_MAX_MSG_IDS \<and> handler \<noteq> NULL then
        bindR (read_block mid s) (\<lambda>first.
        bindR (scan_handlers handler first s) (\<lambda>pHead.
        if pHead = NULL then
          (let (pNew, s1) = new_cell (CHandler (MHFUNCTION handler first)) s in
           if pNew \<noteq> NULL then bindR (write_block mid pNew s1) (\<lambda>s2. okR (0, s2))
           else okR (-1, s1))
        else okR (-1, s)))
      else okR (-1, s))"

definition Subscribe_class :: "int \<Rightarrow> ptr \<Rightarrow> 'a mq_scheme \<Rightarrow> (int \<times> 'a mq_scheme) res" where
  "Subscribe_class mid handler s =
     (if mid < MSG_MAX_MSG_IDS \<and> handler \<noteq> NULL then
        bindR (read_block mid s) (\<lambda>first.
        bindR (scan_handlers handler first s) (\<lambda>pHead.
        if pHead = NULL then
          (let (pNew, s1) = new_cell (CHandler (MHCLASS handler first)) s in
           if pNew \<noteq> NULL then bindR (write_block mid pNew s1) (\<lambda>s2. okR (0, s2))
           else okR (-1, s1))
        else okR (-1, s)))
      else okR (-1, s))"

section \<open>Unsubscribing\<close>

text \<open>
  The unlinking loop, shared by both \<open>Unsubscribe\<close> functions: \<open>pHead\<close> walks the list,
  \<open>pPrev\<close> is the node before it (null at the head).
\<close>

partial_function (option) unlink_handler ::
  "int \<Rightarrow> ptr \<Rightarrow> ptr \<Rightarrow> ptr \<Rightarrow> 'a mq_scheme \<Rightarrow> (int \<times> 'a mq_scheme) res" where
  "unlink_handler mid handler pHead pPrev s =
     (if pHead = NULL then okR (-1, s)
      else bindR (get_handler pHead s) (\<lambda>h.
        if checkHandler h handler then
          bindR (if pPrev = NULL then write_block mid (pNextHandler h) s
                 else bindR (get_handler pPrev s) (\<lambda>hp.
                   okR (put_cell pPrev (CHandler (set_pNextHandler (pNextHandler h) hp)) s)))
            (\<lambda>s1. bindR (delete_cell pHead s1) (\<lambda>s2. okR (0, s2)))
        else unlink_handler mid handler (pNextHandler h) pHead s))"

definition Unsubscribe_fn :: "int \<Rightarrow> ptr \<Rightarrow> 'a mq_scheme \<Rightarrow> (int \<times> 'a mq_scheme) res" where
  "Unsubscribe_fn mid handler s =
     (if mid < MSG_MAX_MSG_IDS then
        bindR (read_block mid s) (\<lambda>pHead. unlink_handler mid handler pHead NULL s)
      else okR (-1, s))"

definition Unsubscribe_class :: "int \<Rightarrow> ptr \<Rightarrow> 'a mq_scheme \<Rightarrow> (int \<times> 'a mq_scheme) res" where
  "Unsubscribe_class mid handler s =
     (if mid < MSG_MAX_MSG_IDS then
        bindR (read_block mid s) (\<lambda>pHead. unlink_handler mid handler pHead NULL s)
      else okR (-1, s))"

text \<open>
  \<open>UnsubscribeAllIDs\<close>: the loop over all ids. The function is declared to return an
  \<open>int\<close> but has no return statement, so the model has no return value; the code of
  every call is dropped, as in the source.
\<close>

fun unsubscribe_ids :: "int list \<Rightarrow> ptr \<Rightarrow> 'a mq_scheme \<Rightarrow> ('a mq_scheme) res" where
  "unsubscribe_ids [] handler s = okR s"
| "unsubscribe_ids (idx # ids) handler s =
     bindR (Unsubscribe_class idx handler s) (\<lambda>(_, s1). unsubscribe_ids ids handler s1)"

definition UnsubscribeAllIDs :: "ptr \<Rightarrow> 'a mq_scheme \<Rightarrow> ('a mq_scheme) res" where
  "UnsubscribeAllIDs handler s = unsubscribe_ids [0 .. MSG_MAX_MSG_IDS - 1] handler s"

section \<open>Posting\<close>

definition Post :: "int \<Rightarrow> ptr \<Rightarrow> MQOWNER \<Rightarrow> MQCONTEXT \<Rightarrow> 'a mq_scheme \<Rightarrow> (int \<times> 'a mq_scheme) res" where
  "Post mid ctx owner isIntCtx s =
     (let s0 = (if isIntCtx \<noteq> MQ_CONTEXT_INTERRUPT then INTDisableMasterInterrupts s else s);
          leave = (\<lambda>rc t. okR (rc,
            if isIntCtx \<noteq> MQ_CONTEXT_INTERRUPT then INTEnableMasterInterrupts t else t)) in
      if mid < MSG_MAX_MSG_IDS \<and> mid \<noteq> MSG_ID_NOMESSAGE then
        (let (newMessage, s1) = new_cell (CMessage \<lparr>msgid = mid, msg_context = ctx,
               CallerOwns = owner, pNextMsg = NULL\<rparr>) s0 in
         if newMessage \<noteq> NULL then
           (if MsgQueueFirst s1 = NULL then
              leave 0 (s1\<lparr>MsgQueueFirst := newMessage, MsgQueueLast := newMessage\<rparr>)
            else
              bindR (get_message (MsgQueueLast s1) s1) (\<lambda>m.
                leave 0 ((put_cell (MsgQueueLast s1) (CMessage (m\<lparr>pNextMsg := newMessage\<rparr>)) s1)
                  \<lparr>MsgQueueLast := newMessage\<rparr>)))
         else leave (-1) s1)
      else leave (-1) s0)"

section \<open>The dispatch loop\<close>

text \<open>
  What handlers do is application code, given as two parameters: \<open>fb f ctx\<close> is the effect
  of calling the function \<open>f\<close> with a context, \<open>rb r id ctx\<close> the effect of the
  \<open>EventHandler\<close> of the receiver \<open>r\<close>. They act on the whole state and may themselves
  fault or not return.
\<close>

type_synonym 's fn_bodies = "ptr \<Rightarrow> ptr \<Rightarrow> 's \<Rightarrow> 's res"

type_synonym 's recv_bodies = "ptr \<Rightarrow> int \<Rightarrow> ptr \<Rightarrow> 's \<Rightarrow> 's res"

fun Call :: "'s fn_bodies \<Rightarrow> 's recv_bodies \<Rightarrow> messagehandler \<Rightarrow> int \<Rightarrow> ptr \<Rightarrow> 's \<Rightarrow> 's res" where
  "Call fb rb (MHFUNCTION f _) mid ctx s = fb f ctx s"
| "Call fb rb (MHCLASS r _) mid ctx s = rb r mid ctx s"

text \<open>
  The inner loop of \<open>Loop\<close>. The successor of a handler is read after its call, and the
  message is read again for every call, as the source does.
\<close>

partial_function (option) dispatch ::
  "('a mq_scheme) fn_bodies \<Rightarrow> ('a mq_scheme) recv_bodies \<Rightarrow> ptr \<Rightarrow> ptr \<Rightarrow> 'a mq_scheme \<Rightarrow>
     ('a mq_scheme) res" where
  "dispatch fb rb msg curHandler s =
     (if curHandler = NULL then okR s
      else bindR (get_handler curHandler s) (\<lambda>h.
           bindR (get_message msg s) (\<lambda>m.
           bindR (Call fb rb h (msgid m) (msg_context m) s) (\<lambda>s1.
           bindR (get_handler curHandler s1) (\<lambda>h1.
           dispatch fb rb msg (pNextHandler h1) s1)))))"

text \<open>The critical section that takes the first message off the queue.\<close>

definition pop_message :: "'a mq_scheme \<Rightarrow> (ptr \<times> 'a mq_scheme) res" where
  "pop_message s =
     (let s0 = INTDisableMasterInterrupts s; msg = MsgQueueFirst s0 in
      bindR (if msg \<noteq> NULL then
               bindR (get_message msg s0) (\<lambda>m.
                 (let s1 = s0\<lparr>MsgQueueFirst := pNextMsg m\<rparr> in
                  okR (if MsgQueueFirst s1 = NULL then s1\<lparr>MsgQueueLast := NULL\<rparr> else s1)))
             else okR s0)
        (\<lambda>s2. okR (msg, INTEnableMasterInterrupts s2)))"

text \<open>The release of a delivered message, with its context when the queue owns it.\<close>

definition free_message :: "ptr \<Rightarrow> 'a mq_scheme \<Rightarrow> ('a mq_scheme) res" where
  "free_message msg s =
     bindR (get_message msg s) (\<lambda>m.
     bindR (if CallerOwns m \<noteq> MQ_OWNER_CALLER \<and> msg_context m \<noteq> NULL
            then delete_cell (msg_context m) s else okR s)
       (delete_cell msg))"

definition Loop_body ::
  "('a mq_scheme) fn_bodies \<Rightarrow> ('a mq_scheme) recv_bodies \<Rightarrow> 'a mq_scheme \<Rightarrow> ('a mq_scheme) res" where
  "Loop_body fb rb s =
     bindR (pop_message s) (\<lambda>(msg, s1).
       if msg \<noteq> NULL then
         bindR (get_message msg s1) (\<lambda>m.
         bindR (read_block (msgid m) s1) (\<lambda>curHandler.
         bindR (dispatch fb rb msg curHandler s1) (free_message msg)))
       else okR s1)"

text \<open>
  \<open>MQClass::Loop\<close>: \<open>while(MaxMessages)\<close> with a decrement at the end of the body. A
  negative count runs down to the least \<open>int\<close>, whose decrement overflows.
\<close>

partial_function (option) MQ_Loop ::
  "('a mq_scheme) fn_bodies \<Rightarrow> ('a mq_scheme) recv_bodies \<Rightarrow> int \<Rightarrow> 'a mq_scheme \<Rightarrow>
     ('a mq_scheme) res" where
  "MQ_Loop fb rb MaxMessages s =
     (if MaxMessages \<noteq> 0 then
        bindR (Loop_body fb rb s) (\<lambda>s1.
          if MaxMessages = INT_MIN then failR SignedOverflow
          else MQ_Loop fb rb (MaxMessages - 1) s1)
      else okR s)"

section \<open>Representation of the abstract queue\<close>

text \<open>
  \<open>H i\<close> lists the subscriptions to message id \<open>i\<close> (address and subscriber, first
  called first), \<open>M\<close> the waiting letters (oldest first).
\<close>

definition subs_rep :: "'a mq_scheme \<Rightarrow> (nat \<Rightarrow> (ptr \<times> subscriber) list) \<Rightarrow> bool" where
  "subs_rep s H \<longleftrightarrow> length (QueueBlock s) = 26 \<and>
     (\<forall>i<26. lchain (hnode (cells s)) (QueueBlock s ! i) (H i)) \<and>
     (\<forall>i<26. \<forall>j<26. i \<noteq> j \<longrightarrow> set (addrs (H i)) \<inter> set (addrs (H j)) = {})"

definition queue_rep :: "'a mq_scheme \<Rightarrow> (ptr \<times> letter) list \<Rightarrow> bool" where
  "queue_rep s M \<longleftrightarrow> lchain (mnode (cells s)) (MsgQueueFirst s) M \<and>
     MsgQueueLast s = (if M = [] then NULL else fst (last M))"

definition mq_rep ::
  "'a mq_scheme \<Rightarrow> (nat \<Rightarrow> (ptr \<times> subscriber) list) \<Rightarrow> (ptr \<times> letter) list \<Rightarrow> bool" where
  "mq_rep s H M \<longleftrightarrow> heap_wf s \<and> subs_rep s H \<and> queue_rep s M"

lemma subs_rep_frame:
  assumes "subs_rep s H" and "QueueBlock s' = QueueBlock s"
    and "\<And>p. hcell (cells s p) \<noteq> None \<Longrightarrow> hcell (cells s' p) = hcell (cells s p)"
  shows "subs_rep s' H"
proof -
  have "lchain (hnode (cells s')) (QueueBlock s ! i) (H i)" if "i < 26" for i
  proof -
    from assms(1) that have c: "lchain (hnode (cells s)) (QueueBlock s ! i) (H i)"
      by (simp add: subs_rep_def)
    from lseg_node [OF c] assms(3) show ?thesis
      by (subst lseg_cong [where node = "hnode (cells s)"]) (auto simp: c)
  qed
  with assms(1,2) show ?thesis by (simp add: subs_rep_def)
qed

lemma subs_rep_chain:
  "subs_rep s H \<Longrightarrow> i < 26 \<Longrightarrow> lchain (hnode (cells s)) (QueueBlock s ! i) (H i)"
  by (simp add: subs_rep_def)

lemma subs_rep_disjoint:
  "subs_rep s H \<Longrightarrow> j < 26 \<Longrightarrow> i < 26 \<Longrightarrow> j \<noteq> i \<Longrightarrow> a \<in> set (addrs (H j)) \<Longrightarrow> a \<notin> set (addrs (H i))"
  unfolding subs_rep_def by blast

lemma queue_rep_frame:
  assumes "queue_rep s M" and "MsgQueueFirst s' = MsgQueueFirst s" "MsgQueueLast s' = MsgQueueLast s"
    and "\<And>p. p \<in> set (addrs M) \<Longrightarrow> mcell (cells s' p) = mcell (cells s p)"
  shows "queue_rep s' M"
  using assms lseg_cong [of M "mnode (cells s')" "mnode (cells s)"] by (simp add: queue_rep_def)

lemma subs_rep_node:
  assumes "subs_rep s H" and "i < 26" and "a \<in> set (addrs (H i))"
  shows "\<exists>h. cells s a = Some (CHandler h)"
  using assms lseg_node [of "hnode (cells s)" "QueueBlock s ! i" "H i" NULL a]
  by (auto simp: subs_rep_def dest!: hcell_SomeD)

lemma queue_rep_node:
  assumes "queue_rep s M" and "a \<in> set (addrs M)"
  shows "\<exists>m. cells s a = Some (CMessage m)"
  using assms lseg_node [of "mnode (cells s)" "MsgQueueFirst s" M NULL a]
  by (auto simp: queue_rep_def dest!: mcell_SomeD)

section \<open>Behaviour of the loops on a represented list\<close>

lemma scan_handlers_lchain:
  "lchain (hnode (cells s)) p xs \<Longrightarrow>
     \<exists>q. scan_handlers k p s = okR q \<and> (q = NULL \<longleftrightarrow> k \<notin> raw ` set (vals xs))"
proof (induction xs arbitrary: p)
  case Nil
  then show ?case by (simp add: scan_handlers.simps)
next
  case (Cons x xs)
  then obtain h where h: "cells s p = Some (CHandler h)" "snd x = subscriber_of h"
      "lchain (hnode (cells s)) (pNextHandler h) xs" "p = fst x" "p \<noteq> NULL"
    by (auto split: option.splits dest!: hcell_SomeD)
  with Cons.IH [OF h(3)] show ?case
    by (subst scan_handlers.simps) (auto simp: get_handler_def checkHandler_raw)
qed

text \<open>
  What the subscription operations leave alone: the queue, the interrupt flag, the rest of
  the state, and every allocated object that is not a subscription.
\<close>

definition keeps_others :: "'a mq_scheme \<Rightarrow> 'a mq_scheme \<Rightarrow> bool" where
  "keeps_others s s' \<longleftrightarrow> MsgQueueFirst s' = MsgQueueFirst s \<and> MsgQueueLast s' = MsgQueueLast s \<and>
     sreg_i s' = sreg_i s \<and> mq.more s' = mq.more s \<and>
     (\<forall>p c. cells s p = Some c \<and> hcell (Some c) = None \<longrightarrow> cells s' p = Some c)"

lemma keeps_others_refl [simp]: "keeps_others s s"
  by (simp add: keeps_others_def)

lemma keeps_others_trans: "keeps_others s t \<Longrightarrow> keeps_others t u \<Longrightarrow> keeps_others s u"
  by (simp add: keeps_others_def)

lemma keeps_others_queue:
  assumes "keeps_others s s'" and "queue_rep s M"
  shows "queue_rep s' M"
proof (rule queue_rep_frame [OF assms(2)])
  fix p assume "p \<in> set (addrs M)"
  with queue_rep_node [OF assms(2)] obtain m where "cells s p = Some (CMessage m)" by blast
  with assms(1) have "cells s' p = cells s p" by (auto simp: keeps_others_def)
  then show "mcell (cells s' p) = mcell (cells s p)" by simp
qed (use assms(1) in \<open>simp_all add: keeps_others_def\<close>)

text \<open>Replacing one list of the table by a list without new addresses.\<close>

lemma subs_rep_update:
  assumes "subs_rep s H" and "i < 26" and "QueueBlock s' = (QueueBlock s)[i := p]"
    and "lchain (hnode (cells s')) p xs"
    and "\<And>j a. j < 26 \<Longrightarrow> j \<noteq> i \<Longrightarrow> a \<in> set (addrs (H j)) \<Longrightarrow>
           a \<notin> set (addrs xs) \<and> hcell (cells s' a) = hcell (cells s a)"
  shows "subs_rep s' (H(i := xs))"
proof -
  have "lchain (hnode (cells s')) (QueueBlock s' ! j) ((H(i := xs)) j)" if j: "j < 26" for j
  proof (cases "j = i")
    case True
    with assms(1,2,3,4) show ?thesis by (simp add: subs_rep_def)
  next
    case False
    then have "lchain (hnode (cells s')) (QueueBlock s ! j) (H j)"
      using assms(1,5) j by (subst lseg_cong [where node = "hnode (cells s)"]) (auto simp: subs_rep_def)
    with False assms(3) show ?thesis by simp
  qed
  moreover have "set (addrs ((H(i := xs)) j)) \<inter> set (addrs ((H(i := xs)) k)) = {}"
    if "j < 26" "k < 26" "j \<noteq> k" for j k
    using assms(1) assms(5) [of j] assms(5) [of k] that by (auto simp: subs_rep_def)
  ultimately show ?thesis using assms(1,3) by (simp add: subs_rep_def)
qed

lemma unlink_step:
  assumes "p \<noteq> NULL" and "cells s p = Some (CHandler h)" and "checkHandler h k"
  shows "unlink_handler (int i) k p pPrev s =
      bindR (if pPrev = NULL then write_block (int i) (pNextHandler h) s
             else bindR (get_handler pPrev s) (\<lambda>hp.
               okR (put_cell pPrev (CHandler (set_pNextHandler (pNextHandler h) hp)) s)))
        (\<lambda>s1. bindR (delete_cell p s1) (\<lambda>s2. okR (0, s2)))"
  using assms by (subst unlink_handler.simps) (simp add: get_handler_def)

lemma mq_repI:
  "heap_wf s' \<Longrightarrow> subs_rep s' H' \<Longrightarrow> keeps_others s s' \<Longrightarrow> mq_rep s H M \<Longrightarrow> mq_rep s' H' M"
  using keeps_others_queue by (auto simp: mq_rep_def)

text \<open>
  Unlinking a node writes the table at the head of the list, and the predecessor elsewhere. The
  node is then in no list of the table, but still allocated.
\<close>

lemma unlink_at_head:
  assumes rep: "mq_rep s H M" and i: "i < 26" and H: "H i = (p, v) # ws" and h: "cells s p = Some (CHandler h)"
  defines "s1 \<equiv> s\<lparr>QueueBlock := (QueueBlock s)[i := pNextHandler h]\<rparr>"
  shows "mq_rep s1 (H(i := ws)) M" and "keeps_others s s1"
proof -
  have sub: "subs_rep s H" and wf: "heap_wf s" using rep by (auto simp: mq_rep_def)
  have "lchain (hnode (cells s)) (QueueBlock s ! i) ((p, v) # ws)" using subs_rep_chain [OF sub i] unfolding H .
  then have ws: "lchain (hnode (cells s)) (pNextHandler h) ws" using h by (auto split: option.splits)
  have "subs_rep s1 (H(i := ws))"
  proof (rule subs_rep_update [OF sub i])
    fix j a assume "j < 26" "j \<noteq> i" "a \<in> set (addrs (H j))"
    from subs_rep_disjoint [OF sub this(1) i this(2,3)] H
    show "a \<notin> set (addrs ws) \<and> hcell (cells s1 a) = hcell (cells s a)" by (auto simp: s1_def)
  qed (use ws in \<open>auto simp: s1_def\<close>)
  moreover have "heap_wf s1" using wf by (simp add: heap_wf_def s1_def)
  moreover show "keeps_others s s1" by (simp add: keeps_others_def s1_def)
  ultimately show "mq_rep s1 (H(i := ws)) M" using mq_repI [OF _ _ _ rep] by blast
qed

lemma unlink_inside:
  assumes rep: "mq_rep s H M" and i: "i < 26" and H: "H i = (pre @ [x]) @ (p, v) # ws" and h: "cells s p = Some (CHandler h)"
  obtains hp where "cells s (fst x) = Some (CHandler hp)" "fst x \<noteq> NULL" "fst x \<noteq> p"
    "mq_rep (put_cell (fst x) (CHandler (set_pNextHandler (pNextHandler h) hp)) s) (H(i := (pre @ [x]) @ ws)) M"
    "keeps_others s (put_cell (fst x) (CHandler (set_pNextHandler (pNextHandler h) hp)) s)"
proof -
  have sub: "subs_rep s H" and wf: "heap_wf s" using rep by (auto simp: mq_rep_def)
  have ch: "lchain (hnode (cells s)) (QueueBlock s ! i) ((pre @ [x]) @ (p, v) # ws)"
    using subs_rep_chain [OF sub i] unfolding H .
  have dist: "distinct (addrs ((pre @ [x]) @ (p, v) # ws))" using lchain_distinct [OF ch] .
  have xnz: "fst x \<noteq> NULL" and ws: "lchain (hnode (cells s)) (pNextHandler h) ws"
    and seg: "lseg (hnode (cells s)) (QueueBlock s ! i) pre (fst x)"
    using ch h by (auto simp: lseg_append split: option.splits)
  obtain hp where hp: "cells s (fst x) = Some (CHandler hp)" "snd x = subscriber_of hp"
    using ch by (auto simp: lseg_append split: option.splits dest!: hcell_SomeD)
  let ?s = "put_cell (fst x) (CHandler (set_pNextHandler (pNextHandler h) hp)) s"
  have ne: "fst x \<noteq> p" using dist by auto
  have "lseg (hnode (cells ?s)) (QueueBlock s ! i) (pre @ [x]) (pNextHandler h)"
    using dist seg xnz hp(2) by (auto simp: lseg_snoc put_cell_def)
  moreover have "lchain (hnode (cells ?s)) (pNextHandler h) ws" using dist ws by (auto simp: put_cell_def)
  ultimately have "lchain (hnode (cells ?s)) (QueueBlock s ! i) ((pre @ [x]) @ ws)"
    by (auto simp only: lseg_append)
  then have "subs_rep ?s (H(i := (pre @ [x]) @ ws))"
  proof (rule subs_rep_update [OF sub i, rotated])
    fix j a assume "j < 26" "j \<noteq> i" "a \<in> set (addrs (H j))"
    from subs_rep_disjoint [OF sub this(1) i this(2,3)] H
    show "a \<notin> set (addrs ((pre @ [x]) @ ws)) \<and> hcell (cells ?s a) = hcell (cells s a)" by (auto simp: put_cell_def)
  qed (use sub i in \<open>simp add: put_cell_def\<close>)
  moreover have "heap_wf ?s" using wf hp xnz by (auto simp: heap_wf_def list_all_iff put_cell_def)
  moreover have k: "keeps_others s ?s" using hp by (auto simp: keeps_others_def put_cell_def)
  ultimately have "mq_rep ?s (H(i := (pre @ [x]) @ ws)) M" using mq_repI [OF _ _ _ rep] by blast
  with hp(1) xnz ne k that show thesis by blast
qed

text \<open>The write that unlinks the node \<open>p\<close> after the node \<open>pPrev\<close>, in both cases.\<close>

definition unlink_write :: "int \<Rightarrow> messagehandler \<Rightarrow> ptr \<Rightarrow> 'a mq_scheme \<Rightarrow> ('a mq_scheme) res" where
  "unlink_write mid h pPrev s = (if pPrev = NULL then write_block mid (pNextHandler h) s
     else bindR (get_handler pPrev s) (\<lambda>hp. okR (put_cell pPrev (CHandler (set_pNextHandler (pNextHandler h) hp)) s)))"

lemma unlink_write_rep:
  assumes rep: "mq_rep s H M" and i: "i < 26" and H: "H i = pre @ (p, v) # ws" and h: "cells s p = Some (CHandler h)"
    and q: "q = (if pre = [] then NULL else fst (last pre))"
  shows "\<exists>s1. unlink_write (int i) h q s = okR s1 \<and> mq_rep s1 (H(i := pre @ ws)) M \<and> keeps_others s s1 \<and>
    cells s1 p = cells s p \<and> dom (cells s1) = dom (cells s) \<and> pool s1 = pool s"
proof (cases "pre = []")
  case True
  with unlink_at_head [OF rep i _ h, of v ws] H q i show ?thesis by (simp add: unlink_write_def write_block_def)
next
  case False
  then have "H i = (butlast pre @ [last pre]) @ (p, v) # ws" using H by simp
  from unlink_inside [OF rep i this h] obtain hp where hp: "cells s (fst (last pre)) = Some (CHandler hp)" "fst (last pre) \<noteq> NULL"
      "fst (last pre) \<noteq> p"
      "mq_rep (put_cell (fst (last pre)) (CHandler (set_pNextHandler (pNextHandler h) hp)) s) (H(i := pre @ ws)) M"
      "keeps_others s (put_cell (fst (last pre)) (CHandler (set_pNextHandler (pNextHandler h) hp)) s)"
    using False by (metis append_butlast_last_id)
  with False q show ?thesis by (auto simp: unlink_write_def get_handler_def put_cell_def)
qed

text \<open>A node that is in no list of the table can be deleted.\<close>

lemma delete_unlinked:
  assumes rep: "mq_rep s H M" and h: "cells s p = Some (CHandler h)" and out: "\<And>j. j < 26 \<Longrightarrow> p \<notin> set (addrs (H j))"
  shows "\<exists>s'. delete_cell p s = okR s' \<and> mq_rep s' H M \<and> keeps_others s s' \<and> cells s' = (cells s)(p := None) \<and>
    pool s' = p # pool s"
proof -
  let ?s = "s\<lparr>cells := (cells s)(p := None), pool := p # pool s\<rparr>"
  have sub: "subs_rep s H" and wf: "heap_wf s" using rep by (auto simp: mq_rep_def)
  have "lchain (hnode (cells ?s)) (QueueBlock s ! j) (H j)" if "j < 26" for j
    using subs_rep_chain [OF sub that] out [OF that] by simp
  then have "subs_rep ?s H" using sub by (simp add: subs_rep_def)
  moreover have "heap_wf ?s" using wf h by (auto simp: heap_wf_def list_all_iff)
  moreover have "keeps_others s ?s" using h by (auto simp: keeps_others_def)
  ultimately show ?thesis using mq_repI [OF _ _ _ rep] h by (auto simp: delete_cell_def)
qed

lemma unlinked_outside:
  assumes "subs_rep s H" and "i < 26" and "H i = pre @ (p, v) # ws" and "j < 26"
  shows "p \<notin> set (addrs ((H(i := pre @ ws)) j))"
  using lchain_distinct [OF subs_rep_chain [OF assms(1,2)]] subs_rep_disjoint [OF assms(1,4,2), of p] assms(3)
  by (cases "j = i") auto

lemma unlink_node:
  assumes rep: "mq_rep s H M" and i: "i < 26" and H: "H i = pre @ (p, v) # ws"
    and h: "cells s p = Some (CHandler h)" "checkHandler h k" and q: "q = (if pre = [] then NULL else fst (last pre))"
  shows "\<exists>s'. unlink_handler (int i) k p q s = okR (0, s') \<and> mq_rep s' (H(i := pre @ ws)) M \<and> keeps_others s s' \<and>
    dom (cells s') = dom (cells s) - {p} \<and> pool s' = p # pool s"
proof -
  have sub: "subs_rep s H" and "heap_wf s" using rep by (auto simp: mq_rep_def)
  then have pnz: "p \<noteq> NULL" using h(1) by (auto simp: heap_wf_def)
  obtain s1 where s1: "unlink_write (int i) h q s = okR s1" "mq_rep s1 (H(i := pre @ ws)) M" "keeps_others s s1"
      "cells s1 p = cells s p" "dom (cells s1) = dom (cells s)" "pool s1 = pool s"
    using unlink_write_rep [OF rep i H h(1) q] by blast
  obtain s' where s': "delete_cell p s1 = okR s'" "mq_rep s' (H(i := pre @ ws)) M" "keeps_others s1 s'"
      "cells s' = (cells s1)(p := None)" "pool s' = p # pool s1"
    using delete_unlinked [OF s1(2), of p h] unlinked_outside [OF sub i H] s1(4) h(1) by (simp del: fun_upd_apply) blast
  have "unlink_handler (int i) k p q s = okR (0, s')"
    using unlink_step [OF pnz h, of i q] s1(1) s'(1) by (simp add: unlink_write_def)
  with s' s1(5,6) keeps_others_trans [OF s1(3) s'(3)] show ?thesis by auto
qed

text \<open>The whole loop removes the first subscription with the given raw pointer.\<close>

lemma unlink_handler_lchain:
  assumes "mq_rep s H M" and "i < 26" and "H i = pre @ xs"
    and "lchain (hnode (cells s)) p xs" and "pPrev = (if pre = [] then NULL else fst (last pre))"
  shows "\<exists>s'. unlink_handler (int i) k p pPrev s =
             okR (if k \<in> raw ` set (vals xs) then 0 else -1, s') \<and>
           mq_rep s' (H(i := pre @ drop_first (\<lambda>x. raw (snd x) = k) xs)) M \<and> keeps_others s s' \<and>
           dom (cells s') = dom (cells s) - (set (addrs xs) - set (addrs (drop_first (\<lambda>x. raw (snd x) = k) xs))) \<and>
           length (pool s') = length (pool s) + (if k \<in> raw ` set (vals xs) then 1 else 0)"
  using assms(3-5)
proof (induction xs arbitrary: p pre pPrev)
  case Nil
  then have "H(i := pre) = H" by auto
  with Nil assms(1) show ?case by (subst unlink_handler.simps) simp
next
  case (Cons x xs)
  then obtain h where h: "cells s p = Some (CHandler h)" "snd x = subscriber_of h"
      "lchain (hnode (cells s)) (pNextHandler h) xs" "p = fst x" "p \<noteq> NULL"
    by (auto split: option.splits dest!: hcell_SomeD)
  show ?case
  proof (cases "checkHandler h k")
    case True
    have "H i = pre @ (p, snd x) # xs" using Cons.prems(1) h(4) by simp
    note unlink_node [OF assms(1,2) this h(1) True Cons.prems(3)]
    moreover have "set (addrs (x # xs)) - set (addrs xs) = {p}"
      using lchain_distinct [OF Cons.prems(2)] h(4) by auto
    ultimately show ?thesis using True h by (auto simp: checkHandler_raw fun_upd_def)
  next
    case False
    then have "unlink_handler (int i) k p pPrev s = unlink_handler (int i) k (pNextHandler h) p s"
      using h by (subst unlink_handler.simps) (simp add: get_handler_def)
    moreover have "set (addrs (x # xs)) - set (addrs (x # ys)) = set (addrs xs) - set (addrs ys)" for ys
      using lchain_distinct [OF Cons.prems(2)] by auto
    ultimately show ?thesis using Cons.IH [of "pre @ [x]" "pNextHandler h" p] Cons.prems h False
      by (auto simp: checkHandler_raw)
  qed
qed

section \<open>The subscription table\<close>

text \<open>The overloads of \<open>Subscribe\<close> and \<open>Unsubscribe\<close>, selected by the kind of subscriber.\<close>

fun Subscribe :: "int \<Rightarrow> subscriber \<Rightarrow> 'a mq_scheme \<Rightarrow> (int \<times> 'a mq_scheme) res" where
  "Subscribe mid (Fn f) s = Subscribe_fn mid f s"
| "Subscribe mid (Recv r) s = Subscribe_class mid r s"

fun Unsubscribe :: "int \<Rightarrow> subscriber \<Rightarrow> 'a mq_scheme \<Rightarrow> (int \<times> 'a mq_scheme) res" where
  "Unsubscribe mid (Fn f) s = Unsubscribe_fn mid f s"
| "Unsubscribe mid (Recv r) s = Unsubscribe_class mid r s"

fun handler_cell :: "subscriber \<Rightarrow> ptr \<Rightarrow> messagehandler" where
  "handler_cell (Fn f) n = MHFUNCTION f n"
| "handler_cell (Recv r) n = MHCLASS r n"

lemma handler_cell_simps [simp]:
  "subscriber_of (handler_cell x n) = x" "pNextHandler (handler_cell x n) = n"
  by (cases x; simp)+

lemma Subscribe_unfold:
  "Subscribe mid x s =
     (if mid < 26 \<and> raw x \<noteq> NULL then
        bindR (read_block mid s) (\<lambda>first.
        bindR (scan_handlers (raw x) first s) (\<lambda>pHead.
        if pHead = NULL then
          (let (pNew, s1) = new_cell (CHandler (handler_cell x first)) s in
           if pNew \<noteq> NULL then bindR (write_block mid pNew s1) (\<lambda>s2. okR (0, s2))
           else okR (-1, s1))
        else okR (-1, s)))
      else okR (-1, s))"
  by (induction x) (simp_all add: Subscribe_fn_def Subscribe_class_def cong: if_cong)

lemma Unsubscribe_unfold:
  "Unsubscribe mid x s =
     (if mid < 26 then
        bindR (read_block mid s) (\<lambda>pHead. unlink_handler mid (raw x) pHead NULL s)
      else okR (-1, s))"
  by (cases x) (simp_all add: Unsubscribe_fn_def Unsubscribe_class_def)

lemma Subscribe_present:
  assumes "mq_rep s H M" and "i < 26" and "raw x \<in> raw ` set (vals (H i)) \<or> pool s = [] \<or> raw x = NULL"
  shows "Subscribe (int i) x s = okR (-1, s)"
proof -
  have ch: "lchain (hnode (cells s)) (QueueBlock s ! i) (H i)"
    using assms(1,2) by (auto simp: mq_rep_def intro: subs_rep_chain)
  obtain q where "scan_handlers (raw x) (QueueBlock s ! i) s = okR q"
      "q = NULL \<longleftrightarrow> raw x \<notin> raw ` set (vals (H i))"
    using scan_handlers_lchain [OF ch] by blast
  with assms(2,3) show ?thesis
    by (auto simp: Subscribe_unfold read_block_def new_cell_def)
qed

lemma Subscribe_fresh:
  assumes rep: "mq_rep s H M" and i: "i < 26" and x: "raw x \<notin> raw ` set (vals (H i))" "raw x \<noteq> NULL"
    and pool: "pool s = p # ps"
  shows "\<exists>s'. Subscribe (int i) x s = okR (0, s') \<and>
           mq_rep s' (H(i := (p, x) # H i)) M \<and> keeps_others s s' \<and> pool s' = ps"
proof -
  have sub: "subs_rep s H" and wf: "heap_wf s" using rep by (auto simp: mq_rep_def)
  note ch = subs_rep_chain [OF sub i]
  have p: "p \<noteq> NULL" "cells s p = None" using wf pool by (auto simp: heap_wf_def)
  have fresh: "p \<notin> set (addrs (H j))" if "j < 26" for j
    using subs_rep_node [OF sub that] p(2) by fastforce
  let ?s = "s\<lparr>cells := (cells s)(p \<mapsto> CHandler (handler_cell x (QueueBlock s ! i))), pool := ps,
    QueueBlock := (QueueBlock s)[i := p]\<rparr>"
  have "subs_rep ?s (H(i := (p, x) # H i))"
  proof (rule subs_rep_update [OF sub i])
    fix j a assume ja: "j < 26" "j \<noteq> i" "a \<in> set (addrs (H j))"
    show "a \<notin> set (addrs ((p, x) # H i)) \<and> hcell (cells ?s a) = hcell (cells s a)"
      using subs_rep_disjoint [OF sub ja(1) i ja(2,3)] fresh [OF ja(1)] ja(3) by auto
  qed (use ch p fresh [OF i] in auto)
  moreover have "heap_wf ?s" using wf pool by (auto simp: heap_wf_def list_all_iff)
  moreover have "keeps_others s ?s" using p by (auto simp: keeps_others_def)
  moreover have "scan_handlers (raw x) (QueueBlock s ! i) s = okR NULL"
    using scan_handlers_lchain [OF ch] x(1) by metis
  then have "Subscribe (int i) x s = okR (0, ?s)"
    using i x p pool by (simp add: Subscribe_unfold read_block_def write_block_def new_cell_def)
  ultimately show ?thesis using mq_repI [OF _ _ _ rep] by force
qed

text \<open>
  The cells that are in no list of the table. Removing a subscription frees its node, so none of
  the operations adds to them.
\<close>

definition outside :: "'a mq_scheme \<Rightarrow> (nat \<Rightarrow> (ptr \<times> subscriber) list) \<Rightarrow> ptr set" where
  "outside s H = dom (cells s) - (\<Union>i<26. set (addrs (H i)))"

lemma outside_update:
  assumes "i < 26" and "dom (cells s') - set (addrs xs) \<subseteq> dom (cells s) - set (addrs (H i))"
  shows "outside s' (H(i := xs)) \<subseteq> outside s H"
  using assms by (fastforce simp: outside_def)

lemma Unsubscribe_frees:
  assumes "mq_rep s H M" and "i < 26"
  shows "\<exists>s'. Unsubscribe (int i) x s = okR (if raw x \<in> raw ` set (vals (H i)) then 0 else -1, s') \<and>
           mq_rep s' (H(i := drop_first (\<lambda>y. raw (snd y) = raw x) (H i))) M \<and> keeps_others s s' \<and>
           outside s' (H(i := drop_first (\<lambda>y. raw (snd y) = raw x) (H i))) \<subseteq> outside s H \<and>
           length (pool s') = length (pool s) + (if raw x \<in> raw ` set (vals (H i)) then 1 else 0)"
proof -
  have "lchain (hnode (cells s)) (QueueBlock s ! i) (H i)"
    using assms by (auto simp: mq_rep_def intro: subs_rep_chain)
  from unlink_handler_lchain [OF assms, of "[]", OF _ this, of NULL "raw x"] assms(2) obtain s' where
    s': "Unsubscribe (int i) x s = okR (if raw x \<in> raw ` set (vals (H i)) then 0 else -1, s')"
      "mq_rep s' (H(i := drop_first (\<lambda>y. raw (snd y) = raw x) (H i))) M" "keeps_others s s'"
      "dom (cells s') = dom (cells s) - (set (addrs (H i)) - set (addrs (drop_first (\<lambda>y. raw (snd y) = raw x) (H i))))"
      "length (pool s') = length (pool s) + (if raw x \<in> raw ` set (vals (H i)) then 1 else 0)"
    by (auto simp: Unsubscribe_unfold read_block_def simp del: set_map)
  have "outside s' (H(i := drop_first (\<lambda>y. raw (snd y) = raw x) (H i))) \<subseteq> outside s H"
    by (rule outside_update [OF assms(2)]) (use s'(4) in auto)
  with s' show ?thesis by blast
qed

lemma Unsubscribe_rep:
  assumes "mq_rep s H M" and "i < 26"
  shows "\<exists>s'. Unsubscribe (int i) x s = okR (if raw x \<in> raw ` set (vals (H i)) then 0 else -1, s') \<and>
           mq_rep s' (H(i := drop_first (\<lambda>y. raw (snd y) = raw x) (H i))) M \<and> keeps_others s s'"
  using Unsubscribe_frees [OF assms] by blast

lemma unsubscribe_ids_frees:
  fixes k :: ptr
  assumes "mq_rep s H M" and "list_all (\<lambda>i. i < 26) is" and "distinct is"
  defines "H' \<equiv> \<lambda>i. if i \<in> set is then drop_first (\<lambda>y. raw (snd y) = k) (H i) else H i"
  shows "\<exists>s'. unsubscribe_ids (map int is) k s = okR s' \<and> keeps_others s s' \<and> mq_rep s' H' M \<and> outside s' H' \<subseteq> outside s H \<and>
    length (pool s') = length (pool s) + length (filter (\<lambda>i. k \<in> raw ` set (vals (H i))) is)"
  using assms(1-3) unfolding H'_def
proof (induction "is" arbitrary: s H)
  case (Cons i "is")
  let ?H = "H(i := drop_first (\<lambda>y. raw (snd y) = k) (H i))"
  obtain rc s1 where 1: "Unsubscribe_class (int i) k s = okR (rc, s1)" "mq_rep s1 ?H M"
      "keeps_others s s1" "outside s1 ?H \<subseteq> outside s H"
      "length (pool s1) = length (pool s) + (if k \<in> raw ` set (vals (H i)) then 1 else 0)"
    using Unsubscribe_frees [OF Cons.prems(1), of i "Recv k"] Cons.prems(2) by auto
  let ?H' = "\<lambda>j. if j \<in> set is then drop_first (\<lambda>y. raw (snd y) = k) (?H j) else ?H j"
  obtain s2 where 2: "unsubscribe_ids (map int is) k s1 = okR s2" "keeps_others s1 s2" "mq_rep s2 ?H' M"
      "outside s2 ?H' \<subseteq> outside s1 ?H"
      "length (pool s2) = length (pool s1) + length (filter (\<lambda>j. k \<in> raw ` set (vals (?H j))) is)"
    using Cons.IH [OF 1(2)] Cons.prems(2,3) by (simp del: fun_upd_apply) blast
  have e: "?H' = (\<lambda>j. if j \<in> set (i # is) then drop_first (\<lambda>y. raw (snd y) = k) (H j) else H j)"
    using Cons.prems(3) by auto
  have "filter (\<lambda>j. k \<in> raw ` set (vals (?H j))) is = filter (\<lambda>j. k \<in> raw ` set (vals (H j))) is"
    using Cons.prems(3) by (intro filter_cong) auto
  then have "length (pool s2) = length (pool s) + length (filter (\<lambda>i. k \<in> raw ` set (vals (H i))) (i # is))"
    using 1(5) 2(5) by simp
  moreover have "unsubscribe_ids (map int (i # is)) k s = okR s2" using 1(1) 2(1) by simp
  ultimately show ?case using 1(4) 2(3,4) keeps_others_trans [OF 1(3) 2(2)] unfolding e by (meson order_trans)
qed simp

lemma UnsubscribeAllIDs_frees:
  fixes k :: ptr
  assumes "mq_rep s H M"
  defines "H' \<equiv> \<lambda>i. if i < 26 then drop_first (\<lambda>y. raw (snd y) = k) (H i) else H i"
  shows "\<exists>s'. UnsubscribeAllIDs k s = okR s' \<and> keeps_others s s' \<and> mq_rep s' H' M \<and> outside s' H' \<subseteq> outside s H \<and>
    length (pool s') = length (pool s) + length (filter (\<lambda>i. k \<in> raw ` set (vals (H i))) [0..<26])"
proof -
  have "[0..MSG_MAX_MSG_IDS - 1] = map int [0..<26]" by code_simp
  then show ?thesis
    using unsubscribe_ids_frees [OF assms(1), of "[0..<26]" k]
    by (simp add: UnsubscribeAllIDs_def list_all_iff H'_def)
qed

lemma UnsubscribeAllIDs_rep:
  assumes "mq_rep s H M"
  shows "\<exists>s'. UnsubscribeAllIDs k s = okR s' \<and> keeps_others s s' \<and>
           mq_rep s' (\<lambda>i. if i < 26 then drop_first (\<lambda>y. raw (snd y) = k) (H i) else H i) M"
  using UnsubscribeAllIDs_frees [OF assms] by blast

section \<open>The table as an interface\<close>

text \<open>
  What the clients of the message queue rely on: \<open>sub\<close> adds a subscriber that is not
  there yet or leaves the table, \<open>unsub\<close> removes it. Their facts are proved from the
  laws.
\<close>

datatype table_op = Sub nat subscriber | Unsub nat subscriber

fun run_ops :: "(int \<Rightarrow> subscriber \<Rightarrow> 's \<Rightarrow> (int \<times> 's) res) \<Rightarrow> (int \<Rightarrow> subscriber \<Rightarrow> 's \<Rightarrow> (int \<times> 's) res) \<Rightarrow>
    table_op list \<Rightarrow> 's \<Rightarrow> 's res" where
  "run_ops sub unsub [] s = okR s"
| "run_ops sub unsub (Sub i x # ops) s = bindR (sub (int i) x s) (\<lambda>(_, s1). run_ops sub unsub ops s1)"
| "run_ops sub unsub (Unsub i x # ops) s = bindR (unsub (int i) x s) (\<lambda>(_, s1). run_ops sub unsub ops s1)"

fun op_id :: "table_op \<Rightarrow> nat" where
  "op_id (Sub i _) = i"
| "op_id (Unsub i _) = i"

definition dup_free :: "(nat \<Rightarrow> subscriber list) \<Rightarrow> bool" where
  "dup_free A \<longleftrightarrow> (\<forall>i<26. distinct (map raw (A i)))"

lemma dup_free_add: "dup_free A \<Longrightarrow> raw x \<notin> raw ` set (A i) \<Longrightarrow> dup_free (A(i := x # A i))"
  by (simp add: dup_free_def)

lemma distinct_drop_first: "distinct (map f xs) \<Longrightarrow> distinct (map f (drop_first P xs))"
  by (induction xs) (auto dest: drop_first_subset [THEN subsetD])

lemma dup_free_del: "dup_free A \<Longrightarrow> dup_free (A(i := drop_first P (A i)))"
  by (simp add: dup_free_def distinct_drop_first)

locale subscription_table =
  fixes table :: "'s \<Rightarrow> (nat \<Rightarrow> subscriber list) \<Rightarrow> bool"
    and sub :: "int \<Rightarrow> subscriber \<Rightarrow> 's \<Rightarrow> (int \<times> 's) res"
    and unsub :: "int \<Rightarrow> subscriber \<Rightarrow> 's \<Rightarrow> (int \<times> 's) res"
  assumes sub_law: "table s A \<Longrightarrow> i < 26 \<Longrightarrow> \<exists>rc s'. sub (int i) x s = okR (rc, s') \<and>
      (rc = 0 \<and> raw x \<notin> raw ` set (A i) \<and> table s' (A(i := x # A i)) \<or> rc = -1 \<and> table s' A)"
    and unsub_law: "table s A \<Longrightarrow> i < 26 \<Longrightarrow>
      \<exists>s'. unsub (int i) x s = okR (if raw x \<in> raw ` set (A i) then 0 else -1, s') \<and>
        table s' (A(i := drop_first (\<lambda>y. raw y = raw x) (A i)))"
begin

lemma sub_then_unsub:
  assumes "table s A" and "i < 26" and "sub (int i) x s = okR (0, s1)"
  shows "\<exists>s2. unsub (int i) x s1 = okR (0, s2) \<and> table s2 A"
proof -
  have "table s1 (A(i := x # A i))" using sub_law [OF assms(1,2), of x] assms(3) by auto
  from unsub_law [OF this assms(2), of x] show ?thesis by simp
qed

lemma ops_keep_dup_free:
  "table s A \<Longrightarrow> dup_free A \<Longrightarrow> list_all (\<lambda>x. op_id x < 26) ops \<Longrightarrow>
     \<exists>s' A'. run_ops sub unsub ops s = okR s' \<and> table s' A' \<and> dup_free A'"
proof (induction ops arbitrary: s A)
  case (Cons x ops)
  have "\<exists>s1 A1. run_ops sub unsub (x # ops) s = run_ops sub unsub ops s1 \<and> table s1 A1 \<and> dup_free A1"
  proof (cases x)
    case (Sub i y)
    then have i: "i < 26" using Cons.prems(3) by simp
    obtain rc s1 where s1: "sub (int i) y s = okR (rc, s1)"
        "raw y \<notin> raw ` set (A i) \<and> table s1 (A(i := y # A i)) \<or> table s1 A"
      using sub_law [OF Cons.prems(1) i, of y] by blast
    then have "\<exists>A1. table s1 A1 \<and> dup_free A1"
      using Cons.prems(2) dup_free_add by blast
    with s1(1) Sub show ?thesis by auto
  next
    case (Unsub i y)
    then have i: "i < 26" using Cons.prems(3) by simp
    obtain rc s1 where "unsub (int i) y s = okR (rc, s1)"
        "table s1 (A(i := drop_first (\<lambda>z. raw z = raw y) (A i)))"
      using unsub_law [OF Cons.prems(1) i, of y] by blast
    with dup_free_del [OF Cons.prems(2)] Unsub show ?thesis by auto
  qed
  then obtain s1 A1 where s1: "run_ops sub unsub (x # ops) s = run_ops sub unsub ops s1"
      "table s1 A1" "dup_free A1" by blast
  from Cons.IH [OF s1(2,3)] Cons.prems(3) s1(1) show ?case by simp
qed auto

end

definition mq_table :: "'a mq_scheme \<Rightarrow> (nat \<Rightarrow> subscriber list) \<Rightarrow> bool" where
  "mq_table s A \<longleftrightarrow> (\<exists>H M. mq_rep s H M \<and> A = (\<lambda>i. vals (H i)))"

lemma mq_table_upd:
  "mq_rep s (H(i := xs)) M \<Longrightarrow> mq_table s ((\<lambda>i. vals (H i))(i := vals xs))"
  by (force simp: mq_table_def)

interpretation mq_subs: subscription_table mq_table Subscribe Unsubscribe
proof
  fix s :: "'a mq_scheme" and A i x
  assume "mq_table s A" and i: "i < (26::nat)"
  then obtain H M where r: "mq_rep s H M" "A = (\<lambda>i. vals (H i))" by (auto simp: mq_table_def)
  show "\<exists>rc s'. Subscribe (int i) x s = okR (rc, s') \<and>
      (rc = 0 \<and> raw x \<notin> raw ` set (A i) \<and> mq_table s' (A(i := x # A i)) \<or> rc = -1 \<and> mq_table s' A)"
  proof (cases "raw x \<in> raw ` set (vals (H i)) \<or> pool s = [] \<or> raw x = NULL")
    case True
    with Subscribe_present [OF r(1) i] \<open>mq_table s A\<close> show ?thesis by blast
  next
    case False
    then obtain p ps where "pool s = p # ps" by (cases "pool s") auto
    with Subscribe_fresh [OF r(1) i, of x p ps] False obtain s' where
      "Subscribe (int i) x s = okR (0, s')" "mq_rep s' (H(i := (p, x) # H i)) M" by blast
    with mq_table_upd False r(2) show ?thesis by fastforce
  qed
  from Unsubscribe_rep [OF r(1) i, of x] obtain s' where
    "Unsubscribe (int i) x s = okR (if raw x \<in> raw ` set (vals (H i)) then 0 else -1, s')"
    "mq_rep s' (H(i := drop_first (\<lambda>y. raw (snd y) = raw x) (H i))) M" by blast
  with mq_table_upd r(2) show "\<exists>s'. Unsubscribe (int i) x s =
      okR (if raw x \<in> raw ` set (A i) then 0 else -1, s') \<and>
      mq_table s' (A(i := drop_first (\<lambda>y. raw y = raw x) (A i)))"
    by (fastforce simp: drop_first_map [symmetric])
qed

section \<open>A small table\<close>

text \<open>
  A concrete state for evaluating the operations: two subscribers of message 3 and two
  waiting messages for it, the first with a context the queue owns.
\<close>

definition demo_mq :: "'a \<Rightarrow> 'a mq_scheme" where
  "demo_mq x = \<lparr>cells = [16 \<mapsto> CHandler (MHCLASS 512 32), 32 \<mapsto> CHandler (MHFUNCTION 100 0),
       48 \<mapsto> CMessage \<lparr>msgid = 3, msg_context = 64, CallerOwns = MQ_OWNER_MQ, pNextMsg = 80\<rparr>,
       64 \<mapsto> CBlock,
       80 \<mapsto> CMessage \<lparr>msgid = 3, msg_context = 0, CallerOwns = MQ_OWNER_CALLER, pNextMsg = 0\<rparr>],
     pool = [96, 112], sreg_i = True, QueueBlock = (replicate 26 NULL)[3 := 16],
     MsgQueueFirst = 48, MsgQueueLast = 80, \<dots> = x\<rparr>"

definition demo_subs :: "nat \<Rightarrow> (ptr \<times> subscriber) list" where
  "demo_subs = (\<lambda>_. [])(3 := [(16, Recv 512), (32, Fn 100)])"

definition demo_letters :: "(ptr \<times> letter) list" where
  "demo_letters = [(48, (3, 64, MQ_OWNER_MQ)), (80, (3, 0, MQ_OWNER_CALLER))]"

lemma demo_rep: "mq_rep (demo_mq x) demo_subs demo_letters"
proof -
  have "\<forall>i<26. lchain (hnode (cells (demo_mq x))) (QueueBlock (demo_mq x) ! i) (demo_subs i)"
    by (auto simp: demo_mq_def demo_subs_def nth_list_update)
  moreover have "length (QueueBlock (demo_mq x)) = 26" by (simp add: demo_mq_def)
  ultimately have "subs_rep (demo_mq x) demo_subs"
    by (auto simp: subs_rep_def demo_subs_def)
  moreover have "heap_wf (demo_mq x)" "queue_rep (demo_mq x) demo_letters"
    by (simp_all add: heap_wf_def queue_rep_def demo_mq_def demo_letters_def letter_of_def)
  ultimately show ?thesis by (simp add: mq_rep_def)
qed

lemma demo_table: "mq_table (demo_mq x) (\<lambda>i. vals (demo_subs i))"
  unfolding mq_table_def by (intro exI conjI) (rule demo_rep refl)+

lemma demo_dup_free: "dup_free (\<lambda>i. vals (demo_subs i))"
  by (simp add: dup_free_def demo_subs_def)

lemma demo_pool [simp]: "pool (demo_mq x) = [96, 112]"
  by (simp add: demo_mq_def)

section \<open>Properties of the subscription table\<close>

text \<open>
  Property C27. \<open>Subscribe\<close> on a well-formed queue, for every id of the table: the call
  returns; a subscriber that is not null and not in the list of that id yet is put at the
  front of the list (result 0), unless memory is exhausted; in every other case the result
  is -1 and the state is untouched. Everything that is not a subscription is kept.
\<close>

theorem Subscribe_spec:
  assumes "mq_rep s H M" and "i < 26"
  shows "\<exists>rc s'. Subscribe (int i) x s = okR (rc, s') \<and>
    (if raw x \<noteq> NULL \<and> raw x \<notin> raw ` set (vals (H i)) \<and> pool s \<noteq> []
     then rc = 0 \<and> mq_rep s' (H(i := (hd (pool s), x) # H i)) M \<and> keeps_others s s'
     else rc = -1 \<and> s' = s)"
proof (cases "raw x \<noteq> NULL \<and> raw x \<notin> raw ` set (vals (H i)) \<and> pool s \<noteq> []")
  case True
  then obtain p ps where "pool s = p # ps" by (cases "pool s") auto
  with Subscribe_fresh [OF assms, of x p ps] True show ?thesis by fastforce
next
  case False
  with Subscribe_present [OF assms, of x] show ?thesis by auto
qed

theorem Subscribe_spec_witness:
  "\<exists>s'. Subscribe 3 (Recv 700) (demo_mq ()) = okR (0, s') \<and>
     mq_rep s' (demo_subs(3 := (96, Recv 700) # demo_subs 3)) demo_letters \<and>
     Subscribe 3 (Fn 100) (demo_mq ()) = okR (-1, demo_mq ())"
  using Subscribe_spec [OF demo_rep [of "()"], of 3 "Recv 700"] Subscribe_spec [OF demo_rep [of "()"], of 3 "Fn 100"]
  by (auto simp: demo_subs_def)

text \<open>
  \<open>Unsubscribe\<close> on a well-formed queue: the call returns 0 exactly when a
  subscription with that pointer exists for the id, it then removes the first one from the
  list, and leaves every other list, the queue and all other objects as they are.
\<close>

lemma Unsubscribe_spec:
  assumes "mq_rep s H M" and "i < 26"
  shows "\<exists>s'. Unsubscribe (int i) x s = okR (if raw x \<in> raw ` set (vals (H i)) then 0 else -1, s') \<and>
    mq_rep s' (H(i := drop_first (\<lambda>y. raw (snd y) = raw x) (H i))) M \<and> keeps_others s s'"
  using Unsubscribe_rep [OF assms] .

lemma Unsubscribe_spec_witness:
  "\<exists>s'. Unsubscribe 3 (Fn 100) (demo_mq ()) = okR (0, s') \<and>
     mq_rep s' (demo_subs(3 := [(16, Recv 512)])) demo_letters"
  using Unsubscribe_spec [OF demo_rep [of "()"], of 3 "Fn 100"] by (auto simp: demo_subs_def)

text \<open>
  \<open>UnsubscribeAllIDs\<close> on a table without duplicates removes every
  subscription of the receiver, under all ids, and no other.
\<close>

lemma UnsubscribeAllIDs_spec:
  assumes "mq_rep s H M" and "dup_free (\<lambda>i. vals (H i))"
  shows "\<exists>s' H'. UnsubscribeAllIDs r s = okR s' \<and> mq_rep s' H' M \<and> keeps_others s s' \<and>
    list_all (\<lambda>i. H' i = filter (\<lambda>y. raw (snd y) \<noteq> r) (H i)) [0..<26]"
proof -
  have "drop_first (\<lambda>y. raw (snd y) = r) (H i) = filter (\<lambda>y. raw (snd y) \<noteq> r) (H i)" if "i < 26" for i
    using assms(2) that by (intro drop_first_once) (simp add: dup_free_def comp_def)
  then have "list_all (\<lambda>i. (if i < 26 then drop_first (\<lambda>y. raw (snd y) = r) (H i) else H i) =
      filter (\<lambda>y. raw (snd y) \<noteq> r) (H i)) [0..<26]"
    by (simp add: list_all_iff)
  with UnsubscribeAllIDs_rep [OF assms(1), of r] show ?thesis by blast
qed

lemma UnsubscribeAllIDs_spec_witness:
  "\<exists>s' H'. UnsubscribeAllIDs 512 (demo_mq ()) = okR s' \<and> mq_rep s' H' demo_letters \<and>
     H' 3 = [(32, Fn 100)]"
proof -
  obtain s' H' where "UnsubscribeAllIDs 512 (demo_mq ()) = okR s'" "mq_rep s' H' demo_letters"
      "list_all (\<lambda>i. H' i = filter (\<lambda>y. raw (snd y) \<noteq> 512) (demo_subs i)) [0..<26]"
    using UnsubscribeAllIDs_spec [OF demo_rep [of "()"] demo_dup_free, of 512] by blast
  moreover from this(3) have "H' 3 = [(32, Fn 100)]" by (simp add: list_all_iff demo_subs_def)
  ultimately show ?thesis by blast
qed

text \<open>
  A successful \<open>Subscribe\<close> is undone by \<open>Unsubscribe\<close>: the table is
  again what it was.
\<close>

lemma subscribe_unsubscribe:
  assumes "mq_table s A" and "i < 26" and "Subscribe (int i) x s = okR (0, s1)"
  shows "\<exists>s2. Unsubscribe (int i) x s1 = okR (0, s2) \<and> mq_table s2 A"
  using mq_subs.sub_then_unsub [OF assms] .

lemma subscribe_unsubscribe_witness:
  "\<exists>s1 s2. Subscribe 5 (Fn 900) (demo_mq ()) = okR (0, s1) \<and> Unsubscribe 5 (Fn 900) s1 = okR (0, s2) \<and>
     mq_table s2 (\<lambda>i. vals (demo_subs i))"
proof -
  obtain s1 where "Subscribe (int 5) (Fn 900) (demo_mq ()) = okR (0, s1)"
    using Subscribe_fresh [OF demo_rep [of "()"], of 5 "Fn 900" 96 "[112]"] by (auto simp: demo_subs_def)
  with subscribe_unsubscribe [OF demo_table [of "()"], of 5 "Fn 900" s1] show ?thesis by auto
qed

text \<open>
  Property C30. No sequence of subscriptions and unsubscriptions ever faults or puts the
  same pointer twice into the list of an id.
\<close>

theorem table_never_duplicates:
  assumes "mq_table s A" and "dup_free A" and "list_all (\<lambda>x. op_id x < 26) ops"
  shows "\<exists>s' A'. run_ops Subscribe Unsubscribe ops s = okR s' \<and> mq_table s' A' \<and> dup_free A'"
  using mq_subs.ops_keep_dup_free [OF assms] .

theorem table_never_duplicates_witness:
  "\<exists>s' A'. run_ops Subscribe Unsubscribe [Sub 3 (Fn 100), Sub 4 (Fn 100), Unsub 3 (Recv 512)] (demo_mq ()) =
     okR s' \<and> mq_table s' A' \<and> dup_free A'"
  using table_never_duplicates [OF demo_table [of "()"] demo_dup_free,
      of "[Sub 3 (Fn 100), Sub 4 (Fn 100), Unsub 3 (Recv 512)]"] by simp

text \<open>
  The table identifies subscribers by the bare pointer. A receiver object whose
  address equals the address of a function subscribed to the same id is refused, and
  unsubscribing that object removes the function.
\<close>

lemma function_object_clash:
  assumes "mq_rep s H M" and "i < 26" and "H i = (a, Fn p) # xs"
  shows "Subscribe (int i) (Recv p) s = okR (-1, s) \<and>
    (\<exists>s'. Unsubscribe (int i) (Recv p) s = okR (0, s') \<and> mq_rep s' (H(i := xs)) M)"
  using Subscribe_present [OF assms(1,2), of "Recv p"] Unsubscribe_rep [OF assms(1,2), of "Recv p"] assms(3)
  by auto

lemma function_object_clash_witness:
  "\<exists>s1 s2. Unsubscribe 3 (Recv 512) (demo_mq ()) = okR (0, s1) \<and> Subscribe 3 (Recv 100) s1 = okR (-1, s1) \<and>
     Unsubscribe 3 (Recv 100) s1 = okR (0, s2) \<and> mq_rep s2 (\<lambda>_. []) demo_letters"
proof -
  obtain s1 where s1: "Unsubscribe (int 3) (Recv 512) (demo_mq ()) = okR (0, s1)"
      "mq_rep s1 (demo_subs(3 := [(32, Fn 100)])) demo_letters"
    using Unsubscribe_rep [OF demo_rep [of "()"], of 3 "Recv 512"] by (auto simp: demo_subs_def)
  have "demo_subs(3 := []) = (\<lambda>_. [])" by (auto simp: demo_subs_def)
  with function_object_clash [OF s1(2), of 3 32 100 "[]"] s1(1) show ?thesis by auto
qed

text \<open>
  The guards of \<open>Subscribe\<close> and \<open>Unsubscribe\<close> test only the upper bound of
  the id: with a negative id both index the table outside its bounds.
\<close>

lemma negative_id_out_of_bounds:
  assumes "mid < 0" and "raw x \<noteq> NULL"
  shows "Subscribe mid x s = failR OutOfBounds \<and> Unsubscribe mid x s = failR OutOfBounds"
  using assms by (simp add: Subscribe_unfold Unsubscribe_unfold read_block_def)

lemma negative_id_out_of_bounds_witness:
  "Subscribe (-1) (Fn 100) (demo_mq ()) = failR OutOfBounds \<and>
   Unsubscribe (-1) (Fn 100) (demo_mq ()) = failR OutOfBounds"
  using negative_id_out_of_bounds [of "-1" "Fn 100" "demo_mq ()"] by simp

end
