(* ===== verification/Message_Delivery.thy ===== *)
theory Message_Delivery
  imports Message_Queue
begin

text \<open>
  Posting and delivery of messages: the heap-level \<open>Post\<close>, \<open>pop_message\<close> and
  \<open>MQ_Loop\<close> of \<open>Message_Queue\<close> against the abstract FIFO of letters and the
  abstract call of every subscriber.
\<close>

section \<open>Posting\<close>

definition after_post :: "MQCONTEXT \<Rightarrow> 'a mq_scheme \<Rightarrow> bool" where
  "after_post ic s = (ic \<noteq> MQ_CONTEXT_INTERRUPT \<or> sreg_i s)"

definition keeps_cells :: "ptr set \<Rightarrow> 'a mq_scheme \<Rightarrow> 'a mq_scheme \<Rightarrow> bool" where
  "keeps_cells A s s' \<longleftrightarrow> (\<forall>p c. cells s p = Some c \<and> p \<notin> A \<longrightarrow> cells s' p = Some c)"

lemma keeps_cellsD: "keeps_cells A s s' \<Longrightarrow> cells s p = Some c \<Longrightarrow> p \<notin> A \<Longrightarrow> cells s' p = Some c"
  by (simp add: keeps_cells_def)

lemma Post_rejected:
  assumes "\<not> (mid < 26 \<and> mid \<noteq> -1) \<or> pool s = []"
  shows "Post mid ctx ow ic s = okR (-1, s\<lparr>sreg_i := after_post ic s\<rparr>)"
  using assms by (auto simp: Post_def new_cell_def after_post_def kernel_defs)

text \<open>Linking a node at the end of a list.\<close>

lemma lchain_snoc_link:
  assumes "lseg node p (xs @ [(a, u)]) NULL" and "b \<notin> set (addrs (xs @ [(a, u)]))" and "b \<noteq> NULL"
    and "node' a = Some (u, b)" and "node' b = Some (v, NULL)"
    and "\<And>q. q \<noteq> a \<Longrightarrow> q \<noteq> b \<Longrightarrow> node' q = node q"
  shows "lchain node' p (xs @ [(a, u), (b, v)])"
proof -
  have d: "distinct (addrs (xs @ [(a, u)]))" using lchain_distinct [OF assms(1)] .
  have "lseg node p xs a" and "a \<noteq> NULL" using assms(1) by (auto simp: lseg_snoc)
  then have "lseg node' p xs a"
    using d assms(2,6) by (subst lseg_cong [where node = node]) (auto, metis fst_conv image_eqI)
  with assms \<open>a \<noteq> NULL\<close> show ?thesis by (auto simp: lseg_append)
qed

lemma Post_accepted:
  assumes rep: "mq_rep s H M" and mid: "mid < 26" "mid \<noteq> -1" and pool: "pool s = p # ps"
  shows "\<exists>s'. Post mid ctx ow ic s = okR (0, s') \<and> mq_rep s' H (M @ [(p, (mid, ctx, ow))]) \<and>
           sreg_i s' = after_post ic s \<and> mq.more s' = mq.more s \<and> pool s' = ps \<and>
           keeps_cells (set (addrs M)) s s'"
proof -
  have sub: "subs_rep s H" and wf: "heap_wf s" and q: "queue_rep s M"
    using rep by (auto simp: mq_rep_def)
  have p: "p \<noteq> NULL" "cells s p = None" using wf pool by (auto simp: heap_wf_def)
  have pM: "p \<notin> set (addrs M)" using queue_rep_node [OF q] p(2) by fastforce
  let ?new = "\<lparr>msgid = mid, msg_context = ctx, CallerOwns = ow, pNextMsg = NULL\<rparr>"
  show ?thesis
  proof (cases M rule: rev_exhaust)
    case Nil
    let ?s = "s\<lparr>cells := (cells s)(p \<mapsto> CMessage ?new), pool := ps, MsgQueueFirst := p,
      MsgQueueLast := p, sreg_i := after_post ic s\<rparr>"
    have "Post mid ctx ow ic s = okR (0, ?s)"
      using Nil q mid pool p by (auto simp: Post_def new_cell_def queue_rep_def after_post_def kernel_defs)
    moreover have "subs_rep ?s H"
      by (rule subs_rep_frame [OF sub]) (use p in auto)
    moreover have "heap_wf ?s" using wf pool by (auto simp: heap_wf_def list_all_iff)
    moreover have "queue_rep ?s (M @ [(p, (mid, ctx, ow))])"
      using Nil p by (simp add: queue_rep_def letter_of_def)
    ultimately show ?thesis using p by (auto simp: mq_rep_def keeps_cells_def)
  next
    case (snoc M' x)
    obtain a u where x: "x = (a, u)" by (cases x)
    have ch: "lchain (mnode (cells s)) (MsgQueueFirst s) (M' @ [(a, u)])"
      using q snoc x by (simp add: queue_rep_def)
    then obtain m where m: "cells s a = Some (CMessage m)" "u = letter_of m" and a: "a \<noteq> NULL"
      by (auto simp: lseg_snoc dest!: mcell_SomeD)
    have first: "MsgQueueFirst s \<noteq> NULL" and lst: "MsgQueueLast s = a" and ap: "a \<noteq> p"
      using q snoc x ch m p by (auto simp: queue_rep_def)
    let ?s = "s\<lparr>cells := (cells s)(p \<mapsto> CMessage ?new, a \<mapsto> CMessage (m\<lparr>pNextMsg := p\<rparr>)),
      pool := ps, MsgQueueLast := p, sreg_i := after_post ic s\<rparr>"
    have "Post mid ctx ow ic s = okR (0, ?s)"
      using mid pool p first lst m ap
      by (auto simp: Post_def new_cell_def get_message_def put_cell_def after_post_def kernel_defs)
    moreover have "subs_rep ?s H"
      by (rule subs_rep_frame [OF sub]) (use p m in auto)
    moreover have "heap_wf ?s" using wf pool m by (auto simp: heap_wf_def list_all_iff)
    moreover have "lchain (mnode (cells ?s)) (MsgQueueFirst s) (M' @ [(a, u), (p, (mid, ctx, ow))])"
      by (rule lchain_snoc_link [OF ch]) (use pM snoc x p m ap in \<open>auto simp: letter_of_def\<close>)
    then have "queue_rep ?s (M @ [(p, (mid, ctx, ow))])"
      using snoc x by (simp add: queue_rep_def)
    ultimately show ?thesis using p m snoc x by (auto simp: mq_rep_def keeps_cells_def)
  qed
qed

section \<open>Taking a message off the queue\<close>

lemma pop_message_empty:
  "queue_rep s [] \<Longrightarrow> pop_message s = okR (NULL, s\<lparr>sreg_i := True\<rparr>)"
  by (simp add: pop_message_def queue_rep_def kernel_defs)

lemma pop_message_rep:
  assumes rep: "mq_rep s H ((p, l) # M)"
  shows "\<exists>s' m. pop_message s = okR (p, s') \<and> mq_rep s' H M \<and> p \<noteq> NULL \<and>
           cells s' p = Some (CMessage m) \<and> letter_of m = l \<and> p \<notin> set (addrs M) \<and>
           cells s' = cells s \<and> pool s' = pool s \<and> sreg_i s' \<and> mq.more s' = mq.more s \<and>
           QueueBlock s' = QueueBlock s"
proof -
  have ch: "lchain (mnode (cells s)) (MsgQueueFirst s) ((p, l) # M)"
    and lst: "MsgQueueLast s = fst (last ((p, l) # M))"
    using rep by (auto simp: mq_rep_def queue_rep_def)
  then obtain m where m: "cells s p = Some (CMessage m)" "letter_of m = l" "p \<noteq> NULL"
      "MsgQueueFirst s = p" "lchain (mnode (cells s)) (pNextMsg m) M"
    by (auto split: option.splits dest!: mcell_SomeD)
  let ?s = "s\<lparr>MsgQueueFirst := pNextMsg m,
    MsgQueueLast := (if pNextMsg m = NULL then NULL else MsgQueueLast s), sreg_i := True\<rparr>"
  have nxt: "pNextMsg m = NULL \<longleftrightarrow> M = []" using m(5) by (cases M) auto
  have "pop_message s = okR (p, ?s)"
    using m by (auto simp: pop_message_def get_message_def kernel_defs)
  moreover have "mq_rep ?s H M"
    using rep m(5) lst nxt by (auto simp: mq_rep_def heap_wf_def subs_rep_def queue_rep_def)
  moreover have "p \<notin> set (addrs M)" using lchain_distinct [OF ch] by simp
  ultimately show ?thesis using m by auto
qed

section \<open>Invariant of the queue\<close>

text \<open>
  Beyond the shape of the lists: every waiting letter has an id of the table, and every
  context the queue owns is an allocated block that no other letter owns. \<open>F\<close> are the
  letters in flight: taken off the queue, their contexts not yet released.
\<close>

definition valid_letter :: "letter \<Rightarrow> bool" where
  "valid_letter l \<longleftrightarrow> 0 \<le> fst l \<and> fst l < 26"

fun owned_ctx :: "letter \<Rightarrow> ptr list" where
  "owned_ctx (mid, ctx, ow) = (if ow \<noteq> MQ_OWNER_CALLER \<and> ctx \<noteq> NULL then [ctx] else [])"

abbreviation owned :: "letter list \<Rightarrow> ptr list" where "owned ls \<equiv> concat (map owned_ctx ls)"

definition mq_inv ::
  "'a mq_scheme \<Rightarrow> (nat \<Rightarrow> (ptr \<times> subscriber) list) \<Rightarrow> letter list \<Rightarrow> (ptr \<times> letter) list \<Rightarrow> bool" where
  "mq_inv s H F M \<longleftrightarrow> mq_rep s H M \<and> list_all valid_letter (F @ vals M) \<and>
     distinct (owned (F @ vals M)) \<and> list_all (\<lambda>c. cells s c = Some CBlock) (owned (F @ vals M))"

lemma mq_inv_rep: "mq_inv s H F M \<Longrightarrow> mq_rep s H M"
  by (simp add: mq_inv_def)

lemma mq_inv_drop: "mq_inv s H (l # F) M \<Longrightarrow> mq_inv s H F M"
  by (auto simp: mq_inv_def)

lemma mq_inv_chain:
  "mq_inv s H F M \<Longrightarrow> i < 26 \<Longrightarrow> lchain (hnode (cells s)) (QueueBlock s ! i) (H i)"
  by (auto simp: mq_inv_def mq_rep_def intro: subs_rep_chain)

lemma mq_inv_owned: "mq_inv s H F M \<Longrightarrow> c \<in> set (owned (F @ vals M)) \<Longrightarrow> cells s c = Some CBlock"
  by (auto simp: mq_inv_def list_all_iff)

lemma mq_inv_waiting: "mq_inv s H F M \<Longrightarrow> a \<in> set (addrs M) \<Longrightarrow> \<exists>m. cells s a = Some (CMessage m)"
  using queue_rep_node [of s M a] by (simp add: mq_inv_def mq_rep_def)

lemma mq_inv_pop:
  assumes "mq_inv s H F ((p, l) # M)"
  shows "\<exists>s' m. pop_message s = okR (p, s') \<and> mq_inv s' H (l # F) M \<and> p \<noteq> NULL \<and>
           cells s' p = Some (CMessage m) \<and> letter_of m = l \<and> p \<notin> set (addrs M) \<and>
           cells s' = cells s \<and> pool s' = pool s \<and> sreg_i s' \<and> mq.more s' = mq.more s"
  using pop_message_rep [OF mq_inv_rep [OF assms]] assms by (fastforce simp: mq_inv_def)

text \<open>Deleting an object the queue does not use.\<close>

lemma mq_inv_delete:
  assumes inv: "mq_inv s H F M" and p: "cells s p = Some c" "hcell (Some c) = None"
    and out: "p \<notin> set (addrs M)" "p \<notin> set (owned (F @ vals M))"
  shows "\<exists>s'. delete_cell p s = okR s' \<and> mq_inv s' H F M \<and> cells s' = (cells s)(p := None) \<and>
           pool s' = p # pool s \<and> sreg_i s' = sreg_i s \<and> mq.more s' = mq.more s"
proof -
  let ?s = "s\<lparr>cells := (cells s)(p := None), pool := p # pool s\<rparr>"
  have rep: "heap_wf s" "subs_rep s H" "queue_rep s M"
    using inv by (auto simp: mq_inv_def mq_rep_def)
  have "subs_rep ?s H" by (rule subs_rep_frame [OF rep(2)]) (use p in auto)
  moreover have "queue_rep ?s M" by (rule queue_rep_frame [OF rep(3)]) (use out in auto)
  moreover have "heap_wf ?s" using rep(1) p by (auto simp: heap_wf_def list_all_iff)
  ultimately have "mq_inv ?s H F M"
    using inv out(2) by (auto simp: mq_inv_def mq_rep_def list_all_iff)
  with p show ?thesis by (auto simp: delete_cell_def)
qed

section \<open>Well-behaved handlers\<close>

text \<open>
  What the dispatcher needs of the application's handlers: they return, they keep the
  invariant and the subscriptions, they may post (\<open>N\<close> is appended), and they leave every
  object alone that is neither waiting in the queue nor free.
\<close>

definition quiet :: "'a mq_scheme \<Rightarrow> 'a mq_scheme \<Rightarrow> bool" where
  "quiet s s' \<longleftrightarrow> (\<forall>H F M. mq_inv s H F M \<longrightarrow>
     (\<exists>N. mq_inv s' H F (M @ N) \<and> set (addrs N) \<inter> dom (cells s) = {} \<and>
          keeps_cells (set (addrs M)) s s'))"

fun call_sub :: "'s fn_bodies \<Rightarrow> 's recv_bodies \<Rightarrow> subscriber \<Rightarrow> int \<Rightarrow> ptr \<Rightarrow> 's \<Rightarrow> 's res" where
  "call_sub fb rb (Fn f) mid ctx s = fb f ctx s"
| "call_sub fb rb (Recv r) mid ctx s = rb r mid ctx s"

definition well_behaved ::
  "('a mq_scheme) fn_bodies \<Rightarrow> ('a mq_scheme) recv_bodies \<Rightarrow> bool" where
  "well_behaved fb rb \<longleftrightarrow> (\<forall>x mid ctx s. (\<exists>H F M. mq_inv s H F M) \<longrightarrow>
     (\<exists>s'. call_sub fb rb x mid ctx s = okR s' \<and> quiet s s'))"

text \<open>The specification of a delivery: every subscriber is called, in the order of the list.\<close>

fun call_all :: "'s fn_bodies \<Rightarrow> 's recv_bodies \<Rightarrow> subscriber list \<Rightarrow> int \<Rightarrow> ptr \<Rightarrow> 's \<Rightarrow> 's res" where
  "call_all fb rb [] mid ctx s = okR s"
| "call_all fb rb (x # xs) mid ctx s =
     bindR (call_sub fb rb x mid ctx s) (call_all fb rb xs mid ctx)"

lemma Call_eq: "Call fb rb h mid ctx s = call_sub fb rb (subscriber_of h) mid ctx s"
  by (cases h) auto

lemma keeps_cells_trans:
  assumes "keeps_cells A s t" and "keeps_cells (A \<union> set (addrs N)) t u"
    and "set (addrs N) \<inter> dom (cells s) = {}"
  shows "keeps_cells A s u"
  using assms unfolding keeps_cells_def by (metis IntI Un_iff domI empty_iff)

lemma quietE:
  assumes "quiet s s'" and "mq_inv s H F M"
  obtains N where "mq_inv s' H F (M @ N)" "set (addrs N) \<inter> dom (cells s) = {}"
    "keeps_cells (set (addrs M)) s s'"
  using assms unfolding quiet_def by blast

lemma dom_grows:
  assumes "keeps_cells (set (addrs M)) s s'" and "mq_inv s' H F (M @ N)"
  shows "dom (cells s) \<subseteq> dom (cells s')"
proof
  fix a assume "a \<in> dom (cells s)"
  then show "a \<in> dom (cells s')"
    using keeps_cellsD [OF assms(1)] mq_inv_waiting [OF assms(2), of a]
    by (cases "a \<in> set (addrs M)") auto
qed

lemma quiet_refl [simp]: "quiet s s"
  by (auto simp: quiet_def keeps_cells_def intro!: exI [of _ "[]"])

lemma dispatch_step:
  assumes "cells s p = Some (CHandler h)" "p \<noteq> NULL" "cells s msg = Some (CMessage m)"
    and "call_sub fb rb (subscriber_of h) (msgid m) (msg_context m) s = okR s1"
    and "cells s1 p = Some (CHandler h1)"
  shows "dispatch fb rb msg p s = dispatch fb rb msg (pNextHandler h1) s1"
  using assms by (subst dispatch.simps) (simp add: get_handler_def get_message_def Call_eq)

lemma dispatch_calls_all:
  assumes i: "i < 26" and wb: "well_behaved fb rb"
    and "H i = pre @ xs" and "mq_inv s H F M" and "p = (case xs of [] \<Rightarrow> NULL | x # _ \<Rightarrow> fst x)"
    and "cells s msg = Some (CMessage m)" and "msg \<notin> set (addrs M)"
  shows "\<exists>s' N. dispatch fb rb msg p s = okR s' \<and>
           call_all fb rb (vals xs) (msgid m) (msg_context m) s = okR s' \<and>
           mq_inv s' H F (M @ N) \<and> set (addrs N) \<inter> dom (cells s) = {} \<and>
           keeps_cells (set (addrs M)) s s'"
  using assms(3-7)
proof (induction xs arbitrary: pre s M p)
  case Nil
  then show ?case
    by (auto simp: dispatch.simps keeps_cells_def intro!: exI [of _ "[]"])
next
  case (Cons x xs)
  have ch: "lchain (hnode (cells s)) (QueueBlock s ! i) (pre @ x # xs)"
    using mq_inv_chain [OF Cons.prems(2) i] Cons.prems(1) by simp
  then obtain h where h: "cells s p = Some (CHandler h)" "snd x = subscriber_of h" "p \<noteq> NULL"
    using Cons.prems(3) by (auto simp: lseg_append split: option.splits dest!: hcell_SomeD)
  obtain s1 where s1: "call_sub fb rb (snd x) (msgid m) (msg_context m) s = okR s1" "quiet s s1"
    using wb Cons.prems(2) unfolding well_behaved_def by blast
  obtain N where N: "mq_inv s1 H F (M @ N)" "set (addrs N) \<inter> dom (cells s) = {}"
      "keeps_cells (set (addrs M)) s s1"
    using quietE [OF s1(2) Cons.prems(2)] .
  have "lchain (hnode (cells s1)) (QueueBlock s1 ! i) (pre @ x # xs)"
    using mq_inv_chain [OF N(1) i] Cons.prems(1) by simp
  then obtain h1 where h1: "cells s1 p = Some (CHandler h1)"
      "lchain (hnode (cells s1)) (pNextHandler h1) xs"
    using Cons.prems(3) by (auto simp: lseg_append split: option.splits dest!: hcell_SomeD)
  have nxt: "pNextHandler h1 = (case xs of [] \<Rightarrow> NULL | y # _ \<Rightarrow> fst y)"
    using h1(2) by (cases xs) auto
  have msg: "cells s1 msg = Some (CMessage m)" "msg \<notin> set (addrs (M @ N))"
    using keeps_cellsD [OF N(3) Cons.prems(4,5)] N(2) Cons.prems(4,5) by auto
  have *: "dispatch fb rb msg p s = dispatch fb rb msg (pNextHandler h1) s1"
    using dispatch_step [OF h(1,3) Cons.prems(4) _ h1(1)] s1(1) h(2) by simp
  obtain s' N' where N': "dispatch fb rb msg (pNextHandler h1) s1 = okR s'"
      "call_all fb rb (vals xs) (msgid m) (msg_context m) s1 = okR s'"
      "mq_inv s' H F ((M @ N) @ N')" "set (addrs N') \<inter> dom (cells s1) = {}"
      "keeps_cells (set (addrs (M @ N))) s1 s'"
    using Cons.IH [of "pre @ [x]" s1 "M @ N" "pNextHandler h1"] Cons.prems(1) N(1) nxt msg by auto
  have "set (addrs (N @ N')) \<inter> dom (cells s) = {}"
    using N(2) N'(4) dom_grows [OF N(3,1)] unfolding map_append set_append by blast
  moreover have "keeps_cells (set (addrs M)) s s'"
    using keeps_cells_trans [OF N(3) _ N(2)] N'(5) by simp
  moreover have "dispatch fb rb msg p s = okR s'" "mq_inv s' H F (M @ N @ N')"
      "call_all fb rb (vals (x # xs)) (msgid m) (msg_context m) s = okR s'"
    using * s1(1) N' by simp_all
  ultimately show ?case by blast
qed

section \<open>One turn of the loop\<close>

lemma free_message_inv:
  assumes inv: "mq_inv s H (l # F) M" and msg: "cells s msg = Some (CMessage m)" "letter_of m = l"
    "msg \<notin> set (addrs M)"
  shows "\<exists>s'. free_message msg s = okR s' \<and> mq_inv s' H F M \<and> sreg_i s' = sreg_i s \<and>
           mq.more s' = mq.more s \<and>
           cells s' = (\<lambda>p. if p = msg \<or> p \<in> set (owned_ctx l) then None else cells s p) \<and>
           length (pool s') = length (pool s) + Suc (length (owned_ctx l))"
proof -
  obtain mid ctx ow where l: "l = (mid, ctx, ow)" "msgid m = mid" "msg_context m = ctx" "CallerOwns m = ow"
    using msg(2) by (cases l) (auto simp: letter_of_def)
  have inv': "mq_inv s H F M" using mq_inv_drop [OF inv] .
  have own: "set (owned_ctx l) \<inter> set (owned (F @ vals M)) = {}"
    using inv by (auto simp: mq_inv_def)
  have msg_own: "msg \<notin> set (owned (l # F @ vals M))"
    using mq_inv_owned [OF inv, of msg] msg(1) by auto
  have "\<exists>s1. (if ow \<noteq> MQ_OWNER_CALLER \<and> ctx \<noteq> NULL then delete_cell ctx s else okR s) = okR s1 \<and>
      mq_inv s1 H F M \<and> cells s1 = (\<lambda>p. if p \<in> set (owned_ctx l) then None else cells s p) \<and>
      sreg_i s1 = sreg_i s \<and> mq.more s1 = mq.more s \<and> length (pool s1) = length (pool s) + length (owned_ctx l)"
  proof (cases "ow \<noteq> MQ_OWNER_CALLER \<and> ctx \<noteq> NULL")
    case True
    then have c: "cells s ctx = Some CBlock" "owned_ctx l = [ctx]"
      using mq_inv_owned [OF inv, of ctx] l by auto
    then have "ctx \<notin> set (addrs M)" using mq_inv_waiting [OF inv', of ctx] by auto
    with mq_inv_delete [OF inv' c(1)] own c(2) True show ?thesis by fastforce
  next
    case False
    then show ?thesis using inv' l by auto
  qed
  then obtain s1 where s1: "(if ow \<noteq> MQ_OWNER_CALLER \<and> ctx \<noteq> NULL then delete_cell ctx s else okR s) = okR s1"
      "mq_inv s1 H F M" "cells s1 = (\<lambda>p. if p \<in> set (owned_ctx l) then None else cells s p)"
      "sreg_i s1 = sreg_i s" "mq.more s1 = mq.more s" "length (pool s1) = length (pool s) + length (owned_ctx l)"
    by blast
  have c1: "cells s1 msg = Some (CMessage m)" using s1(3) msg(1) msg_own by simp
  obtain s2 where s2: "delete_cell msg s1 = okR s2" "mq_inv s2 H F M" "cells s2 = (cells s1)(msg := None)"
      "sreg_i s2 = sreg_i s1" "mq.more s2 = mq.more s1" "pool s2 = msg # pool s1"
    using mq_inv_delete [OF s1(2) c1] msg(3) msg_own by auto
  have "free_message msg s = bindR
      (if ow \<noteq> MQ_OWNER_CALLER \<and> ctx \<noteq> NULL then delete_cell ctx s else okR s) (delete_cell msg)"
    using msg(1) l by (simp add: free_message_def get_message_def)
  then have "free_message msg s = okR s2" unfolding s1(1) using s2(1) by simp
  with s2 s1 show ?thesis by auto
qed

text \<open>
  A turn with a waiting letter takes the oldest letter, calls every subscriber of its id
  and releases it.
\<close>

lemma Loop_body_delivers:
  assumes inv: "mq_inv s H F ((p, l) # M)" and wb: "well_behaved fb rb"
  shows "\<exists>s1 s2 s' N. pop_message s = okR (p, s1) \<and> mq.more s1 = mq.more s \<and>
           call_all fb rb (vals (H (nat (fst l)))) (fst l) (fst (snd l)) s1 = okR s2 \<and>
           Loop_body fb rb s = okR s' \<and> mq.more s' = mq.more s2 \<and> mq_inv s' H F (M @ N) \<and>
           mq_inv s1 H (l # F) M \<and> cells s1 = cells s \<and> mq_inv s2 H (l # F) (M @ N) \<and>
           (\<exists>m. cells s2 p = Some (CMessage m)) \<and>
           cells s' = (\<lambda>q. if q = p \<or> q \<in> set (owned_ctx l) then None else cells s2 q)"
proof -
  obtain s1 m where s1: "pop_message s = okR (p, s1)" "mq_inv s1 H (l # F) M" "p \<noteq> NULL"
      "cells s1 p = Some (CMessage m)" "letter_of m = l" "p \<notin> set (addrs M)" "mq.more s1 = mq.more s"
      "cells s1 = cells s"
    using mq_inv_pop [OF inv] by blast
  have v: "0 \<le> fst l" "fst l < 26" using inv by (auto simp: mq_inv_def valid_letter_def)
  have l: "msgid m = fst l" "msg_context m = fst (snd l)" using s1(5) by (auto simp: letter_of_def)
  let ?i = "nat (fst l)"
  have i: "?i < 26" using v by simp
  have "QueueBlock s1 ! ?i = (case H ?i of [] \<Rightarrow> NULL | x # _ \<Rightarrow> fst x)"
    using mq_inv_chain [OF s1(2) i] by (cases "H ?i") auto
  from dispatch_calls_all [OF i wb _ s1(2) this s1(4,6), of "[]"]
  obtain s2 N where s2: "dispatch fb rb p (QueueBlock s1 ! ?i) s1 = okR s2"
      "call_all fb rb (vals (H ?i)) (fst l) (fst (snd l)) s1 = okR s2"
      "mq_inv s2 H (l # F) (M @ N)" "set (addrs N) \<inter> dom (cells s1) = {}"
      "keeps_cells (set (addrs M)) s1 s2"
    unfolding l by auto
  have p: "cells s2 p = Some (CMessage m)" "p \<notin> set (addrs (M @ N))"
    using keeps_cellsD [OF s2(5) s1(4,6)] s2(4) s1(4,6) by auto
  obtain s' where s': "free_message p s2 = okR s'" "mq_inv s' H F (M @ N)" "mq.more s' = mq.more s2"
      "cells s' = (\<lambda>q. if q = p \<or> q \<in> set (owned_ctx l) then None else cells s2 q)"
    using free_message_inv [OF s2(3) p(1) s1(5) p(2)] by blast
  have "Loop_body fb rb s = okR s'"
    using s1 v l s2(1) s'(1) by (simp add: Loop_body_def get_message_def read_block_def)
  with s1(1,2,7,8) s2(2,3) s'(2,3,4) p(1) show ?thesis by blast
qed

lemma Loop_body_idle:
  assumes "mq_inv s H F []"
  shows "Loop_body fb rb s = okR (s\<lparr>sreg_i := True\<rparr>)" and "mq_inv (s\<lparr>sreg_i := True\<rparr>) H F []"
  using assms pop_message_empty [of s]
  by (auto simp: Loop_body_def mq_inv_def mq_rep_def heap_wf_def subs_rep_def queue_rep_def)

section \<open>The loop\<close>

lemma MQ_Loop_0: "MQ_Loop fb rb 0 s = okR s"
  by (simp add: MQ_Loop.simps)

lemma MQ_Loop_Suc: "MQ_Loop fb rb (int (Suc n)) s = bindR (Loop_body fb rb s) (MQ_Loop fb rb (int n))"
  by (subst MQ_Loop.simps) simp

lemma MQ_Loop_inv:
  assumes "mq_inv s H F M" and "well_behaved fb rb"
  shows "\<exists>s' M'. MQ_Loop fb rb (int n) s = okR s' \<and> mq_inv s' H F M' \<and>
           (n \<le> length M \<longrightarrow> (\<exists>N. M' = drop n M @ N))"
  using assms(1)
proof (induction n arbitrary: s M)
  case 0
  then show ?case by (auto simp: MQ_Loop_0)
next
  case (Suc n)
  show ?case
  proof (cases M)
    case Nil
    then have idle: "Loop_body fb rb s = okR (s\<lparr>sreg_i := True\<rparr>)" "mq_inv (s\<lparr>sreg_i := True\<rparr>) H F []"
      using Loop_body_idle Suc.prems by blast+
    from Suc.IH [OF idle(2)] Nil show ?thesis
      unfolding MQ_Loop_Suc idle(1) bindR_simps by auto
  next
    case (Cons x M1)
    obtain p l where x: "x = (p, l)" by (cases x)
    obtain s1 N where s1: "Loop_body fb rb s = okR s1" "mq_inv s1 H F (M1 @ N)"
      using Loop_body_delivers [OF _ assms(2), of s H F p l M1] Suc.prems Cons x by blast
    obtain s2 M2 where s2: "MQ_Loop fb rb (int n) s1 = okR s2" "mq_inv s2 H F M2"
        "n \<le> length (M1 @ N) \<longrightarrow> (\<exists>N'. M2 = drop n (M1 @ N) @ N')"
      using Suc.IH [OF s1(2)] by blast
    have "\<exists>N'. M2 = drop (Suc n) M @ N'" if "Suc n \<le> length M"
      using that s2(3) Cons by auto
    moreover have "MQ_Loop fb rb (int (Suc n)) s = okR s2"
      using s1(1) s2(1) by (simp only: MQ_Loop_Suc bindR_simps)
    ultimately show ?thesis using s2(2) by blast
  qed
qed

text \<open>
  Handlers that record their calls, to observe who is called and when: \<open>lg\<close> reads the
  record in the part of the state that the kernel does not touch.
\<close>

datatype delivery = CalledFn ptr ptr | CalledRecv ptr int ptr

fun delivery_of :: "int \<Rightarrow> ptr \<Rightarrow> subscriber \<Rightarrow> delivery" where
  "delivery_of mid ctx (Fn f) = CalledFn f ctx"
| "delivery_of mid ctx (Recv r) = CalledRecv r mid ctx"

definition recording :: "('a mq_scheme \<Rightarrow> delivery list) \<Rightarrow>
    ('a mq_scheme) fn_bodies \<Rightarrow> ('a mq_scheme) recv_bodies \<Rightarrow> bool" where
  "recording lg fb rb \<longleftrightarrow> (\<forall>s s'. mq.more s = mq.more s' \<longrightarrow> lg s = lg s') \<and>
     (\<forall>x mid ctx s s'. call_sub fb rb x mid ctx s = okR s' \<longrightarrow> lg s' = lg s @ [delivery_of mid ctx x])"

definition deliveries :: "(nat \<Rightarrow> subscriber list) \<Rightarrow> letter \<Rightarrow> delivery list" where
  "deliveries A l = map (delivery_of (fst l) (fst (snd l))) (A (nat (fst l)))"

lemma call_all_records:
  assumes "recording lg fb rb"
  shows "call_all fb rb xs mid ctx s = okR s' \<Longrightarrow>
     lg s' = lg s @ map (delivery_of mid ctx) xs"
proof (induction xs arbitrary: s)
  case (Cons x xs)
  then obtain s1 where s1: "call_sub fb rb x mid ctx s = okR s1" "call_all fb rb xs mid ctx s1 = okR s'"
    by (auto simp: bindR_ok_iff)
  have "lg s1 = lg s @ [delivery_of mid ctx x]" using assms s1(1) unfolding recording_def by blast
  with Cons.IH [OF s1(2)] show ?case by simp
qed simp

lemma MQ_Loop_records:
  assumes "mq_inv s H F M" and "well_behaved fb rb" and "recording lg fb rb" and "n \<le> length M"
  shows "\<exists>s' N. MQ_Loop fb rb (int n) s = okR s' \<and> mq_inv s' H F (drop n M @ N) \<and>
           lg s' = lg s @ concat (map (deliveries (\<lambda>i. vals (H i))) (take n (vals M)))"
  using assms(1,4)
proof (induction n arbitrary: s M)
  case 0
  then show ?case by (auto simp: MQ_Loop_0 intro: exI [of _ "[]"])
next
  case (Suc n)
  then obtain p l M1 where M: "M = (p, l) # M1" by (cases M) auto
  obtain s1 s2 s3 N where s: "mq.more s1 = mq.more s"
      "call_all fb rb (vals (H (nat (fst l)))) (fst l) (fst (snd l)) s1 = okR s2"
      "Loop_body fb rb s = okR s3" "mq.more s3 = mq.more s2" "mq_inv s3 H F (M1 @ N)"
    using Loop_body_delivers [OF _ assms(2)] Suc.prems(1) M by blast
  have "lg s1 = lg s" "lg s3 = lg s2" using assms(3) s(1,4) unfolding recording_def by blast+
  then have m: "lg s3 = lg s @ deliveries (\<lambda>i. vals (H i)) l"
    using call_all_records [OF assms(3) s(2)] by (simp add: deliveries_def)
  obtain s' N' where s': "MQ_Loop fb rb (int n) s3 = okR s'" "mq_inv s' H F (drop n (M1 @ N) @ N')"
      "lg s' = lg s3 @ concat (map (deliveries (\<lambda>i. vals (H i))) (take n (vals (M1 @ N))))"
    using Suc.IH [OF s(5)] Suc.prems(2) M by auto
  have "MQ_Loop fb rb (int (Suc n)) s = okR s'"
    using s(3) s'(1) by (simp only: MQ_Loop_Suc bindR_simps)
  moreover have "mq_inv s' H F (drop (Suc n) M @ drop (n - length M1) N @ N')"
    using s'(2) M by simp
  moreover have "lg s' = lg s @
      concat (map (deliveries (\<lambda>i. vals (H i))) (take (Suc n) (vals M)))"
    using s'(3) m M Suc.prems(2) by simp
  ultimately show ?case by blast
qed

section \<open>Handlers that post\<close>

lemma mq_inv_sreg [simp]: "mq_inv (s\<lparr>sreg_i := b\<rparr>) H F M = mq_inv s H F M"
  by (simp add: mq_inv_def mq_rep_def heap_wf_def subs_rep_def queue_rep_def)

lemma mq_inv_more [simp]: "mq_inv (mq.more_update f s) H F M = mq_inv s H F M"
  by (simp add: mq_inv_def mq_rep_def heap_wf_def subs_rep_def queue_rep_def)

lemma mq_inv_post:
  assumes inv: "mq_inv s H F M" and mid: "0 \<le> mid" "mid < 26"
    and own: "set (owned_ctx (mid, ctx, ow)) \<inter> set (owned (F @ vals M)) = {}"
      "\<forall>c \<in> set (owned_ctx (mid, ctx, ow)). cells s c = Some CBlock"
  shows "\<exists>rc s' N. Post mid ctx ow ic s = okR (rc, s') \<and> mq_inv s' H F (M @ N) \<and>
           set (addrs N) \<inter> dom (cells s) = {} \<and> keeps_cells (set (addrs M)) s s' \<and>
           sreg_i s' = after_post ic s \<and> mq.more s' = mq.more s \<and>
           (if pool s = [] then rc = -1 \<and> N = [] else rc = 0 \<and> vals N = [(mid, ctx, ow)]) \<and>
           length (pool s') = length (pool s) - 1"
proof (cases "pool s")
  case Nil
  with Post_rejected [of mid s ctx ow ic] inv show ?thesis
    by (auto simp: keeps_cells_def intro!: exI [of _ "[]"])
next
  case (Cons p ps)
  from Post_accepted [OF mq_inv_rep [OF inv] mid(2) _ Cons] mid(1)
  obtain s' where s': "Post mid ctx ow ic s = okR (0, s')"
      "mq_rep s' H (M @ [(p, (mid, ctx, ow))])" "sreg_i s' = after_post ic s"
      "mq.more s' = mq.more s" "keeps_cells (set (addrs M)) s s'" "pool s' = ps"
    by force
  have p: "cells s p = None" using inv Cons by (auto simp: mq_inv_def mq_rep_def heap_wf_def)
  have "cells s' c = Some CBlock" if "c \<in> set (owned (F @ vals M))" for c
    using keeps_cellsD [OF s'(5) mq_inv_owned [OF inv that]] mq_inv_waiting [OF inv, of c]
      mq_inv_owned [OF inv that] by fastforce
  moreover have "cells s' c = Some CBlock" if "c \<in> set (owned_ctx (mid, ctx, ow))" for c
    using keeps_cellsD [OF s'(5)] own(2) that mq_inv_waiting [OF inv, of c] by fastforce
  ultimately have "mq_inv s' H F (M @ [(p, (mid, ctx, ow))])"
    using inv s'(2) mid own by (auto simp: mq_inv_def list_all_iff valid_letter_def)
  with s' p Cons show ?thesis by (fastforce intro!: exI [of _ "[(p, (mid, ctx, ow))]"])
qed

text \<open>Changing the subscriptions.\<close>

lemma mq_inv_subs:
  assumes "mq_inv s H F M" and "mq_rep s' H' M" and "keeps_others s s'"
  shows "mq_inv s' H' F M"
  using assms unfolding mq_inv_def keeps_others_def by (auto simp: list_all_iff)

text \<open>Allocating an object the queue does not use.\<close>

lemma mq_inv_alloc:
  assumes inv: "mq_inv s H F M" and pool: "pool s = p # ps"
  shows "mq_inv (s\<lparr>cells := (cells s)(p \<mapsto> c), pool := ps\<rparr>) H F M"
proof -
  let ?s = "s\<lparr>cells := (cells s)(p \<mapsto> c), pool := ps\<rparr>"
  have r: "heap_wf s" "subs_rep s H" "queue_rep s M" using inv by (auto simp: mq_inv_def mq_rep_def)
  have p: "p \<noteq> NULL" "cells s p = None" using r(1) pool by (auto simp: heap_wf_def)
  have "subs_rep ?s H" by (rule subs_rep_frame [OF r(2)]) (use p in auto)
  moreover have "queue_rep ?s M"
    by (rule queue_rep_frame [OF r(3)]) (use p queue_rep_node [OF r(3)] in fastforce)+
  moreover have "heap_wf ?s" using r(1) pool by (auto simp: heap_wf_def list_all_iff)
  moreover have "list_all (\<lambda>a. cells ?s a = Some CBlock) (owned (F @ vals M))"
    using mq_inv_owned [OF inv] p(2) by (fastforce simp: list_all_iff)
  ultimately show ?thesis using inv by (simp add: mq_inv_def mq_rep_def)
qed

text \<open>Posting a message whose context stays with the caller is well-behaved.\<close>

lemma Post_quiet:
  assumes "Post mid ctx MQ_OWNER_CALLER ic s = okR (rc, s')" and "0 \<le> mid" "mid < 26"
  shows "quiet s s'"
proof (unfold quiet_def, intro allI impI)
  fix H F M assume "mq_inv s H F M"
  from mq_inv_post [OF this assms(2,3), of ctx MQ_OWNER_CALLER ic] assms(1)
  show "\<exists>N. mq_inv s' H F (M @ N) \<and> set (addrs N) \<inter> dom (cells s) = {} \<and>
      keeps_cells (set (addrs M)) s s'" by auto
qed

section \<open>The constructor\<close>

lemma MQClass_init_inv: "heap_wf s \<Longrightarrow> mq_inv (MQClass_init s) (\<lambda>_. []) [] []"
  by (auto simp: mq_inv_def mq_rep_def subs_rep_def queue_rep_def MQClass_init_def heap_wf_def)

section \<open>The queue as a FIFO\<close>

fun enq_all :: "('c \<Rightarrow> 'm \<Rightarrow> 's \<Rightarrow> (int \<times> 's) res) \<Rightarrow> ('c \<times> 'm) list \<Rightarrow> 's \<Rightarrow> (int list \<times> 's) res" where
  "enq_all enq [] s = okR ([], s)"
| "enq_all enq ((c, m) # ms) s =
     bindR (enq c m s) (\<lambda>(rc, s1). bindR (enq_all enq ms s1) (\<lambda>(rcs, s2). okR (rc # rcs, s2)))"

fun deq_n :: "('s \<Rightarrow> ('p \<times> 's) res) \<Rightarrow> ('s \<Rightarrow> 'p \<Rightarrow> 'm option) \<Rightarrow> nat \<Rightarrow> 's \<Rightarrow> ('m option list \<times> 's) res" where
  "deq_n deq body 0 s = okR ([], s)"
| "deq_n deq body (Suc n) s =
     bindR (deq s) (\<lambda>(p, s1). bindR (deq_n deq body n s1) (\<lambda>(ms, s2). okR (body s1 p # ms, s2)))"

fun accepted :: "('c \<times> 'm) list \<Rightarrow> int list \<Rightarrow> 'm list" where
  "accepted ((c, m) # ms) (rc # rcs) = (if rc = 0 then m # accepted ms rcs else accepted ms rcs)"
| "accepted _ _ = []"

locale fifo =
  fixes waiting :: "'s \<Rightarrow> 'm list \<Rightarrow> bool"
    and enq :: "'c \<Rightarrow> 'm \<Rightarrow> 's \<Rightarrow> (int \<times> 's) res"
    and deq :: "'s \<Rightarrow> ('p \<times> 's) res"
    and body :: "'s \<Rightarrow> 'p \<Rightarrow> 'm option"
  assumes enq_law: "waiting s L \<Longrightarrow>
      \<exists>rc s'. enq c m s = okR (rc, s') \<and> waiting s' (if rc = 0 then L @ [m] else L)"
    and deq_law: "waiting s (m # L) \<Longrightarrow>
      \<exists>p s'. deq s = okR (p, s') \<and> body s' p = Some m \<and> waiting s' L"
begin

lemma enq_all_accepted:
  "waiting s L \<Longrightarrow> \<exists>rcs s'. enq_all enq ms s = okR (rcs, s') \<and> length rcs = length ms \<and>
     waiting s' (L @ accepted ms rcs)"
proof (induction ms arbitrary: s L)
  case (Cons x ms)
  obtain c m where x: "x = (c, m)" by (cases x)
  obtain rc s1 where s1: "enq c m s = okR (rc, s1)" "waiting s1 (if rc = 0 then L @ [m] else L)"
    using enq_law [OF Cons.prems] by blast
  from Cons.IH [OF s1(2)] obtain rcs s2 where
    "enq_all enq ms s1 = okR (rcs, s2)" "length rcs = length ms"
    "waiting s2 ((if rc = 0 then L @ [m] else L) @ accepted ms rcs)" by blast
  with s1(1) x show ?case by (auto split: if_splits)
qed simp

lemma deq_n_order:
  "waiting s (ms @ L) \<Longrightarrow> \<exists>s'. deq_n deq body (length ms) s = okR (map Some ms, s') \<and> waiting s' L"
proof (induction ms arbitrary: s)
  case (Cons m ms)
  obtain p s1 where s1: "deq s = okR (p, s1)" "body s1 p = Some m" "waiting s1 (ms @ L)"
    using deq_law [of s m "ms @ L"] Cons.prems by auto
  from Cons.IH [OF s1(3)] s1(1,2) show ?case by auto
qed simp

lemma first_in_first_out:
  assumes "waiting s []"
  shows "\<exists>rcs s1 s2. enq_all enq ms s = okR (rcs, s1) \<and> length rcs = length ms \<and>
           deq_n deq body (length (accepted ms rcs)) s1 = okR (map Some (accepted ms rcs), s2) \<and>
           waiting s2 []"
proof -
  obtain rcs s1 where "enq_all enq ms s = okR (rcs, s1)" "length rcs = length ms"
      "waiting s1 (accepted ms rcs)"
    using enq_all_accepted [OF assms, of ms] by auto
  moreover from this(3) obtain s2 where
    "deq_n deq body (length (accepted ms rcs)) s1 = okR (map Some (accepted ms rcs), s2)" "waiting s2 []"
    using deq_n_order [of s1 "accepted ms rcs" "[]"] by auto
  ultimately show ?thesis by blast
qed

end

definition mq_waiting :: "'a mq_scheme \<Rightarrow> letter list \<Rightarrow> bool" where
  "mq_waiting s L \<longleftrightarrow> (\<exists>H M. mq_rep s H M \<and> vals M = L)"

definition Post_letter :: "MQCONTEXT \<Rightarrow> letter \<Rightarrow> 'a mq_scheme \<Rightarrow> (int \<times> 'a mq_scheme) res" where
  "Post_letter ic l = (case l of (mid, ctx, ow) \<Rightarrow> Post mid ctx ow ic)"

definition letter_at :: "'a mq_scheme \<Rightarrow> ptr \<Rightarrow> letter option" where
  "letter_at s p = map_option fst (mcell (cells s p))"

interpretation mq_fifo: fifo mq_waiting Post_letter pop_message letter_at
proof
  fix s :: "'a mq_scheme" and L ic and l :: letter
  assume "mq_waiting s L"
  then obtain H M where r: "mq_rep s H M" "vals M = L" by (auto simp: mq_waiting_def)
  obtain mid ctx ow where l: "l = (mid, ctx, ow)" by (cases l)
  show "\<exists>rc s'. Post_letter ic l s = okR (rc, s') \<and> mq_waiting s' (if rc = 0 then L @ [l] else L)"
  proof (cases "mid < 26 \<and> mid \<noteq> -1 \<and> pool s \<noteq> []")
    case True
    then obtain p ps where "pool s = p # ps" by (cases "pool s") auto
    with Post_accepted [OF r(1), of mid p ps ctx ow ic] True r l show ?thesis
      by (fastforce simp: Post_letter_def mq_waiting_def)
  next
    case False
    have "mq_rep (s\<lparr>sreg_i := b\<rparr>) H M" for b
      using r(1) by (simp add: mq_rep_def heap_wf_def subs_rep_def queue_rep_def)
    with Post_rejected [of mid s ctx ow ic] False r l show ?thesis
      by (fastforce simp: Post_letter_def mq_waiting_def)
  qed
next
  fix s :: "'a mq_scheme" and l :: letter and L
  assume "mq_waiting s (l # L)"
  then obtain H p M where "mq_rep s H ((p, l) # M)" "vals M = L"
    by (auto simp: mq_waiting_def Cons_eq_map_conv)
  with pop_message_rep [of s H p l M] show
    "\<exists>p s'. pop_message s = okR (p, s') \<and> letter_at s' p = Some l \<and> mq_waiting s' L"
    by (fastforce simp: letter_at_def mq_waiting_def)
qed

section \<open>Handlers for concrete runs\<close>

text \<open>Handlers that only write their call into the rest of the state.\<close>

definition rec_fn :: "((delivery list) mq_scheme) fn_bodies" where
  "rec_fn f ctx s = okR (mq.more_update (\<lambda>l. l @ [CalledFn f ctx]) s)"

definition rec_recv :: "((delivery list) mq_scheme) recv_bodies" where
  "rec_recv r mid ctx s = okR (mq.more_update (\<lambda>l. l @ [CalledRecv r mid ctx]) s)"

lemma quiet_more: "quiet s (mq.more_update f s)"
  unfolding quiet_def by (auto simp: keeps_cells_def intro!: exI [of _ "[]"])

lemma rec_well_behaved: "well_behaved rec_fn rec_recv"
proof -
  have "\<exists>s'. call_sub rec_fn rec_recv x mid ctx s = okR s' \<and> quiet s s'" for x mid ctx and s
    by (cases x) (simp_all add: rec_fn_def rec_recv_def quiet_more)
  then show ?thesis by (simp add: well_behaved_def)
qed

lemma rec_recording: "recording mq.more rec_fn rec_recv"
proof -
  have "call_sub rec_fn rec_recv x mid ctx s = okR s' \<Longrightarrow> mq.more s' = mq.more s @ [delivery_of mid ctx x]"
    for x mid ctx and s s' :: "(delivery list) mq_scheme"
    by (cases x) (auto simp: rec_fn_def rec_recv_def)
  then show ?thesis by (simp add: recording_def)
qed

lemma demo_inv: "mq_inv (demo_mq x) demo_subs [] demo_letters"
  using demo_rep [of x] by (simp add: mq_inv_def demo_letters_def demo_mq_def valid_letter_def)

lemma demo_inv_Cons:
  "mq_inv (demo_mq x) demo_subs [] ((48, (3, 64, MQ_OWNER_MQ)) # [(80, (3, 0, MQ_OWNER_CALLER))])"
  using demo_inv [of x] by (simp add: demo_letters_def)

lemma demo_empty: "mq_rep (MQClass_init (demo_mq x)) (\<lambda>_. []) []"
  using demo_rep [of x] by (intro mq_inv_rep [OF MQClass_init_inv]) (simp add: mq_rep_def)

definition demo_posts :: "(MQCONTEXT \<times> letter) list" where
  "demo_posts = [(MQ_CONTEXT_TASK, (3, 0, MQ_OWNER_CALLER)), (MQ_CONTEXT_INTERRUPT, (4, 0, MQ_OWNER_CALLER))]"

lemma demo_more [simp]: "mq.more (demo_mq x) = x"
  by (simp add: demo_mq_def)

section \<open>Properties of posting and delivery\<close>

text \<open>
  Property C3. \<open>MQClass::Loop\<close> delivers first in, first out: with at least \<open>n\<close> waiting
  messages, \<open>Loop(n)\<close> returns after having called, for the oldest \<open>n\<close> messages in the
  order of posting, every subscriber of the id exactly once with the id and the context of
  the message; the remaining messages keep their order, messages posted by handlers come
  after them, and the invariant of the queue holds again.
\<close>

theorem Loop_delivers_in_order:
  assumes "mq_inv s H F M" and "well_behaved fb rb" and "recording lg fb rb" and "n \<le> length M"
  shows "\<exists>s' N. MQ_Loop fb rb (int n) s = okR s' \<and> mq_inv s' H F (drop n M @ N) \<and>
    lg s' = lg s @ concat (map (deliveries (\<lambda>i. vals (H i))) (take n (vals M)))"
  using MQ_Loop_records [OF assms] .

theorem Loop_delivers_in_order_witness:
  "\<exists>s'. MQ_Loop rec_fn rec_recv 2 (demo_mq []) = okR s' \<and>
     mq.more s' = [CalledRecv 512 3 64, CalledFn 100 64, CalledRecv 512 3 0, CalledFn 100 0]"
  using Loop_delivers_in_order [OF demo_inv [of "[]"] rec_well_behaved rec_recording, of 2]
  by (auto simp: demo_letters_def demo_subs_def deliveries_def)

text \<open>
  A delivered message is released exactly once, together with its context when
  the queue owns it: compared with the heap after the last handler, exactly these
  objects are gone. Nothing leaks and nothing else is freed.
\<close>

lemma delivered_message_released:
  assumes "mq_inv s H F ((p, l) # M)" and "well_behaved fb rb"
  shows "\<exists>s1 s2 s'. pop_message s = okR (p, s1) \<and>
    call_all fb rb (vals (H (nat (fst l)))) (fst l) (fst (snd l)) s1 = okR s2 \<and>
    Loop_body fb rb s = okR s' \<and> cells s2 p \<noteq> None \<and>
    cells s' = (\<lambda>q. if q = p \<or> q \<in> set (owned_ctx l) then None else cells s2 q)"
  using Loop_body_delivers [OF assms] by auto

lemma delivered_message_released_witness:
  "\<exists>s'. Loop_body rec_fn rec_recv (demo_mq []) = okR s' \<and> cells s' 48 = None \<and> cells s' 64 = None"
  using delivered_message_released [OF demo_inv_Cons [of "[]"] rec_well_behaved] by fastforce

text \<open>
  Property C29. \<open>Post\<close>, every branch: with an id below 26 other than -1 and memory left,
  the message is appended to the queue (result 0); otherwise the result is -1 and the queue
  is untouched. In task context interrupts are enabled on return, in interrupt context the
  flag is left as it was.
\<close>

theorem Post_spec:
  assumes "mq_rep s H M"
  shows "\<exists>rc s'. Post mid ctx ow ic s = okR (rc, s') \<and>
    sreg_i s' = (ic \<noteq> MQ_CONTEXT_INTERRUPT \<or> sreg_i s) \<and>
    (if mid < 26 \<and> mid \<noteq> -1 \<and> pool s \<noteq> []
     then rc = 0 \<and> mq_rep s' H (M @ [(hd (pool s), (mid, ctx, ow))])
     else rc = -1 \<and> s' = s\<lparr>sreg_i := sreg_i s'\<rparr>)"
proof (cases "mid < 26 \<and> mid \<noteq> -1 \<and> pool s \<noteq> []")
  case True
  then obtain p ps where "pool s = p # ps" by (cases "pool s") auto
  with Post_accepted [OF assms, of mid p ps ctx ow ic] True show ?thesis
    by (fastforce simp: after_post_def)
next
  case False
  with Post_rejected [of mid s ctx ow ic] show ?thesis by (auto simp: after_post_def)
qed

theorem Post_spec_witness:
  "\<exists>s'. Post 7 0 MQ_OWNER_CALLER MQ_CONTEXT_TASK (demo_mq ()) = okR (0, s') \<and> sreg_i s' \<and>
     mq_rep s' demo_subs (demo_letters @ [(96, (7, 0, MQ_OWNER_CALLER))])"
  using Post_spec [OF demo_rep [of "()"], of 7 0 MQ_OWNER_CALLER MQ_CONTEXT_TASK] by auto

text \<open>
  Round trip of the queue: after posting any list of messages from any mix of
  task and interrupt context into an empty queue, taking messages off it yields exactly
  the accepted ones, in the order of posting, and leaves it empty.
\<close>

lemma post_then_take:
  assumes "mq_waiting s []"
  shows "\<exists>rcs s1 s2. enq_all Post_letter ms s = okR (rcs, s1) \<and> length rcs = length ms \<and>
    deq_n pop_message letter_at (length (accepted ms rcs)) s1 = okR (map Some (accepted ms rcs), s2) \<and>
    mq_waiting s2 []"
  using mq_fifo.first_in_first_out [OF assms] .

lemma post_then_take_witness:
  "\<exists>rcs s1 s2. enq_all Post_letter demo_posts (MQClass_init (demo_mq ())) = okR (rcs, s1) \<and>
     length rcs = 2 \<and> deq_n pop_message letter_at (length (accepted demo_posts rcs)) s1 =
       okR (map Some (accepted demo_posts rcs), s2)"
proof -
  have "mq_waiting (MQClass_init (demo_mq ())) []" using demo_empty [of "()"] by (auto simp: mq_waiting_def)
  from post_then_take [OF this, of demo_posts] show ?thesis by (auto simp: demo_posts_def)
qed

text \<open>
  Property C39. \<open>Post\<close> accepts ids below -1, and \<open>Loop\<close> then indexes the table of
  subscriptions outside its bounds.
\<close>

theorem Post_negative_id_faults:
  assumes "mq_rep s H []" and "mid < -1" and "pool s \<noteq> []"
  shows "\<exists>s'. Post mid ctx ow ic s = okR (0, s') \<and> MQ_Loop fb rb (int (Suc n)) s' = failR OutOfBounds"
proof -
  obtain p ps where pool: "pool s = p # ps" using assms(3) by (cases "pool s") auto
  from Post_accepted [OF assms(1) _ _ pool, of mid ctx ow ic] assms(2) obtain s' where
    s': "Post mid ctx ow ic s = okR (0, s')" "mq_rep s' H ((p, (mid, ctx, ow)) # [])" by auto
  obtain s1 m where s1: "pop_message s' = okR (p, s1)" "p \<noteq> NULL" "cells s1 p = Some (CMessage m)"
      "letter_of m = (mid, ctx, ow)"
    using pop_message_rep [OF s'(2)] by blast
  then have "Loop_body fb rb s' = failR OutOfBounds"
    using assms(2) by (simp add: Loop_body_def get_message_def read_block_def letter_of_def)
  with s'(1) show ?thesis unfolding MQ_Loop_Suc by simp
qed

theorem Post_negative_id_faults_witness:
  "\<exists>s'. Post (-2) 0 MQ_OWNER_CALLER MQ_CONTEXT_TASK (MQClass_init (demo_mq [])) = okR (0, s') \<and>
     MQ_Loop rec_fn rec_recv (int (Suc 1)) s' = failR OutOfBounds"
  using Post_negative_id_faults [OF demo_empty [of "[]"], of "-2" 0 MQ_OWNER_CALLER MQ_CONTEXT_TASK rec_fn rec_recv 1]
  by (simp add: MQClass_init_def)

text \<open>
  Property C38. A receiver that unsubscribes itself while its message is delivered makes
  \<open>Loop\<close> read the freed subscription: the successor is taken from the list node after
  the call.
\<close>

theorem self_unsubscribe_faults:
  assumes "mq_inv s H F ((p, (int i, ctx, ow)) # M)" and "i < 26" and "H i = (a, Recv r) # xs"
    and "\<And>r mid ctx s. rb r mid ctx s = bindR (Unsubscribe_class mid r s) (\<lambda>(_, s1). okR s1)"
  shows "MQ_Loop fb rb (int (Suc n)) s = failR BadPointer"
proof -
  obtain s1 m where s1: "pop_message s = okR (p, s1)" "mq_inv s1 H ((int i, ctx, ow) # F) M" "p \<noteq> NULL"
      "cells s1 p = Some (CMessage m)" "letter_of m = (int i, ctx, ow)"
    using mq_inv_pop [OF assms(1)] by blast
  have rep: "mq_rep s1 H M" using mq_inv_rep [OF s1(2)] .
  have "lchain (hnode (cells s1)) (QueueBlock s1 ! i) ((a, Recv r) # xs)"
    using mq_inv_chain [OF s1(2) assms(2)] unfolding assms(3) .
  then obtain h where h: "cells s1 a = Some (CHandler h)" "subscriber_of h = Recv r" "a \<noteq> NULL"
      "QueueBlock s1 ! i = a"
    by (auto split: option.splits dest!: hcell_SomeD)
  obtain s2 where s2: "unlink_handler (int i) r a NULL s1 = okR (0, s2)" "cells s2 a = None"
    using unlink_node [OF rep assms(2) _ h(1), of "[]" "Recv r" xs r NULL] h(2) assms(3) by (auto simp: checkHandler_raw)
  have "call_sub fb rb (subscriber_of h) (msgid m) (msg_context m) s1 = okR s2"
    using s2(1) h s1(5) assms(2,4) by (simp add: Unsubscribe_class_def read_block_def letter_of_def)
  then have "dispatch fb rb p a s1 = failR BadPointer"
    using h s1(4) s2(2) by (subst dispatch.simps) (simp add: get_handler_def get_message_def Call_eq)
  then have "Loop_body fb rb s = failR BadPointer"
    using s1 h(4) assms(2) by (simp add: Loop_body_def get_message_def read_block_def letter_of_def)
  then show ?thesis unfolding MQ_Loop_Suc by simp
qed

theorem self_unsubscribe_faults_witness:
  "MQ_Loop rec_fn (\<lambda>r mid ctx s. bindR (Unsubscribe_class mid r s) (\<lambda>(_, s1). okR s1)) (int (Suc 1)) (demo_mq []) =
     failR BadPointer"
  by (rule self_unsubscribe_faults [of _ demo_subs "[]" 48 3 64 MQ_OWNER_MQ _ 16 512 "[(32, Fn 100)]"])
    (use demo_inv_Cons [of "[]"] in \<open>simp_all add: demo_subs_def\<close>)

end
