(* ===== verification/Task_Ring.thy ===== *)
theory Task_Ring
  imports Message_Queue
begin

text \<open>
  The round-robin scheduler (\<open>taskring.cpp\<close>): a singly linked list of registered tasks in
  the shared heap, a head pointer and a cursor; and the members of \<open>Task\<close> that use it
  (\<open>Task.cpp\<close>). \<open>ring_rep\<close> relates the heap to the list of registered jobs.
\<close>

section \<open>State and operations\<close>

record taskring = mq +
  pHead :: ptr
  pCur :: ptr

definition TaskRing_init :: "'a taskring_scheme \<Rightarrow> 'a taskring_scheme" where
  "TaskRing_init s = s\<lparr>pHead := NULL, pCur := NULL\<rparr>"

text \<open>The bodies of tasks are application code, parameters as for message handlers.\<close>

type_synonym 's task_fns = "ptr \<Rightarrow> ptr \<Rightarrow> 's \<Rightarrow> 's res"

type_synonym 's task_loops = "ptr \<Rightarrow> 's \<Rightarrow> 's res"

fun Task_Call :: "'s task_fns \<Rightarrow> 's task_loops \<Rightarrow> taskstate \<Rightarrow> 's \<Rightarrow> 's res" where
  "Task_Call tf tc (TASKSTATE_C t _) s = tc t s"
| "Task_Call tf tc (TASKSTATE_F f c _) s = tf f c s"

definition TaskRing_Loop ::
  "('a taskring_scheme) task_fns \<Rightarrow> ('a taskring_scheme) task_loops \<Rightarrow> 'a taskring_scheme \<Rightarrow>
     ('a taskring_scheme) res" where
  "TaskRing_Loop tf tc s =
     (let s0 = (if pCur s = NULL then s\<lparr>pCur := pHead s\<rparr> else s) in
      if pCur s0 \<noteq> NULL then
        bindR (get_task (pCur s0) s0) (\<lambda>t.
        bindR (Task_Call tf tc t s0) (\<lambda>s1.
        bindR (get_task (pCur s1) s1) (\<lambda>t1.
        okR (s1\<lparr>pCur := pNext t1\<rparr>))))
      else okR s0)"

definition RegisterTaskHandler_fn ::
  "ptr \<Rightarrow> ptr \<Rightarrow> 'a taskring_scheme \<Rightarrow> (int \<times> 'a taskring_scheme) res" where
  "RegisterTaskHandler_fn handler ctx s =
     (if handler \<noteq> NULL then
        (let (pNew, s1) = new_cell (CTask (TASKSTATE_F handler ctx NULL)) s in
         if pNew \<noteq> NULL then
           bindR (get_task pNew s1) (\<lambda>t.
           okR (0, (put_cell pNew (CTask (set_pNext (pHead s1) t)) s1)\<lparr>pHead := pNew\<rparr>))
         else okR (-1, s1))
      else okR (-1, s))"

definition RegisterTaskHandler_class ::
  "ptr \<Rightarrow> 'a taskring_scheme \<Rightarrow> (int \<times> 'a taskring_scheme) res" where
  "RegisterTaskHandler_class tsk s =
     (if tsk \<noteq> NULL then
        (let (pNew, s1) = new_cell (CTask (TASKSTATE_C tsk NULL)) s in
         if pNew \<noteq> NULL then
           bindR (get_task pNew s1) (\<lambda>t.
           okR (0, (put_cell pNew (CTask (set_pNext (pHead s1) t)) s1)\<lparr>pHead := pNew\<rparr>))
         else okR (-1, s1))
      else okR (-1, s))"

text \<open>
  The body of \<open>DeregisterTaskHandler\<close> is empty (and returns no value although it is
  declared \<open>int\<close>).
\<close>

definition DeregisterTaskHandler :: "ptr \<Rightarrow> 'a taskring_scheme \<Rightarrow> 'a taskring_scheme" where
  "DeregisterTaskHandler tsk s = s"

text \<open>
  \<open>Task.cpp\<close> and \<open>EventReceiver.cpp\<close>: \<open>Start\<close> drops the result of the registration,
  the destructor of a task deregisters it and then runs the destructor of its base class,
  whose body is empty.
\<close>

definition Task_Start :: "ptr \<Rightarrow> 'a taskring_scheme \<Rightarrow> ('a taskring_scheme) res" where
  "Task_Start this s = bindR (RegisterTaskHandler_class this s) (\<lambda>(_, s1). okR s1)"

definition EventReceiver_destroy :: "ptr \<Rightarrow> 'a mq_scheme \<Rightarrow> 'a mq_scheme" where
  "EventReceiver_destroy this s = s"

definition Task_destroy :: "ptr \<Rightarrow> 'a taskring_scheme \<Rightarrow> 'a taskring_scheme" where
  "Task_destroy this s = EventReceiver_destroy this (DeregisterTaskHandler this s)"

text \<open>Calling \<open>Loop\<close> over and over.\<close>

fun ring_loops :: "('a taskring_scheme) task_fns \<Rightarrow> ('a taskring_scheme) task_loops \<Rightarrow> nat \<Rightarrow>
    'a taskring_scheme \<Rightarrow> ('a taskring_scheme) res" where
  "ring_loops tf tc 0 s = okR s"
| "ring_loops tf tc (Suc n) s = bindR (TaskRing_Loop tf tc s) (ring_loops tf tc n)"

section \<open>Representation\<close>

text \<open>
  \<open>T\<close> lists the registered jobs, the one registered last first. \<open>ring_at s T k\<close>: the
  cursor stands before the job number \<open>k\<close> (or is null, after the last one).
\<close>

definition ring_rep :: "'a taskring_scheme \<Rightarrow> (ptr \<times> job) list \<Rightarrow> bool" where
  "ring_rep s T \<longleftrightarrow> heap_wf s \<and> lchain (tnode (cells s)) (pHead s) T"

definition ring_at :: "'a taskring_scheme \<Rightarrow> (ptr \<times> job) list \<Rightarrow> nat \<Rightarrow> bool" where
  "ring_at s T k \<longleftrightarrow> ring_rep s T \<and> k \<le> length T \<and>
     pCur s = (if k < length T then fst (T ! k) else NULL)"

fun run_job :: "'s task_fns \<Rightarrow> 's task_loops \<Rightarrow> job \<Rightarrow> 's \<Rightarrow> 's res" where
  "run_job tf tc (ClassJob t) s = tc t s"
| "run_job tf tc (FunJob f c) s = tf f c s"

lemma Task_Call_eq: "Task_Call tf tc t s = run_job tf tc (job_of t) s"
  by (cases t) auto

lemma lchain_nth:
  "lchain node p xs \<Longrightarrow> k < length xs \<Longrightarrow>
     fst (xs ! k) \<noteq> NULL \<and>
     node (fst (xs ! k)) =
       Some (snd (xs ! k), if Suc k < length xs then fst (xs ! Suc k) else NULL)"
proof (induction xs arbitrary: p k)
  case (Cons x xs)
  then obtain n where n: "node p = Some (snd x, n)" "lchain node n xs" "p = fst x" "p \<noteq> NULL"
    by (auto split: option.splits)
  show ?case
  proof (cases k)
    case 0
    have "n = (if 0 < length xs then fst (xs ! 0) else NULL)" using n(2) by (cases xs) auto
    with 0 n show ?thesis by simp
  next
    case (Suc j)
    with Cons.IH [OF n(2), of j] Cons.prems(2) show ?thesis by simp
  qed
qed simp

lemma ring_at_node:
  assumes "ring_rep s T" and "k < length T"
  shows "fst (T ! k) \<noteq> NULL" and "\<exists>t. cells s (fst (T ! k)) = Some (CTask t) \<and> job_of t = snd (T ! k) \<and>
     pNext t = (if Suc k < length T then fst (T ! Suc k) else NULL)"
  using lchain_nth [of "tnode (cells s)" "pHead s" T k] assms
  by (auto simp: ring_rep_def dest!: tcell_SomeD)

section \<open>Registration\<close>

fun Register :: "job \<Rightarrow> 'a taskring_scheme \<Rightarrow> (int \<times> 'a taskring_scheme) res" where
  "Register (ClassJob t) s = RegisterTaskHandler_class t s"
| "Register (FunJob f c) s = RegisterTaskHandler_fn f c s"

fun job_ptr :: "job \<Rightarrow> ptr" where
  "job_ptr (ClassJob t) = t"
| "job_ptr (FunJob f c) = f"

fun task_cell :: "job \<Rightarrow> ptr \<Rightarrow> taskstate" where
  "task_cell (ClassJob t) n = TASKSTATE_C t n"
| "task_cell (FunJob f c) n = TASKSTATE_F f c n"

lemma task_cell_simps [simp]: "job_of (task_cell j n) = j" "pNext (task_cell j n) = n"
    "set_pNext m (task_cell j n) = task_cell j m"
  by (cases j; simp)+

lemma Register_accepted:
  assumes "pool s = p # ps" "job_ptr j \<noteq> NULL" "p \<noteq> NULL"
  shows "Register j s = okR (0, s\<lparr>cells := (cells s)(p \<mapsto> CTask (task_cell j (pHead s))),
    pool := ps, pHead := p\<rparr>)"
  using assms by (cases j) (simp_all add: RegisterTaskHandler_class_def RegisterTaskHandler_fn_def
      new_cell_def get_task_def put_cell_def)

lemma Register_rejected: "pool s = [] \<or> job_ptr j = NULL \<Longrightarrow> Register j s = okR (-1, s)"
  by (cases j) (auto simp: RegisterTaskHandler_class_def RegisterTaskHandler_fn_def new_cell_def)

lemma Register_ring:
  assumes rep: "ring_rep s T" and pool: "pool s = p # ps" and j: "job_ptr j \<noteq> NULL"
  shows "\<exists>s'. Register j s = okR (0, s') \<and> ring_rep s' ((p, j) # T) \<and> pCur s' = pCur s \<and>
           taskring.more s' = taskring.more s"
proof -
  have p: "p \<noteq> NULL" "cells s p = None" using rep pool by (auto simp: ring_rep_def heap_wf_def)
  have "p \<notin> set (addrs T)"
    using rep p(2) lseg_node [of "tnode (cells s)" "pHead s" T NULL p] by (auto simp: ring_rep_def)
  with rep pool p have "ring_rep (s\<lparr>cells := (cells s)(p \<mapsto> CTask (task_cell j (pHead s))),
      pool := ps, pHead := p\<rparr>) ((p, j) # T)"
    by (auto simp: ring_rep_def heap_wf_def list_all_iff)
  with Register_accepted [OF pool j p(1)] show ?thesis by auto
qed

section \<open>One turn of the scheduler\<close>

text \<open>
  \<open>steady\<close> tasks return, leave the cursor alone and register no further tasks. The turn
  itself is analysed for tasks that may also register others (\<open>R\<close> is prepended).
\<close>

definition steady :: "('a taskring_scheme) task_fns \<Rightarrow> ('a taskring_scheme) task_loops \<Rightarrow> bool" where
  "steady tf tc \<longleftrightarrow> (\<forall>j s T. ring_rep s T \<longrightarrow>
     (\<exists>s'. run_job tf tc j s = okR s' \<and> ring_rep s' T \<and> pCur s' = pCur s))"

text \<open>The cursor after the wrap-around at the start of \<open>Loop\<close>.\<close>

lemma wrap_cursor:
  assumes "ring_at s T k" and "T \<noteq> []"
  defines "i \<equiv> (if k = length T then 0 else k)"
  defines "s0 \<equiv> (if pCur s = NULL then s\<lparr>pCur := pHead s\<rparr> else s)"
  shows "i < length T" and "pCur s0 = fst (T ! i)" and "pCur s0 \<noteq> NULL" and "ring_rep s0 T"
    and "taskring.more s0 = taskring.more s"
proof -
  have rep: "ring_rep s T" and k: "k \<le> length T" "pCur s = (if k < length T then fst (T ! k) else NULL)"
    using assms(1) by (auto simp: ring_at_def)
  have hd: "pHead s = fst (T ! 0)" using rep assms(2) by (cases T) (auto simp: ring_rep_def)
  show i: "i < length T" using k(1) assms(2) by (auto simp: i_def)
  show c: "pCur s0 = fst (T ! i)"
    using k hd ring_at_node(1) [OF rep, of k] by (auto simp: i_def s0_def)
  show "pCur s0 \<noteq> NULL" using c ring_at_node(1) [OF rep i] by simp
  show "ring_rep s0 T" using rep by (simp add: s0_def ring_rep_def heap_wf_def)
  show "taskring.more s0 = taskring.more s" by (simp add: s0_def)
qed

lemma TaskRing_Loop_turn:
  assumes at: "ring_at s T k" and ne: "T \<noteq> []"
  defines "i \<equiv> (if k = length T then 0 else k)"
  defines "s0 \<equiv> (if pCur s = NULL then s\<lparr>pCur := pHead s\<rparr> else s)"
  assumes run: "run_job tf tc (snd (T ! i)) s0 = okR s1"
    and s1: "ring_rep s1 (R @ T)" "pCur s1 = pCur s0"
  shows "\<exists>c. TaskRing_Loop tf tc s = okR (s1\<lparr>pCur := c\<rparr>) \<and>
           ring_at (s1\<lparr>pCur := c\<rparr>) (R @ T) (length R + Suc i)"
proof -
  note w = wrap_cursor [OF at ne, folded i_def s0_def]
  obtain t where t: "cells s0 (pCur s0) = Some (CTask t)" "job_of t = snd (T ! i)"
    using ring_at_node(2) [OF w(4,1)] w(2) by auto
  have i: "length R + i < length (R @ T)" using w(1) by simp
  obtain t1 where t1: "cells s1 (pCur s1) = Some (CTask t1)"
      "pNext t1 = (if Suc (length R + i) < length (R @ T) then fst ((R @ T) ! Suc (length R + i)) else NULL)"
    using ring_at_node(2) [OF s1(1) i] s1(2) w(2) by auto
  have "TaskRing_Loop tf tc s = okR (s1\<lparr>pCur := pNext t1\<rparr>)"
    using w(3) t t1(1) run by (simp add: TaskRing_Loop_def s0_def [symmetric] get_task_def Task_Call_eq)
  moreover have "ring_at (s1\<lparr>pCur := pNext t1\<rparr>) (R @ T) (length R + Suc i)"
    using s1(1) w(1) t1(2) by (auto simp: ring_at_def ring_rep_def heap_wf_def)
  ultimately show ?thesis by auto
qed

section \<open>Round robin\<close>

text \<open>
  The scheduler's promise to the tasks, as an interface: one turn runs the job the cursor
  is at and moves the cursor to the next one. \<open>good\<close> is what is asked of the
  environment \<open>e\<close> of task bodies, \<open>log\<close> the jobs run so far.
\<close>

fun turns :: "('s \<Rightarrow> 's res) \<Rightarrow> nat \<Rightarrow> 's \<Rightarrow> 's res" where
  "turns step 0 s = okR s"
| "turns step (Suc n) s = bindR (step s) (turns step n)"

lemma rotate_conv_map: "map (\<lambda>k. xs ! (k mod length xs)) [m ..< m + length xs] = rotate m xs"
  by (rule nth_equalityI) (auto simp: nth_rotate)

locale round_robin =
  fixes good :: "'e \<Rightarrow> bool"
    and position :: "'s \<Rightarrow> 'j list \<Rightarrow> nat \<Rightarrow> bool"
    and turn :: "'e \<Rightarrow> 's \<Rightarrow> 's res"
    and log :: "'s \<Rightarrow> 'j list"
  assumes turn_law: "good e \<Longrightarrow> position s J k \<Longrightarrow> J \<noteq> [] \<Longrightarrow>
      \<exists>s'. turn e s = okR s' \<and> position s' J (Suc k) \<and> log s' = log s @ [J ! (k mod length J)]"
begin

lemma turns_log:
  "good e \<Longrightarrow> position s J k \<Longrightarrow> J \<noteq> [] \<Longrightarrow>
     \<exists>s'. turns (turn e) n s = okR s' \<and> position s' J (k + n) \<and>
          log s' = log s @ map (\<lambda>i. J ! (i mod length J)) [k ..< k + n]"
proof (induction n arbitrary: s k)
  case (Suc n)
  obtain s1 where s1: "turn e s = okR s1" "position s1 J (Suc k)" "log s1 = log s @ [J ! (k mod length J)]"
    using turn_law [OF Suc.prems] by blast
  have "[k ..< k + Suc n] = k # [Suc k ..< Suc k + n]" by (simp add: upt_conv_Cons del: upt_Suc)
  with Suc.IH [OF Suc.prems(1) s1(2) Suc.prems(3)] s1(1,3) show ?case
    by (auto simp del: upt_Suc)
qed simp

text \<open>As many turns as there are jobs run every job once, starting where the cursor is.\<close>

lemma full_cycle:
  assumes "good e" "position s J k" "J \<noteq> []"
  shows "\<exists>s'. turns (turn e) (length J) s = okR s' \<and> log s' = log s @ rotate k J"
  using turns_log [OF assms, of "length J"] rotate_conv_map [of J k] by auto

end

text \<open>Jobs that record themselves in the rest of the state.\<close>

definition recording_jobs ::
  "((job list) taskring_scheme) task_fns \<Rightarrow> ((job list) taskring_scheme) task_loops \<Rightarrow> bool" where
  "recording_jobs tf tc \<longleftrightarrow> steady tf tc \<and> (\<forall>j s s'. run_job tf tc j s = okR s' \<longrightarrow>
     taskring.more s' = taskring.more s @ [j])"

definition ring_position :: "'a taskring_scheme \<Rightarrow> job list \<Rightarrow> nat \<Rightarrow> bool" where
  "ring_position s J k \<longleftrightarrow> (\<exists>T i. ring_at s T i \<and> vals T = J \<and> k mod length J = i mod length J)"

interpretation ring_rr: round_robin
  "\<lambda>e. recording_jobs (fst e) (snd e)" ring_position "\<lambda>e. TaskRing_Loop (fst e) (snd e)" taskring.more
proof
  fix e and s :: "(job list) taskring_scheme" and J k
  assume good: "recording_jobs (fst e) (snd e)" and pos: "ring_position s J k" and ne: "J \<noteq> []"
  from pos obtain T m where at: "ring_at s T m" and J: "vals T = J" and k: "k mod length J = m mod length J"
    by (auto simp: ring_position_def)
  define i where "i = (if m = length T then 0 else m)"
  define s0 where "s0 = (if pCur s = NULL then s\<lparr>pCur := pHead s\<rparr> else s)"
  have T: "T \<noteq> []" "length J = length T" using J ne by auto
  note w = wrap_cursor [OF at T(1), folded i_def s0_def]
  have i: "k mod length J = i" using k w(1) T(2) at by (auto simp: i_def ring_at_def)
  obtain s1 where s1: "run_job (fst e) (snd e) (snd (T ! i)) s0 = okR s1" "ring_rep s1 ([] @ T)"
      "pCur s1 = pCur s0"
    using good w(4) unfolding recording_jobs_def steady_def by fastforce
  have m: "taskring.more s1 = taskring.more s @ [J ! (k mod length J)]"
    using good s1(1) w(1,5) i J unfolding recording_jobs_def by force
  obtain s' where s': "TaskRing_Loop (fst e) (snd e) s = okR s'" "ring_at s' T (Suc i)"
      "taskring.more s' = taskring.more s1"
    using TaskRing_Loop_turn [OF at T(1), folded i_def s0_def, OF s1] by fastforce
  have "Suc k mod length J = Suc i mod length J" using i by (metis mod_Suc_eq)
  with s' m J show "\<exists>s'. TaskRing_Loop (fst e) (snd e) s = okR s' \<and> ring_position s' J (Suc k) \<and>
      taskring.more s' = taskring.more s @ [J ! (k mod length J)]"
    by (auto simp: ring_position_def)
qed

lemma ring_loops_turns: "ring_loops tf tc n s = turns (TaskRing_Loop tf tc) n s"
  by (induction n arbitrary: s) (auto simp: bindR_def split: Option.bind_splits outcome.splits)

section \<open>A small ring\<close>

definition demo_ring :: "'a \<Rightarrow> 'a taskring_scheme" where
  "demo_ring x = \<lparr>cells = [16 \<mapsto> CTask (TASKSTATE_C 300 32), 32 \<mapsto> CTask (TASKSTATE_F 400 7 0)],
     pool = [48], sreg_i = True, QueueBlock = replicate 26 NULL, MsgQueueFirst = 0, MsgQueueLast = 0,
     pHead = 16, pCur = 32, \<dots> = x\<rparr>"

definition demo_jobs :: "(ptr \<times> job) list" where
  "demo_jobs = [(16, ClassJob 300), (32, FunJob 400 7)]"

lemma demo_ring_at: "ring_at (demo_ring x) demo_jobs 1"
  by (simp add: ring_at_def ring_rep_def heap_wf_def demo_ring_def demo_jobs_def)

definition rec_job :: "job \<Rightarrow> (job list) taskring_scheme \<Rightarrow> ((job list) taskring_scheme) res" where
  "rec_job j s = okR (taskring.more_update (\<lambda>l. l @ [j]) s)"

lemma rec_job_recording: "recording_jobs (\<lambda>f c. rec_job (FunJob f c)) (\<lambda>t. rec_job (ClassJob t))"
proof -
  have r: "run_job (\<lambda>f c. rec_job (FunJob f c)) (\<lambda>t. rec_job (ClassJob t)) j s =
      okR (taskring.more_update (\<lambda>l. l @ [j]) s)" for j s
    by (cases j) (simp_all add: rec_job_def)
  have "ring_rep s T \<Longrightarrow> ring_rep (taskring.more_update f s) T" for s :: "(job list) taskring_scheme" and T f
    by (simp add: ring_rep_def heap_wf_def)
  then show ?thesis unfolding recording_jobs_def steady_def r by auto
qed

lemma demo_position: "ring_position (demo_ring []) [ClassJob 300, FunJob 400 7] 1"
  unfolding ring_position_def using demo_ring_at [of "[]"] by (intro exI [of _ demo_jobs] exI [of _ 1]) (simp add: demo_jobs_def)

section \<open>Properties of the scheduler\<close>

text \<open>
  Property C21. The scheduler is round robin: with tasks that return and register no further
  tasks, as many turns of \<open>TaskRing::Loop\<close> as there are registered tasks run every task
  exactly once, in the order of the ring from the cursor on, and no turn faults.
\<close>

theorem ring_runs_every_task:
  assumes "recording_jobs tf tc" and "ring_position s J k" and "J \<noteq> []"
  shows "\<exists>s'. ring_loops tf tc (length J) s = okR s' \<and> taskring.more s' = taskring.more s @ rotate k J"
  using ring_rr.full_cycle [of "(tf, tc)" s J k] assms by (simp add: ring_loops_turns)

theorem ring_runs_every_task_witness:
  "\<exists>s'. ring_loops (\<lambda>f c. rec_job (FunJob f c)) (\<lambda>t. rec_job (ClassJob t)) 2 (demo_ring []) = okR s' \<and>
     taskring.more s' = [FunJob 400 7, ClassJob 300]"
  using ring_runs_every_task [OF rec_job_recording demo_position]
  by (simp add: demo_ring_def numeral_2_eq_2)

text \<open>
  Registering a task, either overload: a task that is not null is put at the
  head of the ring (result 0) and the cursor stays; a null task or exhausted memory gives -1
  and leaves the state as it is.
\<close>

lemma Register_spec:
  assumes "ring_rep s T"
  shows "\<exists>rc s'. Register j s = okR (rc, s') \<and>
    (if job_ptr j \<noteq> NULL \<and> pool s \<noteq> []
     then rc = 0 \<and> ring_rep s' ((hd (pool s), j) # T) \<and> pCur s' = pCur s \<and> taskring.more s' = taskring.more s
     else rc = -1 \<and> s' = s)"
proof (cases "job_ptr j \<noteq> NULL \<and> pool s \<noteq> []")
  case True
  then obtain p ps where "pool s = p # ps" by (cases "pool s") auto
  with Register_ring [OF assms, of p ps j] True show ?thesis by auto
next
  case False
  with Register_rejected [of s j] show ?thesis by auto
qed

lemma Register_spec_witness:
  "\<exists>s'. Register (ClassJob 500) (demo_ring ()) = okR (0, s') \<and> ring_rep s' ((48, ClassJob 500) # demo_jobs) \<and>
     Register (ClassJob 0) (demo_ring ()) = okR (-1, demo_ring ())"
  using Register_spec [of "demo_ring ()" demo_jobs "ClassJob 500"]
    Register_spec [of "demo_ring ()" demo_jobs "ClassJob 0"] demo_ring_at [of "()"]
  by (auto simp: ring_at_def demo_ring_def)

text \<open>
  Destroying a task does not take it out of the ring: the destructor calls
  \<open>DeregisterTaskHandler\<close>, which does nothing, and when the cursor is at the destroyed task,
  the next turn runs it.
\<close>

lemma destroyed_task_runs:
  assumes "recording_jobs tf tc" and "ring_position s J k" and "J \<noteq> []" and "J ! (k mod length J) = ClassJob t"
  shows "\<exists>s'. TaskRing_Loop tf tc (Task_destroy t s) = okR s' \<and>
    taskring.more s' = taskring.more s @ [ClassJob t]"
  using ring_rr.turn_law [of "(tf, tc)" s J k] assms
  by (auto simp: Task_destroy_def EventReceiver_destroy_def DeregisterTaskHandler_def)

lemma destroyed_task_runs_witness:
  "\<exists>s'. TaskRing_Loop (\<lambda>f c. rec_job (FunJob f c)) (\<lambda>t. rec_job (ClassJob t)) (Task_destroy 300 (demo_ring []\<lparr>pCur := 16\<rparr>)) =
     okR s' \<and> taskring.more s' = [ClassJob 300]"
proof -
  have "ring_position (demo_ring []\<lparr>pCur := 16\<rparr>) [ClassJob 300, FunJob 400 7] 0"
    unfolding ring_position_def
    by (intro exI [of _ demo_jobs] exI [of _ 0])
      (simp add: ring_at_def ring_rep_def heap_wf_def demo_ring_def demo_jobs_def)
  from destroyed_task_runs [OF rec_job_recording this, of 300] show ?thesis by (simp add: demo_ring_def)
qed

end
