(* ===== verification/Iic_Driver.thy ===== *)
theory Iic_Driver
  imports Kernel_Prelude
begin

text \<open>
  The polled two-wire driver (\<open>iic.cpp\<close>). The TWI peripheral of the ATmega328p is not
  part of the sources: its registers are operations of a record \<open>twi\<close>, the parameter
  \<open>T\<close> of every definition, over an arbitrary hardware state. \<open>twi_master\<close> states the
  documented behaviour of the peripheral over an abstract bus; under it the driver is
  shown to perform the abstract transactions \<open>bus_write\<close> and \<open>bus_read\<close>.
\<close>

section \<open>Registers\<close>

record 'hw twi =
  rd_TWCR :: "'hw \<Rightarrow> u8 \<times> 'hw"
  wr_TWCR :: "u8 \<Rightarrow> 'hw \<Rightarrow> 'hw"
  rd_TWSR :: "'hw \<Rightarrow> u8 \<times> 'hw"
  wr_TWSR :: "u8 \<Rightarrow> 'hw \<Rightarrow> 'hw"
  rd_TWDR :: "'hw \<Rightarrow> u8 \<times> 'hw"
  wr_TWDR :: "u8 \<Rightarrow> 'hw \<Rightarrow> 'hw"
  wr_TWBR :: "u8 \<Rightarrow> 'hw \<Rightarrow> 'hw"

text \<open>The bits of \<open>TWCR\<close> (positions 7, 6, 5, 4 and 2) as masks.\<close>

definition TWINT :: u8 where "TWINT = 0x80"

definition TWEA :: u8 where "TWEA = 0x40"

definition TWSTA :: u8 where "TWSTA = 0x20"

definition TWSTO :: u8 where "TWSTO = 0x10"

definition TWEN :: u8 where "TWEN = 0x04"

lemmas twcr_bits = TWINT_def TWEA_def TWSTA_def TWSTO_def TWEN_def

definition IIC_init :: "'hw twi \<Rightarrow> 'hw \<Rightarrow> 'hw" where
  "IIC_init T hw = wr_TWSR T 0x10 (wr_TWBR T 80 hw)"

text \<open>The two polling loops. They return only when the peripheral sets or clears the bit.\<close>

partial_function (option) wait_TWINT :: "'hw twi \<Rightarrow> 'hw \<Rightarrow> 'hw res" where
  "wait_TWINT T hw =
     (let (c, hw') = rd_TWCR T hw in
      if c AND TWINT = 0 then wait_TWINT T hw' else okR hw')"

partial_function (option) wait_TWSTO :: "'hw twi \<Rightarrow> 'hw \<Rightarrow> 'hw res" where
  "wait_TWSTO T hw =
     (let (c, hw') = rd_TWCR T hw in
      if c AND TWSTO \<noteq> 0 then wait_TWSTO T hw' else okR hw')"

section \<open>Writing\<close>

text \<open>
  The loop of \<open>IICWrite\<close> from index \<open>idx\<close>. Reading past the buffer and counting past
  the largest \<open>int\<close> are faults.
\<close>

function iic_send :: "'hw twi \<Rightarrow> u8 list \<Rightarrow> nat \<Rightarrow> nat \<Rightarrow> 'hw \<Rightarrow> (int \<times> 'hw) res" where
  "iic_send T dbytes n idx hw =
     (if idx < n then
        (if idx < length dbytes then
           bindR (wait_TWINT T (wr_TWCR T (TWINT OR TWEN) (wr_TWDR T (dbytes ! idx) hw))) (\<lambda>hw1.
           (let (st, hw2) = rd_TWSR T hw1 in
            if st AND 0xf8 \<noteq> 0x28 then okR (-2, hw2)
            else if int idx = INT_MAX then failR SignedOverflow
            else iic_send T dbytes n (Suc idx) hw2))
         else failR OutOfBounds)
      else okR (0, hw))"
  by pat_completeness auto
termination
  by (relation "measure (\<lambda>(T, dbytes, n, idx, hw). n - idx)") auto

declare iic_send.simps [simp del]

definition send_stop :: "'hw twi \<Rightarrow> 'hw \<Rightarrow> 'hw res" where
  "send_stop T hw = wait_TWSTO T (wr_TWCR T (TWINT OR TWEN OR TWSTO) hw)"

definition IICWrite :: "'hw twi \<Rightarrow> u8 \<Rightarrow> u8 list \<Rightarrow> u16 \<Rightarrow> 'hw \<Rightarrow> (int \<times> 'hw) res" where
  "IICWrite T addr dbytes nToSend hw =
     bindR (wait_TWINT T (wr_TWCR T (TWINT OR TWEN OR TWSTA) hw)) (\<lambda>hw1.
     (let (st, hw2) = rd_TWSR T hw1 in
      if st AND 0x08 \<noteq> 0 then
        bindR (wait_TWINT T (wr_TWCR T (TWINT OR TWEN) (wr_TWDR T (addr AND 0xfe) hw2))) (\<lambda>hw3.
        (let (st', hw4) = rd_TWSR T hw3 in
         bindR (if st' AND 0xf8 = 0x18 then iic_send T dbytes (unat nToSend) 0 hw4
                else okR (-2, hw4)) (\<lambda>(rc, hw5).
         bindR (send_stop T hw5) (\<lambda>hw6. okR (rc, hw6)))))
      else okR (-1, hw2)))"

section \<open>Reading\<close>

text \<open>The loop of \<open>IICRead\<close>: the buffer is written in place, byte by byte.\<close>

function iic_recv :: "'hw twi \<Rightarrow> nat \<Rightarrow> nat \<Rightarrow> u8 list \<Rightarrow> 'hw \<Rightarrow> (int \<times> u8 list \<times> 'hw) res" where
  "iic_recv T n idx dbytes hw =
     (if idx < n then
        bindR (wait_TWINT T (wr_TWCR T
            (if idx = n - 1 then TWINT OR TWEN else TWINT OR TWEN OR TWEA) hw)) (\<lambda>hw1.
        (let (st, hw2) = rd_TWSR T hw1;
             (good, hw3) = (if st AND 0xf8 = 0x50 then (True, hw2)
                            else let (st', hw') = rd_TWSR T hw2 in (st' AND 0xf8 = 0x58, hw')) in
         if good then
           (let (v, hw4) = rd_TWDR T hw3 in
            if idx < length dbytes then
              (if int idx = INT_MAX then failR SignedOverflow
               else iic_recv T n (Suc idx) (dbytes[idx := v]) hw4)
            else failR OutOfBounds)
         else okR (-2, dbytes, hw3)))
      else okR (0, dbytes, hw))"
  by pat_completeness auto
termination
  by (relation "measure (\<lambda>(T, n, idx, dbytes, hw). n - idx)") auto

declare iic_recv.simps [simp del]

definition IICRead :: "'hw twi \<Rightarrow> u8 \<Rightarrow> u8 list \<Rightarrow> u16 \<Rightarrow> 'hw \<Rightarrow> (int \<times> u8 list \<times> 'hw) res" where
  "IICRead T addr dbytes nToRecv hw =
     bindR (wait_TWINT T (wr_TWCR T (TWINT OR TWEN OR TWSTA) hw)) (\<lambda>hw1.
     (let (st, hw2) = rd_TWSR T hw1 in
      if st AND 0x08 \<noteq> 0 then
        bindR (wait_TWINT T (wr_TWCR T (TWINT OR TWEN) (wr_TWDR T (addr OR 0x01) hw2))) (\<lambda>hw3.
        (let (st', hw4) = rd_TWSR T hw3 in
         bindR (if st' AND 0xf8 = 0x40 then iic_recv T (unat nToRecv) 0 dbytes hw4
                else okR (-2, dbytes, hw4)) (\<lambda>(rc, dbytes', hw5).
         bindR (send_stop T hw5) (\<lambda>hw6. okR (rc, dbytes', hw6)))))
      else okR (-1, dbytes, hw2)))"

section \<open>The abstract bus\<close>

text \<open>
  The bus as the master sees it: a start condition that succeeds or not, address and data
  bytes that are acknowledged or not, received bytes, and a stop condition.
\<close>

record 'b bus =
  bstart :: "'b \<Rightarrow> bool \<times> 'b"
  baddr :: "u8 \<Rightarrow> 'b \<Rightarrow> bool \<times> 'b"
  bsend :: "u8 \<Rightarrow> 'b \<Rightarrow> bool \<times> 'b"
  brecv :: "bool \<Rightarrow> 'b \<Rightarrow> u8 \<times> 'b"
  bstop :: "'b \<Rightarrow> 'b"

fun bus_send :: "'b bus \<Rightarrow> u8 list \<Rightarrow> 'b \<Rightarrow> int \<times> 'b" where
  "bus_send B [] b = (0, b)"
| "bus_send B (d # ds) b = (let (ack, b1) = bsend B d b in
     if ack then bus_send B ds b1 else (-2, b1))"

text \<open>All bytes but the last are acknowledged by the master.\<close>

fun bus_recv :: "'b bus \<Rightarrow> nat \<Rightarrow> 'b \<Rightarrow> u8 list \<times> 'b" where
  "bus_recv B 0 b = ([], b)"
| "bus_recv B (Suc n) b = (let (v, b1) = brecv B (n \<noteq> 0) b; (vs, b2) = bus_recv B n b1 in (v # vs, b2))"

lemma length_bus_recv: "length (fst (bus_recv B n b)) = n"
  by (induction n arbitrary: b) (auto simp: split_beta Let_def)

definition bus_write :: "'b bus \<Rightarrow> u8 \<Rightarrow> u8 list \<Rightarrow> 'b \<Rightarrow> int \<times> 'b" where
  "bus_write B a ds b =
     (let (ok, b1) = bstart B b in
      if ok then
        (let (ack, b2) = baddr B (a AND 0xfe) b1;
             (rc, b3) = (if ack then bus_send B ds b2 else (-2, b2)) in (rc, bstop B b3))
      else (-1, b1))"

definition bus_read :: "'b bus \<Rightarrow> u8 \<Rightarrow> nat \<Rightarrow> 'b \<Rightarrow> int \<times> u8 list \<times> 'b" where
  "bus_read B a n b =
     (let (ok, b1) = bstart B b in
      if ok then
        (let (ack, b2) = baddr B (a OR 0x01) b1 in
         if ack then (let (vs, b3) = bus_recv B n b2 in (0, vs, bstop B b3))
         else (-2, [], bstop B b2))
      else (-1, [], b1))"

section \<open>The documented peripheral\<close>

datatype phase = Idle | Started | Transmit | Receive

text \<open>
  \<open>R ph st d hw b\<close>: the hardware state \<open>hw\<close> is in phase \<open>ph\<close> of a transaction on the
  bus \<open>b\<close>, with status code \<open>st\<close> and data register \<open>d\<close>. The laws are the status
  codes of the data sheet: 0x18/0x20 and 0x40/0x48 for an address byte, 0x28/0x30 for a
  transmitted byte, 0x50/0x58 for a received one, bit 3 after a start condition.
\<close>

type_synonym ('hw, 'b) twi_rel = "phase \<Rightarrow> u8 \<Rightarrow> u8 \<Rightarrow> 'hw \<Rightarrow> 'b \<Rightarrow> bool"

definition start_law :: "'hw twi \<Rightarrow> 'b bus \<Rightarrow> ('hw, 'b) twi_rel \<Rightarrow> bool" where
  "start_law T B R \<longleftrightarrow> (\<forall>st d hw b. R Idle st d hw b \<longrightarrow> (\<exists>hw' st' d'.
     wait_TWINT T (wr_TWCR T (TWINT OR TWEN OR TWSTA) hw) = okR hw' \<and>
     (st' AND 0x08 \<noteq> 0 \<longleftrightarrow> fst (bstart B b)) \<and>
     R (if fst (bstart B b) then Started else Idle) st' d' hw' (snd (bstart B b))))"

definition status_law :: "'hw twi \<Rightarrow> ('hw, 'b) twi_rel \<Rightarrow> bool" where
  "status_law T R \<longleftrightarrow> (\<forall>ph st d hw b. R ph st d hw b \<longrightarrow> (\<exists>v hw'.
     rd_TWSR T hw = (v, hw') \<and> v AND 0xf8 = st \<and> R ph st d hw' b))"

definition address_law :: "'hw twi \<Rightarrow> 'b bus \<Rightarrow> ('hw, 'b) twi_rel \<Rightarrow> bool" where
  "address_law T B R \<longleftrightarrow> (\<forall>a st d hw b. R Started st d hw b \<longrightarrow> (\<exists>hw' d'.
     wait_TWINT T (wr_TWCR T (TWINT OR TWEN) (wr_TWDR T a hw)) = okR hw' \<and>
     (if a AND 0x01 = 0
      then R Transmit (if fst (baddr B a b) then 0x18 else 0x20) d' hw' (snd (baddr B a b))
      else R Receive (if fst (baddr B a b) then 0x40 else 0x48) d' hw' (snd (baddr B a b)))))"

definition transmit_law :: "'hw twi \<Rightarrow> 'b bus \<Rightarrow> ('hw, 'b) twi_rel \<Rightarrow> bool" where
  "transmit_law T B R \<longleftrightarrow> (\<forall>v st d hw b. R Transmit st d hw b \<longrightarrow> (\<exists>hw' d'.
     wait_TWINT T (wr_TWCR T (TWINT OR TWEN) (wr_TWDR T v hw)) = okR hw' \<and>
     R Transmit (if fst (bsend B v b) then 0x28 else 0x30) d' hw' (snd (bsend B v b))))"

definition receive_law :: "'hw twi \<Rightarrow> 'b bus \<Rightarrow> ('hw, 'b) twi_rel \<Rightarrow> bool" where
  "receive_law T B R \<longleftrightarrow> (\<forall>ack st d hw b. R Receive st d hw b \<longrightarrow> (\<exists>hw'.
     wait_TWINT T (wr_TWCR T (if ack then TWINT OR TWEN OR TWEA else TWINT OR TWEN) hw) = okR hw' \<and>
     R Receive (if ack then 0x50 else 0x58) (fst (brecv B ack b)) hw' (snd (brecv B ack b))))"

definition data_law :: "'hw twi \<Rightarrow> ('hw, 'b) twi_rel \<Rightarrow> bool" where
  "data_law T R \<longleftrightarrow> (\<forall>st d hw b. R Receive st d hw b \<longrightarrow>
     (\<exists>hw'. rd_TWDR T hw = (d, hw') \<and> R Receive st d hw' b))"

definition stop_law :: "'hw twi \<Rightarrow> 'b bus \<Rightarrow> ('hw, 'b) twi_rel \<Rightarrow> bool" where
  "stop_law T B R \<longleftrightarrow> (\<forall>ph st d hw b. R ph st d hw b \<and> ph \<noteq> Idle \<longrightarrow> (\<exists>hw' st' d'.
     send_stop T hw = okR hw' \<and> R Idle st' d' hw' (bstop B b)))"

definition twi_master :: "'hw twi \<Rightarrow> 'b bus \<Rightarrow> ('hw, 'b) twi_rel \<Rightarrow> bool" where
  "twi_master T B R \<longleftrightarrow> start_law T B R \<and> status_law T R \<and> address_law T B R \<and>
     transmit_law T B R \<and> receive_law T B R \<and> data_law T R \<and> stop_law T B R"

lemma twi_start:
  assumes "twi_master T B R" and "R Idle st d hw b"
  obtains hw' st' d' where "wait_TWINT T (wr_TWCR T (TWINT OR TWEN OR TWSTA) hw) = okR hw'"
    "st' AND 0x08 \<noteq> 0 \<longleftrightarrow> fst (bstart B b)"
    "R (if fst (bstart B b) then Started else Idle) st' d' hw' (snd (bstart B b))"
  using assms by (fastforce simp: twi_master_def start_law_def)

lemma twi_status:
  assumes "twi_master T B R" and "R ph st d hw b"
  obtains v hw' where "rd_TWSR T hw = (v, hw')" "v AND 0xf8 = st" "R ph st d hw' b"
  using assms by (fastforce simp: twi_master_def status_law_def)

lemma twi_addr_w:
  assumes "twi_master T B R" and "R Started st d hw b" and "a AND 0x01 = 0"
  obtains hw' d' where "wait_TWINT T (wr_TWCR T (TWINT OR TWEN) (wr_TWDR T a hw)) = okR hw'"
    "R Transmit (if fst (baddr B a b) then 0x18 else 0x20) d' hw' (snd (baddr B a b))"
  using assms by (fastforce simp: twi_master_def address_law_def)

lemma twi_addr_r:
  assumes "twi_master T B R" and "R Started st d hw b" and "a AND 0x01 \<noteq> 0"
  obtains hw' d' where "wait_TWINT T (wr_TWCR T (TWINT OR TWEN) (wr_TWDR T a hw)) = okR hw'"
    "R Receive (if fst (baddr B a b) then 0x40 else 0x48) d' hw' (snd (baddr B a b))"
  using assms by (fastforce simp: twi_master_def address_law_def)

lemma twi_data:
  assumes "twi_master T B R" and "R Transmit st d hw b"
  obtains hw' d' where "wait_TWINT T (wr_TWCR T (TWINT OR TWEN) (wr_TWDR T v hw)) = okR hw'"
    "R Transmit (if fst (bsend B v b) then 0x28 else 0x30) d' hw' (snd (bsend B v b))"
  using assms by (fastforce simp: twi_master_def transmit_law_def)

lemma twi_ack:
  assumes "twi_master T B R" and "R Receive st d hw b"
  obtains hw' where
    "wait_TWINT T (wr_TWCR T (if ack then TWINT OR TWEN OR TWEA else TWINT OR TWEN) hw) = okR hw'"
    "R Receive (if ack then 0x50 else 0x58) (fst (brecv B ack b)) hw' (snd (brecv B ack b))"
  using assms by (fastforce simp: twi_master_def receive_law_def)

lemma twi_dr:
  assumes "twi_master T B R" and "R Receive st d hw b"
  obtains hw' where "rd_TWDR T hw = (d, hw')" "R Receive st d hw' b"
  using assms by (fastforce simp: twi_master_def data_law_def)

lemma twi_stop:
  assumes "twi_master T B R" and "R ph st d hw b" and "ph \<noteq> Idle"
  obtains hw' st' d' where "send_stop T hw = okR hw'" "R Idle st' d' hw' (bstop B b)"
  using assms by (fastforce simp: twi_master_def stop_law_def)

section \<open>The driver performs bus transactions\<close>

lemma start_bit: "v AND 0xf8 = st \<Longrightarrow> (v AND 0x08 = (0::u8)) \<longleftrightarrow> st AND 0x08 = 0"
proof -
  assume "v AND 0xf8 = st"
  then have "st AND 0x08 = v AND (0xf8 AND 0x08)" by (simp only: and.assoc flip: \<open>v AND 0xf8 = st\<close>)
  then show ?thesis by simp
qed

lemma iic_send_bus:
  assumes T: "twi_master T B R" and n: "n \<le> length ds" "n \<le> 32767"
  shows "idx \<le> n \<Longrightarrow> R Transmit st d hw b \<Longrightarrow>
     \<exists>hw' st' d'. iic_send T ds n idx hw = okR (fst (bus_send B (drop idx (take n ds)) b), hw') \<and>
       R Transmit st' d' hw' (snd (bus_send B (drop idx (take n ds)) b))"
proof (induction "n - idx" arbitrary: idx st d hw b)
  case 0
  then have "idx = n" by simp
  with 0 n show ?case by (subst iic_send.simps) auto
next
  case (Suc k)
  then have idx: "idx < n" by simp
  obtain hw1 d1 where 1: "wait_TWINT T (wr_TWCR T (TWINT OR TWEN) (wr_TWDR T (ds ! idx) hw)) = okR hw1"
      "R Transmit (if fst (bsend B (ds ! idx) b) then 0x28 else 0x30) d1 hw1 (snd (bsend B (ds ! idx) b))"
    using twi_data [OF T Suc.prems(2)] by blast
  obtain v hw2 where 2: "rd_TWSR T hw1 = (v, hw2)"
      "v AND 0xf8 = (if fst (bsend B (ds ! idx) b) then 0x28 else 0x30)"
      "R Transmit (if fst (bsend B (ds ! idx) b) then 0x28 else 0x30) d1 hw2 (snd (bsend B (ds ! idx) b))"
    using twi_status [OF T 1(2)] by blast
  have drop: "drop idx (take n ds) = ds ! idx # drop (Suc idx) (take n ds)"
    using idx n(1) by (metis Cons_nth_drop_Suc length_take min.absorb2 nth_take)
  show ?case
  proof (cases "fst (bsend B (ds ! idx) b)")
    case True
    have "iic_send T ds n idx hw = iic_send T ds n (Suc idx) hw2"
      using idx n 1(1) 2(1,2) True by (subst iic_send.simps) simp
    with Suc.hyps(1) [of "Suc idx", OF _ _ 2(3)] Suc.hyps(2) idx True show ?thesis
      by (simp add: drop split_beta)
  next
    case False
    have "iic_send T ds n idx hw = okR (-2, hw2)"
      using idx n 1(1) 2(1,2) False by (subst iic_send.simps) simp
    with 2(3) False show ?thesis by (auto simp add: drop split_beta)
  qed
qed

text \<open>Both transfers begin alike: a start condition and its status.\<close>

lemma start_status:
  assumes T: "twi_master T B R" and R: "R Idle st d hw b"
  obtains hw1 v hw2 st' d' where "wait_TWINT T (wr_TWCR T (TWINT OR TWEN OR TWSTA) hw) = okR hw1"
    "rd_TWSR T hw1 = (v, hw2)" "v AND 0x08 \<noteq> 0 \<longleftrightarrow> fst (bstart B b)"
    "R (if fst (bstart B b) then Started else Idle) st' d' hw2 (snd (bstart B b))"
proof -
  obtain hw1 st1 d1 where 1: "wait_TWINT T (wr_TWCR T (TWINT OR TWEN OR TWSTA) hw) = okR hw1"
      "st1 AND 0x08 \<noteq> 0 \<longleftrightarrow> fst (bstart B b)"
      "R (if fst (bstart B b) then Started else Idle) st1 d1 hw1 (snd (bstart B b))"
    using twi_start [OF T R] .
  obtain v hw2 where 2: "rd_TWSR T hw1 = (v, hw2)" "v AND 0xf8 = st1"
      "R (if fst (bstart B b) then Started else Idle) st1 d1 hw2 (snd (bstart B b))"
    using twi_status [OF T 1(3)] .
  show ?thesis using that [OF 1(1) 2(1) _ 2(3)] start_bit [OF 2(2)] 1(2) by simp
qed

text \<open>A transmission: address byte, data bytes while they are acknowledged, stop.\<close>

lemma transmit_bus:
  assumes T: "twi_master T B R" and R: "R Started st d hw b"
    and n: "n \<le> length ds" "n \<le> 32767" and a: "a AND 0x01 = 0"
  defines "r \<equiv> (if fst (baddr B a b) then bus_send B (take n ds) (snd (baddr B a b))
                else (-2, snd (baddr B a b)))"
  obtains hw3 v hw4 hw5 hw6 st' d' where
    "wait_TWINT T (wr_TWCR T (TWINT OR TWEN) (wr_TWDR T a hw)) = okR hw3" "rd_TWSR T hw3 = (v, hw4)"
    "(if v AND 0xf8 = 0x18 then iic_send T ds n 0 hw4 else okR (-2, hw4)) = okR (fst r, hw5)"
    "send_stop T hw5 = okR hw6" "R Idle st' d' hw6 (bstop B (snd r))"
proof -
  obtain hw3 d3 where 3: "wait_TWINT T (wr_TWCR T (TWINT OR TWEN) (wr_TWDR T a hw)) = okR hw3"
      "R Transmit (if fst (baddr B a b) then 0x18 else 0x20) d3 hw3 (snd (baddr B a b))"
    using twi_addr_w [OF T R a] .
  obtain v hw4 where 4: "rd_TWSR T hw3 = (v, hw4)" "v AND 0xf8 = (if fst (baddr B a b) then 0x18 else 0x20)"
      "R Transmit (if fst (baddr B a b) then 0x18 else 0x20) d3 hw4 (snd (baddr B a b))"
    using twi_status [OF T 3(2)] .
  have "\<exists>hw5 st5 d5. (if v AND 0xf8 = 0x18 then iic_send T ds n 0 hw4 else okR (-2, hw4))
      = okR (fst r, hw5) \<and> R Transmit st5 d5 hw5 (snd r)"
    using iic_send_bus [OF T n, of 0, OF _ 4(3)] 4(2,3) by (cases "fst (baddr B a b)") (auto simp: r_def)
  then obtain hw5 st5 d5 where 5: "(if v AND 0xf8 = 0x18 then iic_send T ds n 0 hw4 else okR (-2, hw4))
      = okR (fst r, hw5)" "R Transmit st5 d5 hw5 (snd r)" by blast
  obtain hw6 st6 d6 where "send_stop T hw5 = okR hw6" "R Idle st6 d6 hw6 (bstop B (snd r))"
    using twi_stop [OF T 5(2)] by blast
  with that 3(1) 4(1) 5(1) show ?thesis by blast
qed

lemma IICWrite_bus:
  assumes T: "twi_master T B R" and R: "R Idle st d hw b"
    and n: "unat n \<le> length ds" "unat n \<le> 32767"
  shows "\<exists>hw' st' d'. IICWrite T a ds n hw = okR (fst (bus_write B a (take (unat n) ds) b), hw') \<and>
           R Idle st' d' hw' (snd (bus_write B a (take (unat n) ds) b))"
proof -
  obtain hw1 v hw2 st1 d1 where 1: "wait_TWINT T (wr_TWCR T (TWINT OR TWEN OR TWSTA) hw) = okR hw1"
      "rd_TWSR T hw1 = (v, hw2)" "v AND 0x08 \<noteq> 0 \<longleftrightarrow> fst (bstart B b)"
      "R (if fst (bstart B b) then Started else Idle) st1 d1 hw2 (snd (bstart B b))"
    using start_status [OF T R] .
  show ?thesis
  proof (cases "fst (bstart B b)")
    case False
    with 1 have "IICWrite T a ds n hw = okR (-1, hw2)" by (simp add: IICWrite_def)
    with False 1(4) show ?thesis by (auto simp: bus_write_def split_beta)
  next
    case True
    let ?b = "snd (bstart B b)" and ?a = "a AND 0xfe"
    have R1: "R Started st1 d1 hw2 ?b" using 1(4) True by simp
    have a: "?a AND 0x01 = 0" by (simp add: and.assoc)
    define r where "r = (if fst (baddr B ?a ?b) then bus_send B (take (unat n) ds) (snd (baddr B ?a ?b))
      else (-2, snd (baddr B ?a ?b)))"
    obtain hw3 v' hw4 hw5 hw6 st' d' where
      "wait_TWINT T (wr_TWCR T (TWINT OR TWEN) (wr_TWDR T ?a hw2)) = okR hw3" "rd_TWSR T hw3 = (v', hw4)"
      "(if v' AND 0xf8 = 0x18 then iic_send T ds (unat n) 0 hw4 else okR (-2, hw4)) = okR (fst r, hw5)"
      "send_stop T hw5 = okR hw6" "R Idle st' d' hw6 (bstop B (snd r))"
      using transmit_bus [OF T R1 n a, folded r_def] .
    moreover from this 1 True have "IICWrite T a ds n hw = okR (fst r, hw6)"
      by (simp add: IICWrite_def del: split_paired_All)
    moreover have "bus_write B a (take (unat n) ds) b = (fst r, bstop B (snd r))"
      using True by (simp add: bus_write_def split_beta r_def)
    ultimately show ?thesis by auto
  qed
qed

text \<open>A reception: every byte is stored, all but the last are acknowledged.\<close>

lemma iic_recv_step:
  assumes T: "twi_master T B R" and R: "R Receive st d hw b"
    and idx: "idx < n" "n \<le> length buf" "n \<le> 32767"
  defines "ack \<equiv> idx \<noteq> n - 1"
  shows "\<exists>hw' st'. iic_recv T n idx buf hw =
             iic_recv T n (Suc idx) (buf[idx := fst (brecv B ack b)]) hw' \<and>
           R Receive st' (fst (brecv B ack b)) hw' (snd (brecv B ack b))"
proof -
  let ?d = "fst (brecv B ack b)" and ?b = "snd (brecv B ack b)"
  let ?st = "if ack then 0x50 else 0x58 :: u8"
  obtain hw1 where 1: "wait_TWINT T (wr_TWCR T (if ack then TWINT OR TWEN OR TWEA else TWINT OR TWEN) hw)
      = okR hw1" "R Receive ?st ?d hw1 ?b"
    using twi_ack [OF T R] .
  obtain v hw2 where 2: "rd_TWSR T hw1 = (v, hw2)" "v AND 0xf8 = ?st" "R Receive ?st ?d hw2 ?b"
    using twi_status [OF T 1(2)] .
  obtain v' hw3 where 3: "rd_TWSR T hw2 = (v', hw3)" "v' AND 0xf8 = ?st" "R Receive ?st ?d hw3 ?b"
    using twi_status [OF T 2(3)] .
  define hw4 where "hw4 = (if ack then hw2 else hw3)"
  have R4: "R Receive ?st ?d hw4 ?b" using 2(3) 3(3) by (cases ack) (simp_all add: hw4_def)
  obtain hw5 where 5: "rd_TWDR T hw4 = (?d, hw5)" "R Receive ?st ?d hw5 ?b"
    using twi_dr [OF T R4] .
  have c: "(if idx = n - 1 then TWINT OR TWEN else TWINT OR TWEN OR TWEA) =
      (if ack then TWINT OR TWEN OR TWEA else TWINT OR TWEN)" by (simp add: ack_def)
  have "iic_recv T n idx buf hw = iic_recv T n (Suc idx) (buf[idx := ?d]) hw5"
    using idx 2(1,2) 3(1,2) 5(1) 1(1)
    by (subst iic_recv.simps, unfold c) (cases ack; simp add: hw4_def)
  with 5(2) show ?thesis by blast
qed

lemma iic_recv_bus:
  assumes T: "twi_master T B R" and n: "n \<le> 32767"
  shows "idx \<le> n \<Longrightarrow> n \<le> length buf \<Longrightarrow> R Receive st d hw b \<Longrightarrow>
     \<exists>hw' st' d'. iic_recv T n idx buf hw =
         okR (0, take idx buf @ fst (bus_recv B (n - idx) b) @ drop n buf, hw') \<and>
       R Receive st' d' hw' (snd (bus_recv B (n - idx) b))"
proof (induction "n - idx" arbitrary: idx st d hw b buf)
  case 0
  then have "idx = n" by simp
  with 0 show ?case by (subst iic_recv.simps) auto
next
  case (Suc k)
  then have idx: "idx < n" by simp
  let ?ack = "idx \<noteq> n - 1"
  obtain hw1 st1 where 1: "iic_recv T n idx buf hw =
      iic_recv T n (Suc idx) (buf[idx := fst (brecv B ?ack b)]) hw1"
      "R Receive st1 (fst (brecv B ?ack b)) hw1 (snd (brecv B ?ack b))"
    using iic_recv_step [OF T Suc.prems(3) idx Suc.prems(2) n] by blast
  let ?r = "bus_recv B (n - Suc idx) (snd (brecv B ?ack b))"
  obtain hw' st' d' where 2: "iic_recv T n (Suc idx) (buf[idx := fst (brecv B ?ack b)]) hw1 =
      okR (0, take (Suc idx) (buf[idx := fst (brecv B ?ack b)]) @ fst ?r @
        drop n (buf[idx := fst (brecv B ?ack b)]), hw')" "R Receive st' d' hw' (snd ?r)"
    using Suc.hyps(1) [where idx = "Suc idx" and buf = "buf[idx := fst (brecv B ?ack b)]", OF _ _ _ 1(2)]
      Suc.hyps(2) idx Suc.prems(2) by fastforce
  have e: "n - idx = Suc (n - Suc idx)" "n - Suc idx \<noteq> 0 \<longleftrightarrow> ?ack" using idx by auto
  have "bus_recv B (n - idx) b = (fst (brecv B ?ack b) # fst ?r, snd ?r)"
    unfolding e(1) using e(2) by (simp add: split_beta)
  moreover have "take (Suc idx) (buf[idx := fst (brecv B ?ack b)]) =
      take idx buf @ [fst (brecv B ?ack b)]"
    using idx Suc.prems(2) by (simp add: take_Suc_conv_app_nth)
  ultimately show ?case using 1(1) 2 idx by auto
qed

lemma IICRead_bus:
  assumes T: "twi_master T B R" and R: "R Idle st d hw b"
    and n: "unat n \<le> length buf" "unat n \<le> 32767"
  shows "\<exists>hw' st' d' rc vs b'. bus_read B a (unat n) b = (rc, vs, b') \<and>
           IICRead T a buf n hw = okR (rc, vs @ drop (length vs) buf, hw') \<and> R Idle st' d' hw' b'"
proof -
  obtain hw1 v hw2 st1 d1 where 1: "wait_TWINT T (wr_TWCR T (TWINT OR TWEN OR TWSTA) hw) = okR hw1"
      "rd_TWSR T hw1 = (v, hw2)" "v AND 0x08 \<noteq> 0 \<longleftrightarrow> fst (bstart B b)"
      "R (if fst (bstart B b) then Started else Idle) st1 d1 hw2 (snd (bstart B b))"
    using start_status [OF T R] .
  show ?thesis
  proof (cases "fst (bstart B b)")
    case False
    with 1 have "IICRead T a buf n hw = okR (-1, buf, hw2)" by (simp add: IICRead_def)
    with False 1(4) show ?thesis by (auto simp: bus_read_def split_beta)
  next
    case True
    let ?b = "snd (bstart B b)" and ?a = "a OR 0x01"
    let ?r = "bus_recv B (unat n) (snd (baddr B ?a ?b))"
    have a: "?a AND 0x01 \<noteq> 0" by (simp add: bit.conj_disj_distrib2 or_eq_0_iff)
    obtain hw3 d3 where 3: "wait_TWINT T (wr_TWCR T (TWINT OR TWEN) (wr_TWDR T ?a hw2)) = okR hw3"
        "R Receive (if fst (baddr B ?a ?b) then 0x40 else 0x48) d3 hw3 (snd (baddr B ?a ?b))"
      using twi_addr_r [OF T _ a, of st1 d1 hw2 ?b] 1(4) True by auto
    obtain v' hw4 where 4: "rd_TWSR T hw3 = (v', hw4)"
        "v' AND 0xf8 = (if fst (baddr B ?a ?b) then 0x40 else 0x48)"
        "R Receive (if fst (baddr B ?a ?b) then 0x40 else 0x48) d3 hw4 (snd (baddr B ?a ?b))"
      using twi_status [OF T 3(2)] .
    define r where "r = (if fst (baddr B ?a ?b) then (0, fst ?r, snd ?r)
      else (-2 :: int, [], snd (baddr B ?a ?b)))"
    have "\<exists>hw5 st5 d5. (if v' AND 0xf8 = 0x40 then iic_recv T (unat n) 0 buf hw4 else okR (-2, buf, hw4))
        = okR (fst r, fst (snd r) @ drop (length (fst (snd r))) buf, hw5) \<and>
        R Receive st5 d5 hw5 (snd (snd r))"
      using iic_recv_bus [OF T n(2), of 0, OF _ n(1) 4(3)] 4(2,3) length_bus_recv [of B "unat n"]
      by (cases "fst (baddr B ?a ?b)") (auto simp: r_def)
    then obtain hw5 st5 d5 where 5: "(if v' AND 0xf8 = 0x40 then iic_recv T (unat n) 0 buf hw4
        else okR (-2, buf, hw4)) = okR (fst r, fst (snd r) @ drop (length (fst (snd r))) buf, hw5)"
        "R Receive st5 d5 hw5 (snd (snd r))" by blast
    obtain hw6 st6 d6 where 6: "send_stop T hw5 = okR hw6" "R Idle st6 d6 hw6 (bstop B (snd (snd r)))"
      using twi_stop [OF T 5(2)] by blast
    have "IICRead T a buf n hw = okR (fst r, fst (snd r) @ drop (length (fst (snd r))) buf, hw6)"
      using 1 True 3(1) 4(1) 5(1) 6(1) by (simp add: IICRead_def)
    moreover have "bus_read B a (unat n) b = (fst r, fst (snd r), bstop B (snd (snd r)))"
      using True by (simp add: bus_read_def split_beta r_def)
    ultimately show ?thesis using 6(2) by auto
  qed
qed

section \<open>The driver as an interface\<close>

text \<open>
  What the users of the driver rely on, for any peripheral that behaves as documented: a
  write and a read are transactions on the bus.
\<close>

locale iic_driver =
  fixes wr :: "'hw twi \<Rightarrow> u8 \<Rightarrow> u8 list \<Rightarrow> u16 \<Rightarrow> 'hw \<Rightarrow> (int \<times> 'hw) res"
    and rd :: "'hw twi \<Rightarrow> u8 \<Rightarrow> u8 list \<Rightarrow> u16 \<Rightarrow> 'hw \<Rightarrow> (int \<times> u8 list \<times> 'hw) res"
    and bus_type :: "'b itself"
  assumes write_law: "twi_master T (B :: 'b bus) R \<Longrightarrow> R Idle st d hw b \<Longrightarrow>
      unat n \<le> length ds \<Longrightarrow> unat n \<le> 32767 \<Longrightarrow>
      \<exists>hw' st' d'. wr T a ds n hw = okR (fst (bus_write B a (take (unat n) ds) b), hw') \<and>
        R Idle st' d' hw' (snd (bus_write B a (take (unat n) ds) b))"
    and read_law: "twi_master T (B :: 'b bus) R \<Longrightarrow> R Idle st d hw b \<Longrightarrow>
      unat n \<le> length buf \<Longrightarrow> unat n \<le> 32767 \<Longrightarrow>
      \<exists>hw' st' d' rc vs b'. bus_read B a (unat n) b = (rc, vs, b') \<and>
        rd T a buf n hw = okR (rc, vs @ drop (length vs) buf, hw') \<and> R Idle st' d' hw' b'"
begin

text \<open>
  The pattern every user follows to read a device: write the address inside the device, then
  read, whatever the write returned.
\<close>

lemma write_then_read:
  assumes "twi_master T (B :: 'b bus) R" "R Idle st d hw b"
    "unat n \<le> length ds" "unat n \<le> 32767" "unat k \<le> length buf" "unat k \<le> 32767"
  shows "\<exists>hw1 hw2 st' d' rc vs b'.
      wr T a ds n hw = okR (fst (bus_write B a (take (unat n) ds) b), hw1) \<and>
      bus_read B a (unat k) (snd (bus_write B a (take (unat n) ds) b)) = (rc, vs, b') \<and>
      rd T a buf k hw1 = okR (rc, vs @ drop (length vs) buf, hw2) \<and> R Idle st' d' hw2 b'"
proof -
  obtain hw1 st1 d1 where 1: "wr T a ds n hw = okR (fst (bus_write B a (take (unat n) ds) b), hw1)"
      "R Idle st1 d1 hw1 (snd (bus_write B a (take (unat n) ds) b))"
    using write_law [OF assms(1-4)] by blast
  with read_law [OF assms(1) 1(2) assms(5,6), of a] show ?thesis by blast
qed

end

interpretation iic: iic_driver IICWrite IICRead "TYPE('b)"
  by unfold_locales (rule IICWrite_bus IICRead_bus; assumption)+

section \<open>A peripheral that never answers\<close>

lemma wait_TWINT_hangs:
  assumes "\<And>hw. fst (rd_TWCR T hw) AND TWINT = 0"
  shows "wait_TWINT T hw = None"
proof (rule ccontr)
  assume "wait_TWINT T hw \<noteq> None"
  then obtain r where r: "wait_TWINT T hw = Some r" by blast
  have "T' = T \<longrightarrow> False" if "wait_TWINT T' hw' = Some r'" for T' hw' r'
  proof (rule wait_TWINT.raw_induct [where P = "\<lambda>T' hw' r'. T' = T \<longrightarrow> False", OF _ that])
    fix f and T' :: "'a twi" and hw' r'
    assume IH: "\<And>T' hw' r'. f T' hw' = Some r' \<Longrightarrow> T' = T \<longrightarrow> False"
      and step: "(let (c, hw'') = rd_TWCR T' hw' in
        if c AND TWINT = 0 then f T' hw'' else okR hw'') = Some r'"
    show "T' = T \<longrightarrow> False"
    proof
      assume "T' = T"
      with step assms [of hw'] have "f T (snd (rd_TWCR T hw')) = Some r'" by (simp add: split_beta)
      from IH [OF this] show False by simp
    qed
  qed
  with r show False by blast
qed

section \<open>A concrete peripheral\<close>

text \<open>
  A peripheral with the documented behaviour, over any bus: every operation completes after
  \<open>k\<close> polls of \<open>TWCR\<close>. It shows that \<open>twi_master\<close> can hold.
\<close>

record 'b simtwi =
  sm_phase :: phase
  sm_status :: u8
  sm_data :: u8
  sm_bus :: 'b
  sm_busy :: nat
  sm_stop :: bool

definition sim_TWCR :: "nat \<Rightarrow> 'b bus \<Rightarrow> u8 \<Rightarrow> 'b simtwi \<Rightarrow> 'b simtwi" where
  "sim_TWCR k B c hw =
     (let w = hw\<lparr>sm_busy := k, sm_stop := (c AND TWSTO \<noteq> 0)\<rparr>; b = sm_bus hw; d = sm_data hw in
      if c AND TWSTA \<noteq> 0 then
        w\<lparr>sm_phase := (if fst (bstart B b) then Started else Idle),
          sm_status := (if fst (bstart B b) then 0x08 else 0), sm_bus := snd (bstart B b)\<rparr>
      else if c AND TWSTO \<noteq> 0 then w\<lparr>sm_phase := Idle, sm_status := 0xf8, sm_bus := bstop B b\<rparr>
      else case sm_phase hw of
        Idle \<Rightarrow> w
      | Started \<Rightarrow> w\<lparr>sm_phase := (if d AND 0x01 = 0 then Transmit else Receive),
          sm_status := (if d AND 0x01 = 0 then (if fst (baddr B d b) then 0x18 else 0x20)
                        else (if fst (baddr B d b) then 0x40 else 0x48)),
          sm_bus := snd (baddr B d b)\<rparr>
      | Transmit \<Rightarrow> w\<lparr>sm_status := (if fst (bsend B d b) then 0x28 else 0x30),
          sm_bus := snd (bsend B d b)\<rparr>
      | Receive \<Rightarrow> w\<lparr>sm_status := (if c AND TWEA \<noteq> 0 then 0x50 else 0x58),
          sm_data := fst (brecv B (c AND TWEA \<noteq> 0) b), sm_bus := snd (brecv B (c AND TWEA \<noteq> 0) b)\<rparr>)"

definition sim_twi :: "nat \<Rightarrow> 'b bus \<Rightarrow> ('b simtwi) twi" where
  "sim_twi k B = \<lparr>
     rd_TWCR = (\<lambda>hw. (if sm_busy hw = 0 then (if sm_stop hw then 0 else TWINT)
                       else (if sm_stop hw then TWSTO else 0), hw\<lparr>sm_busy := sm_busy hw - 1\<rparr>)),
     wr_TWCR = sim_TWCR k B,
     rd_TWSR = (\<lambda>hw. (sm_status hw, hw)),
     wr_TWSR = (\<lambda>v hw. hw),
     rd_TWDR = (\<lambda>hw. (sm_data hw, hw)),
     wr_TWDR = (\<lambda>v hw. hw\<lparr>sm_data := v\<rparr>),
     wr_TWBR = (\<lambda>v hw. hw)\<rparr>"

definition sim_rel :: "phase \<Rightarrow> u8 \<Rightarrow> u8 \<Rightarrow> 'b simtwi \<Rightarrow> 'b \<Rightarrow> bool" where
  "sim_rel ph st d hw b \<longleftrightarrow> sm_phase hw = ph \<and> sm_status hw = st \<and> sm_data hw = d \<and>
     sm_bus hw = b \<and> st AND 0xf8 = st"

lemma sim_wait:
  "\<not> sm_stop hw \<Longrightarrow> wait_TWINT (sim_twi k B) hw = okR (hw\<lparr>sm_busy := 0\<rparr>)"
  "sm_stop hw \<Longrightarrow> wait_TWSTO (sim_twi k B) hw = okR (hw\<lparr>sm_busy := 0\<rparr>)"
  by (induction "sm_busy hw" arbitrary: hw; subst wait_TWINT.simps wait_TWSTO.simps;
      simp add: sim_twi_def twcr_bits)+

lemma sim_fields [simp]:
  "wr_TWCR (sim_twi k B) = sim_TWCR k B" "rd_TWSR (sim_twi k B) hw = (sm_status hw, hw)"
  "rd_TWDR (sim_twi k B) hw = (sm_data hw, hw)" "wr_TWDR (sim_twi k B) v hw = hw\<lparr>sm_data := v\<rparr>"
  by (simp_all add: sim_twi_def)

lemma sim_twi_master: "twi_master (sim_twi k B) B sim_rel"
  unfolding twi_master_def
proof (intro conjI)
  show "start_law (sim_twi k B) B sim_rel"
    by (simp add: start_law_def sim_rel_def sim_wait sim_TWCR_def twcr_bits Let_def)
  show "status_law (sim_twi k B) sim_rel" by (simp add: status_law_def sim_rel_def)
  show "address_law (sim_twi k B) B sim_rel"
    by (simp add: address_law_def sim_rel_def sim_wait sim_TWCR_def twcr_bits Let_def)
  show "transmit_law (sim_twi k B) B sim_rel"
    by (simp add: transmit_law_def sim_rel_def sim_wait sim_TWCR_def twcr_bits Let_def)
  show "receive_law (sim_twi k B) B sim_rel"
    by (simp add: receive_law_def sim_rel_def sim_wait sim_TWCR_def twcr_bits Let_def)
  show "data_law (sim_twi k B) sim_rel" by (simp add: data_law_def sim_rel_def)
  show "stop_law (sim_twi k B) B sim_rel"
    by (simp add: stop_law_def send_stop_def sim_rel_def sim_wait sim_TWCR_def twcr_bits Let_def)
qed

section \<open>A concrete bus\<close>

text \<open>A device that remembers what it is sent and gives it back, oldest byte first.\<close>

definition echo_bus :: "u8 \<Rightarrow> (u8 list) bus" where
  "echo_bus a = \<lparr>bstart = (\<lambda>b. (True, b)), baddr = (\<lambda>v b. (v AND 0xfe = a, b)),
     bsend = (\<lambda>v b. (True, b @ [v])),
     brecv = (\<lambda>ack b. (case b of [] \<Rightarrow> (0xff, []) | v # vs \<Rightarrow> (v, vs))), bstop = (\<lambda>b. b)\<rparr>"

definition sim_idle :: "'b \<Rightarrow> 'b simtwi" where
  "sim_idle b = \<lparr>sm_phase = Idle, sm_status = 0xf8, sm_data = 0, sm_bus = b, sm_busy = 0, sm_stop = False\<rparr>"

lemma sim_idle_rel: "sim_rel Idle 0xf8 0 (sim_idle b) b"
  by (simp add: sim_rel_def sim_idle_def)

section \<open>Properties of the driver\<close>

text \<open>
  Property C13. On a peripheral that behaves as documented, \<open>IICWrite\<close> returns and performs
  exactly one write transaction on the bus: start, address with the write bit, the bytes up
  to the first one that is not acknowledged, stop. The result is 0 when all were
  acknowledged, -2 when the device did not acknowledge, -1 when the start failed, and the
  peripheral is idle again.
\<close>

theorem IICWrite_transaction:
  assumes "twi_master T B R" and "R Idle st d hw b" and "unat n \<le> length ds" and "unat n \<le> 32767"
  shows "\<exists>hw' st' d'. IICWrite T a ds n hw = okR (fst (bus_write B a (take (unat n) ds) b), hw') \<and>
    R Idle st' d' hw' (snd (bus_write B a (take (unat n) ds) b))"
  using IICWrite_bus [OF assms] .

theorem IICWrite_transaction_witness:
  "\<exists>hw'. IICWrite (sim_twi 3 (echo_bus 0xDE)) 0xDE [0, 7, 9] 2 (sim_idle []) = okR (0, hw') \<and> sm_bus hw' = [0, 7]"
proof -
  have "bus_write (echo_bus 0xDE) 0xDE (take (unat (2 :: u16)) [0, 7, 9]) [] = (0, [0, 7])"
    by code_simp
  moreover have "unat (2 :: u16) \<le> length [0, 7, 9 :: u8]" "unat (2 :: u16) \<le> 32767" by simp_all
  from IICWrite_transaction [where R = sim_rel and a = "0xDE",
      OF sim_twi_master [of 3 "echo_bus 0xDE"] sim_idle_rel [of "[]"] this]
  obtain hw' st' d' where "IICWrite (sim_twi 3 (echo_bus 0xDE)) 0xDE [0, 7, 9] 2 (sim_idle []) =
      okR (fst (bus_write (echo_bus 0xDE) 0xDE (take (unat (2 :: u16)) [0, 7, 9]) []), hw')"
    "sim_rel Idle st' d' hw' (snd (bus_write (echo_bus 0xDE) 0xDE (take (unat (2 :: u16)) [0, 7, 9]) []))" by blast
  ultimately show ?thesis unfolding sim_rel_def by (intro exI [of _ hw']) (simp only: fst_conv snd_conv simp_thms)
qed

text \<open>
  Property C23. On a peripheral that behaves as documented, \<open>IICRead\<close> returns and performs
  exactly one read transaction: all bytes but the last are acknowledged, the received bytes
  are stored from the start of the buffer and the rest of the buffer is untouched; when the
  device does not answer, the whole buffer is untouched.
\<close>

theorem IICRead_transaction:
  assumes "twi_master T B R" and "R Idle st d hw b" and "unat n \<le> length buf" and "unat n \<le> 32767"
  shows "\<exists>hw' st' d' rc vs b'. bus_read B a (unat n) b = (rc, vs, b') \<and>
    IICRead T a buf n hw = okR (rc, vs @ drop (length vs) buf, hw') \<and> R Idle st' d' hw' b'"
  using IICRead_bus [OF assms] .

theorem IICRead_transaction_witness:
  "\<exists>hw'. IICRead (sim_twi 3 (echo_bus 0xDE)) 0xDE [1, 1, 1] 2 (sim_idle [5, 6, 7]) = okR (0, [5, 6, 1], hw')"
proof -
  have "bus_recv (echo_bus 0xDE) (Suc (Suc 0)) [5, 6, 7] = ([5, 6], [7])"
    by (simp add: echo_bus_def)
  moreover have "baddr (echo_bus 0xDE) (0xDE OR 0x01) b = (True, b)" "bstart (echo_bus 0xDE) b = (True, b)"
    "bstop (echo_bus 0xDE) b = b" for b by (simp_all add: echo_bus_def)
  moreover have "unat (2 :: u16) = Suc (Suc 0)" by simp
  ultimately have r: "bus_read (echo_bus 0xDE) 0xDE (unat (2 :: u16)) [5, 6, 7] = (0, [5, 6], [7])"
    by (simp only: bus_read_def Let_def prod.case if_True)
  have "unat (2 :: u16) \<le> length [1, 1, 1 :: u8]" "unat (2 :: u16) \<le> 32767" by simp_all
  from IICRead_transaction [where R = sim_rel and a = "0xDE",
      OF sim_twi_master [of 3 "echo_bus 0xDE"] sim_idle_rel [of "[5, 6, 7]"] this]
  obtain hw' st' d' rc vs b' where hw': "bus_read (echo_bus 0xDE) 0xDE (unat (2 :: u16)) [5, 6, 7] = (rc, vs, b')"
    "IICRead (sim_twi 3 (echo_bus 0xDE)) 0xDE [1, 1, 1] 2 (sim_idle [5, 6, 7]) =
      okR (rc, vs @ drop (length vs) [1, 1, 1], hw')" by (elim exE conjE)
  have e: "rc = 0" "vs = [5, 6]" using hw'(1) unfolding r by simp_all
  have "IICRead (sim_twi 3 (echo_bus 0xDE)) 0xDE [1, 1, 1] 2 (sim_idle [5, 6, 7]) = okR (0, [5, 6, 1], hw')"
    using hw'(2) unfolding e by (simp only: append_Cons append_Nil list.size drop_Suc_Cons drop_0 add_0 One_nat_def add_Suc_right add_0_right)
  then show ?thesis by (rule exI)
qed

text \<open>
  The driver has no timeout: on a peripheral that never sets \<open>TWINT\<close> neither a
  write nor a read returns.
\<close>

lemma driver_hangs:
  assumes "\<And>hw. fst (rd_TWCR T hw) AND TWINT = 0"
  shows "IICWrite T a ds n hw = None \<and> IICRead T a buf k hw = None"
  using wait_TWINT_hangs [OF assms] by (simp add: IICWrite_def IICRead_def)

lemma driver_hangs_witness:
  "IICWrite ((sim_twi 0 (echo_bus 0xDE))\<lparr>rd_TWCR := \<lambda>hw. (0, hw)\<rparr>) 0xDE [1] 1 (sim_idle []) = None \<and>
   IICRead ((sim_twi 0 (echo_bus 0xDE))\<lparr>rd_TWCR := \<lambda>hw. (0, hw)\<rparr>) 0xDE [1] 1 (sim_idle []) = None"
  by (rule driver_hangs) simp

end
