(* ===== verification/Serial_Io.thy ===== *)
theory Serial_Io
  imports Kernel_Prelude
begin

text \<open>
  The parts of the board the application tasks reach directly: the output register and the
  direction register of port B, and the characters sent on the serial line and its speed, with the
  printing functions of the Arduino library the sources call.
\<close>

record io =
  PORTB :: u8
  DDRB :: u8
  serial :: string
  baud :: u32

text \<open>\<open>Serial.print\<close> and \<open>Serial.println\<close> of a string: the latter ends the line.\<close>

definition serial_print :: "string \<Rightarrow> 'a io_scheme \<Rightarrow> 'a io_scheme" where
  "serial_print msg b = b\<lparr>serial := serial b @ msg\<rparr>"

definition CRLF :: string where "CRLF = [CHR 0x0D, CHR 0x0A]"

definition serial_println :: "string \<Rightarrow> 'a io_scheme \<Rightarrow> 'a io_scheme" where
  "serial_println msg b = serial_print (msg @ CRLF) b"

lemma serial_print_print [simp]: "serial_print t (serial_print s b) = serial_print (s @ t) b"
  by (simp add: serial_print_def)

text \<open>An integer in decimal, as \<open>Serial.print\<close> and the conversion \<open>%d\<close> write it.\<close>

fun digits :: "nat \<Rightarrow> string" where
  "digits n = (if n < 10 then [char_of (48 + n)] else digits (n div 10) @ [char_of (48 + n mod 10)])"

declare digits.simps [simp del]

definition fmt_d :: "int \<Rightarrow> string" where
  "fmt_d n = (if n < 0 then CHR ''-'' # digits (nat (- n)) else digits (nat n))"

lemma length_digits: "n < 1000 \<Longrightarrow> length (digits n) \<le> 3"
proof -
  assume n: "n < 1000"
  have one: "length (digits k) = 1" if "k < 10" for k
    using that by (subst digits.simps) simp
  have two: "length (digits k) \<le> 2" if "k < 100" for k
    using that one[of "k div 10"] by (subst digits.simps) simp
  show ?thesis
    using n two[of "n div 10"] by (subst digits.simps) simp
qed

lemma length_fmt_d: "0 \<le> n \<Longrightarrow> n < 1000 \<Longrightarrow> length (fmt_d n) \<le> 3"
  using length_digits[of "nat n"] by (simp add: fmt_d_def)

end
