(* ===== verification/Log_Data.thy ===== *)
theory Log_Data
  imports Iic_Driver Serial_Io "HOL-Library.Signed_Division"
begin

text \<open>
  The event log in the serial EEPROM (\<open>LogData.cpp\<close>): pages of 32 bytes, four of them
  (from 2044) reserved for the position of the next entry and guarded by a code, the
  devlock. Arguments that stand for what is not in the sources: the TWI peripheral
  \<open>T\<close>, and the execution environment \<open>E\<close>, which gives the wrap-around of the compiler,
  the contents of an uninitialised local buffer and the bytes that follow the buffer in
  memory. \<open>Write\<close> names a variable \<open>_pg\<close> that is not declared; it is read as the
  parameter \<open>_page\<close>, which every other line of the function uses.
\<close>

section \<open>State and environment\<close>

record logdata =
  IIC_ADDR_E2 :: u8

record 'hw cenv =
  wrapv :: bool
  stk :: "'hw \<Rightarrow> nat \<Rightarrow> u8"
  after :: "'hw \<Rightarrow> u8 list"

definition E2_END_ADDR :: u16 where "E2_END_ADDR = 0xFFFF"

definition DEVLOCK :: int where "DEVLOCK = 312"

definition L_ADDR :: u16 where "L_ADDR = 0xFF80"

definition LogData :: "u8 \<Rightarrow> logdata" where
  "LogData port_addr = \<lparr>IIC_ADDR_E2 = word_of_int (0xA0 OR push_bit 1 (uint port_addr))\<rparr>"

text \<open>A C string: the characters up to the terminator.\<close>

definition cstr :: "string \<Rightarrow> string" where
  "cstr data = takeWhile (\<lambda>c. c \<noteq> CHR 0x00) data"

definition bytes_of :: "string \<Rightarrow> u8 list" where
  "bytes_of data = map (\<lambda>c. of_nat (of_char c)) data"

text \<open>
  Printing a character array: the characters up to the first zero byte, which may lie behind
  the array. If there is none in the memory that may be read, the access is a fault.
\<close>

definition print_array :: "u8 list \<Rightarrow> u8 list \<Rightarrow> 'a io_scheme \<Rightarrow> 'a io_scheme res" where
  "print_array data beyond b =
     (if 0 \<in> set (data @ beyond)
      then okR (serial_print (map (\<lambda>v. char_of (unat v)) (takeWhile (\<lambda>v. v \<noteq> 0) (data @ beyond))) b)
      else failR OutOfBounds)"

definition println_array :: "u8 list \<Rightarrow> u8 list \<Rightarrow> 'a io_scheme \<Rightarrow> 'a io_scheme res" where
  "println_array data beyond b =
     bindR (print_array data beyond b) (\<lambda>b1. okR (serial_print CRLF b1))"

section \<open>Pages\<close>

definition ok :: "int \<Rightarrow> int \<Rightarrow> 'a io_scheme \<Rightarrow> bool \<times> 'a io_scheme" where
  "ok a d b =
     (if a \<ge> 2044 \<and> d \<noteq> DEVLOCK then
        (True, serial_println (''ERROR: Invalid address!'' @ [CHR 0x0A] @
           ''You can only enter values between 0 and 2043, unless you have the devlock.'') b)
      else if d = DEVLOCK then (False, serial_println ''VALID: DEVLOCK'' b)
      else (False, b))"

text \<open>The two address bytes of a page; the right shift keeps the sign.\<close>

definition page_addr :: "bool \<Rightarrow> int \<Rightarrow> (u8 \<times> u8) res" where
  "page_addr wrapping page = bindR (to_int wrapping (page * 32)) (\<lambda>v.
     okR (word_of_int (drop_bit 8 v), word_of_int v))"

definition Write :: "'hw twi \<Rightarrow> 'hw cenv \<Rightarrow> logdata \<Rightarrow> int \<Rightarrow> string \<Rightarrow> int \<Rightarrow> 'hw \<Rightarrow> 'a io_scheme \<Rightarrow>
    (int \<times> 'hw \<times> 'a io_scheme) res" where
  "Write T E l page data dl hw b =
     (let (bad, b1) = ok page dl b; n = length (cstr data) in
      if bad then okR (1, hw, b1)
      else bindR (page_addr (wrapv E) page) (\<lambda>(a0, a1).
        if n < 32 then
          bindR (IICWrite T (IIC_ADDR_E2 l)
              (a0 # a1 # bytes_of (cstr data) @ [0] @ map (stk E hw) [Suc n..<32]) 34 hw)
            (\<lambda>(rc, hw1). okR (rc, hw1, b1))
        else failR OutOfBounds))"

definition ReadPage :: "'hw twi \<Rightarrow> 'hw cenv \<Rightarrow> logdata \<Rightarrow> int \<Rightarrow> int \<Rightarrow> 'hw \<Rightarrow> 'a io_scheme \<Rightarrow>
    (int \<times> 'hw \<times> 'a io_scheme) res" where
  "ReadPage T E l pg dl hw b =
     (let (bad, b1) = ok pg dl b in
      if bad then okR (1, hw, b1)
      else bindR (page_addr (wrapv E) pg) (\<lambda>(a0, a1).
        bindR (IICWrite T (IIC_ADDR_E2 l) [a0, a1] 2 hw) (\<lambda>(_, hw1).
        bindR (IICRead T (IIC_ADDR_E2 l) (map (stk E hw) [0..<32]) 32 hw1) (\<lambda>(rc, data, hw2).
        bindR (print_array data (after E hw) b1) (\<lambda>b2. okR (rc, hw2, b2))))))"

text \<open>
  The loops of \<open>ReadAll\<close> and \<open>ReadFT\<close>: read page \<open>i\<close>, then \<open>++i\<close>, while the
  condition holds. The last result is kept.
\<close>

partial_function (option) read_loop :: "'hw twi \<Rightarrow> 'hw cenv \<Rightarrow> logdata \<Rightarrow> (int \<Rightarrow> bool) \<Rightarrow> int \<Rightarrow> int \<Rightarrow>
    'hw \<Rightarrow> 'a io_scheme \<Rightarrow> (int \<times> 'hw \<times> 'a io_scheme) res" where
  "read_loop T E l cond i rc hw b =
     (if cond i then
        bindR (ReadPage T E l i 0 hw b) (\<lambda>(rc1, hw1, b1).
        bindR (to_int (wrapv E) (i + 1)) (\<lambda>i1. read_loop T E l cond i1 rc1 hw1 b1))
      else okR (rc, hw, b))"

definition ReadAll :: "'hw twi \<Rightarrow> 'hw cenv \<Rightarrow> logdata \<Rightarrow> 'hw \<Rightarrow> 'a io_scheme \<Rightarrow>
    (int \<times> 'hw \<times> 'a io_scheme) res" where
  "ReadAll T E l hw b = read_loop T E l (\<lambda>i. i < 2044) 0 0 hw b"

text \<open>
  The constant \<open>0xFFFF\<close> has type \<open>unsigned int\<close>, so the comparisons with it are unsigned.
  The parameter \<open>_dl\<close> is not used.
\<close>

definition ReadFT :: "'hw twi \<Rightarrow> 'hw cenv \<Rightarrow> logdata \<Rightarrow> int \<Rightarrow> int \<Rightarrow> int \<Rightarrow> 'hw \<Rightarrow> 'a io_scheme \<Rightarrow>
    (int \<times> 'hw \<times> 'a io_scheme) res" where
  "ReadFT T E l saddr eaddr dl hw b =
     bindR (to_int (wrapv E) (eaddr * 32)) (\<lambda>e.
     if (word_of_int e :: u16) > E2_END_ADDR then okR (1, hw, b)
     else bindR (to_int (wrapv E) (saddr * 32)) (\<lambda>s.
     if (word_of_int s :: u16) > E2_END_ADDR then okR (1, hw, b)
     else if saddr > eaddr then okR (1, hw, b)
     else if (word_of_int s :: u16) > E2_END_ADDR - 32 then okR (1, hw, b)
     else read_loop T E l (\<lambda>i. i \<le> eaddr) saddr 1 hw b))"

section \<open>The position of the next entry\<close>

definition get_addr :: "'hw twi \<Rightarrow> 'hw cenv \<Rightarrow> logdata \<Rightarrow> 'hw \<Rightarrow> 'a io_scheme \<Rightarrow>
    (int \<times> 'hw \<times> 'a io_scheme) res" where
  "get_addr T E l hw b =
     bindR (IICWrite T (IIC_ADDR_E2 l) [ucast (drop_bit 8 L_ADDR), ucast L_ADDR] 2 hw) (\<lambda>(_, hw1).
     bindR (IICRead T (IIC_ADDR_E2 l) (map (stk E hw) [0..<4]) 4 hw1) (\<lambda>(_, data, hw2).
     bindR (to_int (wrapv E) ((sint (data ! 0) - 48) * 1000)) (\<lambda>x.
     bindR (to_int (wrapv E) ((sint (data ! 1) - 48) * 100)) (\<lambda>y.
     bindR (to_int (wrapv E) (x + y)) (\<lambda>x1.
     bindR (to_int (wrapv E) (x1 + (sint (data ! 2) - 48) * 10)) (\<lambda>x2.
     bindR (to_int (wrapv E) (x2 + (sint (data ! 3) - 48))) (\<lambda>x3.
     bindR (println_array data (after E hw) b) (\<lambda>b1.
     okR (x3, hw2, b1)))))))))"

text \<open>The loop that fills an array with decimal digits from its last index down.\<close>

fun digit_loop :: "nat \<Rightarrow> int \<Rightarrow> int list \<Rightarrow> int list" where
  "digit_loop 0 caddr ds = ds"
| "digit_loop (Suc i) caddr ds = digit_loop i (caddr sdiv 10) (caddr smod 10 # ds)"

definition upd_addr :: "'hw twi \<Rightarrow> 'hw cenv \<Rightarrow> logdata \<Rightarrow> int \<Rightarrow> 'hw \<Rightarrow> 'a io_scheme \<Rightarrow>
    ('hw \<times> 'a io_scheme) res" where
  "upd_addr T E l caddr hw b =
     bindR (to_int (wrapv E) (caddr + 1)) (\<lambda>c.
     (let c1 = (if c \<ge> 2044 then 0 else c);
          dbuff = map (\<lambda>d. word_of_int (d + 48)) (digit_loop 4 c1 []) :: u8 list in
      bindR (println_array dbuff (after E hw)
          (serial_print ''Update Address - final upd value: '' b)) (\<lambda>b1.
      bindR (IICWrite T (IIC_ADDR_E2 l) (ucast (drop_bit 8 L_ADDR) # ucast L_ADDR # dbuff) 6 hw)
        (\<lambda>(_, hw1). okR (hw1, b1)))))"

definition Reset :: "'hw twi \<Rightarrow> 'hw cenv \<Rightarrow> logdata \<Rightarrow> int \<Rightarrow> 'hw \<Rightarrow> 'a io_scheme \<Rightarrow>
    ('hw \<times> 'a io_scheme) res" where
  "Reset T E l dl hw b =
     bindR (Write T E l 2044 ''0000'' dl hw b) (\<lambda>(_, hw1, b1). okR (hw1, b1))"

definition WriteAuto :: "'hw twi \<Rightarrow> 'hw cenv \<Rightarrow> logdata \<Rightarrow> string \<Rightarrow> 'hw \<Rightarrow> 'a io_scheme \<Rightarrow>
    (int \<times> 'hw \<times> 'a io_scheme) res" where
  "WriteAuto T E l data hw b =
     bindR (get_addr T E l hw b) (\<lambda>(a, hw1, b1).
     (let b2 = serial_println (fmt_d a) (serial_print ''WriteAuto - addr1: '' b1);
          a1 = (if a \<ge> 2044 then 0 else a);
          b3 = serial_println (fmt_d a1) (serial_print ''WriteAuto - addr2: '' b2) in
      bindR (Write T E l a1 data 0 hw1 b3) (\<lambda>(rc, hw2, b4).
      (let b5 = serial_println (fmt_d rc) (serial_print ''WriteAuto - writing result: '' b4) in
       if rc = 0 then bindR (upd_addr T E l a1 hw2 b5) (\<lambda>(hw3, b6). okR (rc, hw3, b6))
       else okR (rc, hw2, b5)))))"

section \<open>Addresses\<close>

lemma addr_bytes: "word_cat (word_of_int (drop_bit 8 v) :: u8) (word_of_int v :: u8) = (word_of_int v :: u16)"
  by (rule bit_word_eqI) (auto simp: bit_word_cat_iff bit_word_of_int_iff bit_drop_bit_eq)

lemma page_addr_ok:
  assumes "wrapping \<or> is_int16 (page * 32)"
  obtains a0 a1 where "page_addr wrapping page = okR (a0, a1)"
    "word_cat a0 a1 = (word_of_int (page * 32) :: u16)"
  using assms addr_bytes[of "page * 32"] addr_bytes[of "wrap16 (page * 32)"]
  by (cases "is_int16 (page * 32)") (auto simp: page_addr_def to_int_def)

lemma L_ADDR_bytes: "word_cat (ucast (drop_bit 8 L_ADDR) :: u8) (ucast L_ADDR :: u8) = (0xFF80 :: u16)"
  by code_simp

lemma unat_page:
  assumes "0 \<le> page" "page < 2048"
  shows "unat (word_of_int (page * 32) :: u16) = 32 * nat page"
proof -
  have "(page * 32) mod 65536 = page * 32"
    using assms by (intro mod_pos_pos_trivial) linarith+
  then have "unat (word_of_int (page * 32) :: u16) = nat (page * 32)"
    by (simp only: unat_eq_nat_uint uint_word_of_int) simp
  then show ?thesis using assms by linarith
qed

section \<open>The EEPROM\<close>

text \<open>
  The documented behaviour of the memory at bus address \<open>a\<close>, when it is ready (not in a
  write cycle): a write transaction stores its data from the address in its first two
  bytes, within a physical page of 128 bytes, and without data only sets the current
  address; a read transaction returns consecutive bytes from the current address.
\<close>

definition store :: "(u16 \<Rightarrow> u8) \<Rightarrow> u16 \<Rightarrow> u8 list \<Rightarrow> u16 \<Rightarrow> u8" where
  "store m p ds = (\<lambda>x. if unat (x - p) < length ds then ds ! unat (x - p) else m x)"

definition fetch :: "(u16 \<Rightarrow> u8) \<Rightarrow> u16 \<Rightarrow> nat \<Rightarrow> u8 list" where
  "fetch m p n = map (\<lambda>i. m (p + of_nat i)) [0..<n]"

definition eeprom :: "'b bus \<Rightarrow> u8 \<Rightarrow> ('b \<Rightarrow> u16 \<Rightarrow> u8) \<Rightarrow> ('b \<Rightarrow> u16) \<Rightarrow> ('b \<Rightarrow> bool) \<Rightarrow> bool" where
  "eeprom B a mem cur ready \<longleftrightarrow>
     (\<forall>b hi lo ds. ready b \<longrightarrow> unat (word_cat hi lo :: u16) mod 128 + length ds \<le> 128 \<longrightarrow>
        (\<exists>b'. bus_write B a (hi # lo # ds) b = (0, b') \<and> mem b' = store (mem b) (word_cat hi lo) ds \<and>
           (ds = [] \<longrightarrow> ready b' \<and> cur b' = word_cat hi lo))) \<and>
     (\<forall>b n. ready b \<longrightarrow>
        (\<exists>b'. bus_read B a n b = (0, fetch (mem b) (cur b) n, b') \<and> mem b' = mem b \<and> ready b'))"

text \<open>The memory is ready again before the next transaction, whatever was written.\<close>

definition prompt :: "'b bus \<Rightarrow> u8 \<Rightarrow> ('b \<Rightarrow> bool) \<Rightarrow> bool" where
  "prompt B a ready \<longleftrightarrow> (\<forall>b ds. ready b \<longrightarrow> ready (snd (bus_write B a ds b)))"

lemma store_Nil [simp]: "store m p [] = m"
  by (simp add: store_def)

lemma length_fetch [simp]: "length (fetch m p n) = n"
  by (simp add: fetch_def)

lemma fetch_store:
  assumes "n \<le> length ds" "n \<le> 65536"
  shows "fetch (store m p ds) p n = take n ds"
  using assms by (intro nth_equalityI) (auto simp: fetch_def store_def unat_of_nat)

lemma page_offset:
  assumes "0 \<le> p" "p < 2048" "0 \<le> q" "q < 2048" "p \<noteq> q" "i < 32"
  shows "32 \<le> unat (word_of_int (q * 32) + of_nat i - (word_of_int (p * 32) :: u16))"
proof -
  let ?d = "q * 32 + int i - p * 32"
  have "word_of_int (q * 32) + of_nat i - (word_of_int (p * 32) :: u16) = word_of_int ?d"
    by simp
  then have u: "unat (word_of_int (q * 32) + of_nat i - (word_of_int (p * 32) :: u16)) = nat (?d mod 65536)"
    by (simp only: unat_eq_nat_uint uint_word_of_int) (simp add: take_bit_eq_mod)
  have "32 \<le> ?d mod 65536"
  proof (cases "p < q")
    case True
    with assms have "?d mod 65536 = ?d" by (intro mod_pos_pos_trivial) linarith+
    with True show ?thesis by linarith
  next
    case False
    with assms have "(?d + 65536) mod 65536 = ?d + 65536" by (intro mod_pos_pos_trivial) linarith+
    then have "?d mod 65536 = ?d + 65536" by simp
    with assms show ?thesis by linarith
  qed
  then show ?thesis unfolding u by linarith
qed

lemma fetch_store_other:
  assumes "0 \<le> p" "p < 2048" "0 \<le> q" "q < 2048" "p \<noteq> q" "length ds \<le> 32"
  shows "fetch (store m (word_of_int (p * 32)) ds) (word_of_int (q * 32)) 32 =
    fetch m (word_of_int (q * 32)) 32"
proof (rule nth_equalityI)
  fix i assume "i < length (fetch (store m (word_of_int (p * 32)) ds) (word_of_int (q * 32)) 32)"
  then have i: "i < 32" by simp
  have "\<not> unat (word_of_int (q * 32) + of_nat i - (word_of_int (p * 32) :: u16)) < length ds"
    using page_offset[OF assms(1-5) i] assms(6) by linarith
  then show "fetch (store m (word_of_int (p * 32)) ds) (word_of_int (q * 32)) 32 ! i =
      fetch m (word_of_int (q * 32)) 32 ! i"
    using i by (simp add: fetch_def store_def)
qed simp

section \<open>Strings in memory\<close>

lemma of_char_less: "of_char c < (256 :: nat)"
  using nat_of_char_less_256 .

lemma unat_byte [simp]: "unat (of_nat (of_char c) :: u8) = of_char c"
  by (simp add: unat_of_nat of_char_less)

lemma chars_of_bytes [simp]: "map (\<lambda>v. char_of (unat v)) (bytes_of s) = s"
  by (simp add: bytes_of_def comp_def)

lemma length_bytes_of [simp]: "length (bytes_of s) = length s"
  by (simp add: bytes_of_def)

lemma bytes_cstr_nonzero: "v \<in> set (bytes_of (cstr s)) \<Longrightarrow> v \<noteq> 0"
proof
  assume v: "v \<in> set (bytes_of (cstr s))" "v = 0"
  then obtain c where c: "c \<in> set (cstr s)" "v = of_nat (of_char c)" by (auto simp: bytes_of_def)
  then have "of_char c = (0 :: nat)" using v(2) unat_byte[of c] by simp
  then have "c = char_of (0 :: nat)" using char_of_char[of c, where 'a = nat] by simp
  then have "c = CHR 0x00" by (simp add: char_of_def)
  with c(1) show False by (auto simp: cstr_def dest: set_takeWhileD)
qed

lemma takeWhile_terminated:
  assumes "\<And>v. v \<in> set xs \<Longrightarrow> v \<noteq> 0"
  shows "takeWhile (\<lambda>v. v \<noteq> 0) (xs @ 0 # ys) = xs"
  using assms by (simp add: takeWhile_append2 takeWhile_tail)

lemma print_array_string:
  "print_array (bytes_of (cstr s) @ 0 # rest) beyond b = okR (serial_print (cstr s) b)"
  using takeWhile_terminated[of "bytes_of (cstr s)" "rest @ beyond"] bytes_cstr_nonzero[of _ s]
  by (simp add: print_array_def)

section \<open>The operations on the bus\<close>

definition page_ok :: "'hw cenv \<Rightarrow> int \<Rightarrow> int \<Rightarrow> bool" where
  "page_ok E page dl \<longleftrightarrow> (page < 2044 \<or> dl = DEVLOCK) \<and> (wrapv E \<or> is_int16 (page * 32))"

lemma page_ok_granted: "page_ok E page dl \<Longrightarrow> fst (ok page dl b) = False"
  by (auto simp: page_ok_def ok_def)

lemma eeprom_write:
  assumes "eeprom B a mem cur ready" "ready b" "unat (word_cat hi lo :: u16) mod 128 + length ds \<le> 128"
  obtains b' where "bus_write B a (hi # lo # ds) b = (0, b')"
    "mem b' = store (mem b) (word_cat hi lo) ds"
    "ds = [] \<Longrightarrow> ready b'" "ds = [] \<Longrightarrow> cur b' = word_cat hi lo"
  using assms unfolding eeprom_def by metis

lemma eeprom_read:
  assumes "eeprom B a mem cur ready" "ready b"
  obtains b' where "bus_read B a n b = (0, fetch (mem b) (cur b) n, b')" "mem b' = mem b" "ready b'"
  using assms unfolding eeprom_def by metis

lemma page_in_128: "unat (word_of_int (page * 32) :: u16) mod 128 + 32 \<le> 128"
proof -
  have "int (unat (word_of_int (page * 32) :: u16) mod 128) = (page * 32) mod 65536 mod 128"
    by (simp only: unat_eq_nat_uint uint_word_of_int zmod_int) simp
  also have "\<dots> = (page * 32) mod (4 * 32)" by (simp add: mod_mod_cancel)
  also have "\<dots> = (page mod 4) * 32" by (rule mult_mod_left [symmetric])
  also have "\<dots> \<le> 96" using pos_mod_bound [of 4 page] by linarith
  finally show ?thesis by linarith
qed

text \<open>The bytes \<open>Write\<close> puts into a page: the text, its terminator and what the stack held.\<close>

abbreviation page_bytes :: "string \<Rightarrow> (nat \<Rightarrow> u8) \<Rightarrow> u8 list" where
  "page_bytes data f \<equiv> bytes_of (cstr data) @ 0 # map f [Suc (length (cstr data))..<32]"

lemma Write_transaction:
  assumes T: "twi_master T (B :: 'b bus) R" and P: "eeprom B (IIC_ADDR_E2 l) mem cur ready"
    and R: "R Idle st d hw b" "ready b"
    and page: "page_ok E page dl" and len: "length (cstr data) < 32"
  obtains a0 a1 hw' st' d' b' where "Write T E l page data dl hw io = okR (0, hw', snd (ok page dl io))"
    "R Idle st' d' hw' b'" "word_cat a0 a1 = (word_of_int (page * 32) :: u16)"
    "bus_write B (IIC_ADDR_E2 l) (a0 # a1 # page_bytes data (stk E hw)) b = (0, b')"
    "mem b' = store (mem b) (word_of_int (page * 32)) (page_bytes data (stk E hw))"
proof -
  let ?ds = "page_bytes data (stk E hw)"
  obtain a0 a1 where a: "page_addr (wrapv E) page = okR (a0, a1)"
      "word_cat a0 a1 = (word_of_int (page * 32) :: u16)"
    using page page_addr_ok unfolding page_ok_def by metis
  have l34: "length (a0 # a1 # ?ds) = 34" using len by simp
  obtain b' where b': "bus_write B (IIC_ADDR_E2 l) (a0 # a1 # ?ds) b = (0, b')"
      "mem b' = store (mem b) (word_of_int (page * 32)) ?ds"
    using eeprom_write[OF P R(2), of a0 a1 ?ds] page_in_128[of page] len a(2) by auto
  have "unat (34::u16) \<le> length (a0 # a1 # ?ds)" "unat (34::u16) \<le> 32767" using l34 by simp_all
  from iic.write_law[OF T R(1) this, of "IIC_ADDR_E2 l"] l34 b'(1)
  obtain hw' st' d' where w: "IICWrite T (IIC_ADDR_E2 l) (a0 # a1 # ?ds) 34 hw = okR (0, hw')"
      "R Idle st' d' hw' b'" by auto
  have "Write T E l page data dl hw io = okR (0, hw', snd (ok page dl io))"
    using page_ok_granted[OF page, of io] a(1) w(1) len
    by (simp add: Write_def Let_def split_beta)
  with w(2) a(2) b' that show ?thesis by blast
qed

lemma Write_page:
  assumes "twi_master T (B :: 'b bus) R" and "eeprom B (IIC_ADDR_E2 l) mem cur ready"
    and "R Idle st d hw b" "ready b" and "page_ok E page dl" and "length (cstr data) < 32"
  obtains hw' st' d' b' where "Write T E l page data dl hw io = okR (0, hw', snd (ok page dl io))"
    "R Idle st' d' hw' b'"
    "mem b' = store (mem b) (word_of_int (page * 32)) (page_bytes data (stk E hw))"
  by (rule Write_transaction [OF assms])

lemma ReadPage_page:
  assumes T: "twi_master T (B :: 'b bus) R" and P: "eeprom B (IIC_ADDR_E2 l) mem cur ready"
    and R: "R Idle st d hw b" "ready b"
    and page: "page_ok E page dl"
    and pr: "print_array (fetch (mem b) (word_of_int (page * 32)) 32) (after E hw)
      (snd (ok page dl io)) = okR io'"
  obtains hw' st' d' b' where "ReadPage T E l page dl hw io = okR (0, hw', io')"
    "R Idle st' d' hw' b'" "mem b' = mem b" "ready b'"
proof -
  obtain a0 a1 where a: "page_addr (wrapv E) page = okR (a0, a1)"
      "word_cat a0 a1 = (word_of_int (page * 32) :: u16)"
    using page page_addr_ok unfolding page_ok_def by metis
  obtain b1 where b1: "bus_write B (IIC_ADDR_E2 l) [a0, a1] b = (0, b1)" "mem b1 = mem b"
      "ready b1" "cur b1 = word_of_int (page * 32)"
    using eeprom_write[OF P R(2), of a0 a1 "[]"] page_in_128[of page] a(2) by auto
  obtain b2 where b2: "bus_read B (IIC_ADDR_E2 l) 32 b1 =
      (0, fetch (mem b) (word_of_int (page * 32)) 32, b2)" "mem b2 = mem b" "ready b2"
    using eeprom_read[OF P b1(3), of 32] b1(2,4) by metis
  have "unat (2::u16) \<le> length [a0, a1]" "unat (2::u16) \<le> 32767"
    "unat (32::u16) \<le> length (map (stk E hw) [0..<32])" "unat (32::u16) \<le> 32767" by simp_all
  from iic.write_then_read[OF T R(1) this, of "IIC_ADDR_E2 l"] b1(1) b2(1)
  obtain hw1 hw2 st' d' where w: "IICWrite T (IIC_ADDR_E2 l) [a0, a1] 2 hw = okR (0, hw1)"
      "IICRead T (IIC_ADDR_E2 l) (map (stk E hw) [0..<32]) 32 hw1 =
         okR (0, fetch (mem b) (word_of_int (page * 32)) 32, hw2)"
      "R Idle st' d' hw2 b2" by auto
  have "ReadPage T E l page dl hw io = okR (0, hw2, io')"
    using page_ok_granted[OF page, of io] a(1) w(1,2) pr
    by (simp add: ReadPage_def Let_def split_beta)
  with w(3) b2(2,3) that show ?thesis by blast
qed

section \<open>The stored position\<close>

lemma sdiv_smod_10:
  assumes "0 \<le> (c::int)"
  shows "c sdiv 10 = c div 10" "c smod 10 = c mod 10"
  using assms by (auto simp: signed_divide_int_def signed_modulo_int_def sgn_if minus_div_mult_eq_mod)

lemma digit_loop_4:
  assumes "0 \<le> c" "c < 10000"
  shows "digit_loop 4 c [] = [c div 1000, c div 100 mod 10, c div 10 mod 10, c mod 10]"
proof -
  have d: "c div 10 div 10 = c div 100" "c div 100 div 10 = c div 1000"
    by (simp_all flip: zdiv_zmult2_eq)
  have m: "c div 1000 mod 10 = c div 1000" using assms by (intro mod_pos_pos_trivial) linarith+
  have "0 \<le> c div 10" "0 \<le> c div 100" "0 \<le> c div 1000" using assms by (simp_all add: pos_imp_zdiv_nonneg_iff)
  then show ?thesis
    using assms by (simp add: numeral_eq_Suc sdiv_smod_10 d m)
qed

lemma sint_digit:
  assumes "0 \<le> d" "d \<le> 9"
  shows "sint (word_of_int d + 48 :: u8) = d + 48"
proof -
  have "sint (word_of_int (d + 48) :: u8) = d + 48"
    using assms by (simp only: sint_sbintrunc') (simp add: signed_take_bit_int_eq_self)
  then show ?thesis by simp
qed

lemma decimal_sum:
  assumes "0 \<le> (c::int)" "c < 10000"
  shows "c div 1000 * 1000 + c div 100 mod 10 * 100 + c div 10 mod 10 * 10 + c mod 10 = c"
    "0 \<le> c div 1000" "c div 1000 \<le> 9"
proof -
  have d: "c div 10 div 10 = c div 100" "c div 100 div 10 = c div 1000"
    by (simp_all flip: zdiv_zmult2_eq)
  show "c div 1000 * 1000 + c div 100 mod 10 * 100 + c div 10 mod 10 * 10 + c mod 10 = c"
    using div_mult_mod_eq[of c 10] div_mult_mod_eq[of "c div 10" 10]
      div_mult_mod_eq[of "c div 100" 10] unfolding d by linarith
qed (use assms in linarith)+

definition addr_digits :: "int \<Rightarrow> u8 list" where
  "addr_digits c = map (\<lambda>d. word_of_int (d + 48)) (digit_loop 4 c [])"

lemma length_addr_digits [simp]: "0 \<le> c \<Longrightarrow> c < 10000 \<Longrightarrow> length (addr_digits c) = 4"
  by (simp add: addr_digits_def digit_loop_4)

lemma sint_addr_digits:
  assumes "0 \<le> c" "c < 10000"
  shows "sint (addr_digits c ! 0) - 48 = c div 1000" "sint (addr_digits c ! 1) - 48 = c div 100 mod 10"
    "sint (addr_digits c ! 2) - 48 = c div 10 mod 10" "sint (addr_digits c ! 3) - 48 = c mod 10"
proof -
  have b: "0 \<le> c div 100 mod 10" "c div 100 mod 10 \<le> 9" "0 \<le> c div 10 mod 10" "c div 10 mod 10 \<le> 9"
    "0 \<le> c mod 10" "c mod 10 \<le> 9"
    by (simp_all flip: zle_diff1_eq add: pos_mod_bound)
  note s = digit_loop_4[OF assms] addr_digits_def sint_digit[OF decimal_sum(2,3)[OF assms]]
  show "sint (addr_digits c ! 0) - 48 = c div 1000" by (simp add: s)
  show "sint (addr_digits c ! 1) - 48 = c div 100 mod 10" by (simp add: s sint_digit[OF b(1,2)])
  show "sint (addr_digits c ! 2) - 48 = c div 10 mod 10" by (simp add: s sint_digit[OF b(3,4)])
  show "sint (addr_digits c ! 3) - 48 = c mod 10" by (simp add: s sint_digit[OF b(5,6)])
qed

lemma println_array_total:
  "0 \<in> set beyond \<Longrightarrow> \<exists>out. println_array data beyond b = okR (serial_print out b)"
  by (auto simp: println_array_def print_array_def serial_print_def)

lemma upd_addr_transaction:
  assumes T: "twi_master T (B :: 'b bus) R" and R: "R Idle st d hw b"
    and c: "0 \<le> c" "c < 2044" and z: "0 \<in> set (after E hw)"
  obtains a0 a1 hw' st' d' out where "upd_addr T E l c hw io = okR (hw', serial_print out io)" "word_cat a0 a1 = (0xFF80 :: u16)"
    "R Idle st' d' hw' (snd (bus_write B (IIC_ADDR_E2 l) (a0 # a1 # addr_digits ((c + 1) mod 2044)) b))"
proof -
  let ?c = "(c + 1) mod 2044" and ?a0 = "ucast (drop_bit 8 L_ADDR) :: u8" and ?a1 = "ucast L_ADDR :: u8"
  have c1: "(if c + 1 \<ge> 2044 then 0 else c + 1) = ?c"
    using c by (cases "c = 2043") (simp_all add: mod_pos_pos_trivial)
  have c2: "0 \<le> ?c" "?c < 10000" using pos_mod_bound[of 2044 "c + 1"] by simp_all
  obtain out where out: "println_array (addr_digits ?c) (after E hw)
      (serial_print ''Update Address - final upd value: '' io) = okR (serial_print out io)"
    using println_array_total[OF z] by (metis serial_print_print)
  have "unat (6::u16) \<le> length (?a0 # ?a1 # addr_digits ?c)" "unat (6::u16) \<le> 32767" using c2 by simp_all
  from iic.write_law[OF T R this, of "IIC_ADDR_E2 l"] c2
  obtain hw' st' d' rc where w: "IICWrite T (IIC_ADDR_E2 l) (?a0 # ?a1 # addr_digits ?c) 6 hw = okR (rc, hw')"
      "R Idle st' d' hw' (snd (bus_write B (IIC_ADDR_E2 l) (?a0 # ?a1 # addr_digits ?c) b))" by auto
  have "upd_addr T E l c hw io = okR (hw', serial_print out io)"
    using c out w(1) unfolding upd_addr_def c1[symmetric] addr_digits_def
    by (simp add: Let_def)
  with w(2) L_ADDR_bytes that show ?thesis by blast
qed

lemma upd_addr_stores:
  assumes T: "twi_master T (B :: 'b bus) R" and P: "eeprom B (IIC_ADDR_E2 l) mem cur ready"
    and R: "R Idle st d hw b" "ready b" and c: "0 \<le> c" "c < 2044" and z: "0 \<in> set (after E hw)"
  obtains hw' st' d' b' out where "upd_addr T E l c hw io = okR (hw', serial_print out io)"
    "R Idle st' d' hw' b'" "prompt B (IIC_ADDR_E2 l) ready \<Longrightarrow> ready b'" "mem b' = store (mem b) 0xFF80 (addr_digits ((c + 1) mod 2044))"
proof -
  obtain a0 a1 hw' st' d' out where u: "upd_addr T E l c hw io = okR (hw', serial_print out io)" "word_cat a0 a1 = (0xFF80 :: u16)"
    "R Idle st' d' hw' (snd (bus_write B (IIC_ADDR_E2 l) (a0 # a1 # addr_digits ((c + 1) mod 2044)) b))"
    by (rule upd_addr_transaction [OF T R(1) c z])
  have "length (addr_digits ((c + 1) mod 2044)) = 4" by simp
  with eeprom_write[OF P R(2), of a0 a1 "addr_digits ((c + 1) mod 2044)"] u(2) obtain b' where
    "bus_write B (IIC_ADDR_E2 l) (a0 # a1 # addr_digits ((c + 1) mod 2044)) b = (0, b')"
    "mem b' = store (mem b) 0xFF80 (addr_digits ((c + 1) mod 2044))" by auto
  moreover from this R(2) have "prompt B (IIC_ADDR_E2 l) ready \<Longrightarrow> ready b'"
    unfolding prompt_def by (metis snd_conv)
  ultimately show ?thesis using u that by auto
qed

lemma get_addr_reads:
  assumes T: "twi_master T (B :: 'b bus) R" and P: "eeprom B (IIC_ADDR_E2 l) mem cur ready"
    and R: "R Idle st d hw b" "ready b" and c: "0 \<le> c" "c < 2044" and z: "0 \<in> set (after E hw)"
    and m: "fetch (mem b) 0xFF80 4 = addr_digits c"
  obtains hw' st' d' b' out where "get_addr T E l hw io = okR (c, hw', serial_print out io)"
    "R Idle st' d' hw' b'" "mem b' = mem b" "ready b'"
proof -
  let ?a0 = "ucast (drop_bit 8 L_ADDR) :: u8" and ?a1 = "ucast L_ADDR :: u8"
  have c': "c < 10000" using c by simp
  obtain b1 where b1: "bus_write B (IIC_ADDR_E2 l) [?a0, ?a1] b = (0, b1)" "mem b1 = mem b"
      "ready b1" "cur b1 = 0xFF80"
    using eeprom_write[OF P R(2), of ?a0 ?a1 "[]"] L_ADDR_bytes by auto
  obtain b2 where b2: "bus_read B (IIC_ADDR_E2 l) 4 b1 = (0, addr_digits c, b2)" "mem b2 = mem b" "ready b2"
    using eeprom_read[OF P b1(3), of 4] b1(2,4) m by metis
  have "unat (2::u16) \<le> length [?a0, ?a1]" "unat (2::u16) \<le> 32767"
    "unat (4::u16) \<le> length (map (stk E hw) [0..<4])" "unat (4::u16) \<le> 32767" by simp_all
  from iic.write_then_read[OF T R(1) this, of "IIC_ADDR_E2 l"] b1(1) b2(1) c c'
  obtain hw1 hw2 st' d' where w: "IICWrite T (IIC_ADDR_E2 l) [?a0, ?a1] 2 hw = okR (0, hw1)"
      "IICRead T (IIC_ADDR_E2 l) (map (stk E hw) [0..<4]) 4 hw1 = okR (0, addr_digits c, hw2)"
      "R Idle st' d' hw2 b2" by auto
  obtain out where out: "println_array (addr_digits c) (after E hw) io = okR (serial_print out io)"
    using println_array_total[OF z] by blast
  define x y z u where xyzu: "x = c div 1000" "y = c div 100 mod 10" "z = c div 10 mod 10" "u = c mod 10"
  note s = sint_addr_digits[OF c(1) c', folded xyzu] decimal_sum[OF c(1) c', folded xyzu]
  have "0 \<le> y" "y \<le> 9" "0 \<le> z" "z \<le> 9" "0 \<le> u" "u \<le> 9" "x \<le> 2"
    using c by (simp_all flip: zle_diff1_eq add: pos_mod_bound xyzu)
  with s(6) have "to_int (wrapv E) (x * 1000) = okR (x * 1000)" "to_int (wrapv E) (y * 100) = okR (y * 100)"
    "to_int (wrapv E) (x * 1000 + y * 100) = okR (x * 1000 + y * 100)"
    "to_int (wrapv E) (x * 1000 + y * 100 + z * 10) = okR (x * 1000 + y * 100 + z * 10)"
    "to_int (wrapv E) (x * 1000 + y * 100 + z * 10 + u) = okR c"
    unfolding s(5)[symmetric] by (intro to_int_ok; linarith)+
  then have "get_addr T E l hw io = okR (c, hw2, serial_print out io)"
    by (simp only: get_addr_def w(1,2) out s(1-4) bindR_simps prod.case)
  with w(3) b2(2,3) that show ?thesis by blast
qed

section \<open>Reading a range of pages\<close>

text \<open>The text of a page, and the pages that hold a terminated text.\<close>

definition page_text :: "(u16 \<Rightarrow> u8) \<Rightarrow> int \<Rightarrow> string" where
  "page_text m p = map (\<lambda>v. char_of (unat v)) (takeWhile (\<lambda>v. v \<noteq> 0) (fetch m (word_of_int (p * 32)) 32))"

definition terminated :: "(u16 \<Rightarrow> u8) \<Rightarrow> int \<Rightarrow> bool" where
  "terminated m p \<longleftrightarrow> 0 \<in> set (fetch m (word_of_int (p * 32)) 32)"

lemma print_terminated:
  "terminated m p \<Longrightarrow> print_array (fetch m (word_of_int (p * 32)) 32) beyond b =
     okR (serial_print (page_text m p) b)"
  by (auto simp: terminated_def print_array_def page_text_def takeWhile_append1)

lemma ok_plain [simp]: "p < 2044 \<Longrightarrow> ok p 0 b = (False, b)"
  by (simp add: ok_def DEVLOCK_def)

lemma read_loop_pages:
  assumes T: "twi_master T (B :: 'b bus) R" and P: "eeprom B (IIC_ADDR_E2 l) mem cur ready"
    and e: "e < 2044" "wrapv E \<or> e < 1024"
    and cond: "\<And>i. s \<le> i \<Longrightarrow> i \<le> e + 1 \<Longrightarrow> cond i \<longleftrightarrow> i \<le> e"
  shows "R Idle st d hw b \<Longrightarrow> ready b \<Longrightarrow> 0 \<le> s \<Longrightarrow> s \<le> e + 1 \<Longrightarrow>
    (\<forall>p\<in>{s..e}. terminated (mem b) p) \<Longrightarrow>
    \<exists>hw' st' d' b'. read_loop T E l cond s rc hw io =
        okR (if s \<le> e then 0 else rc, hw', serial_print (concat (map (page_text (mem b)) [s..e])) io) \<and>
      R Idle st' d' hw' b' \<and> mem b' = mem b \<and> ready b'"
  using cond
proof (induction "nat (e + 1 - s)" arbitrary: s st d hw b rc io)
  case 0
  then have s: "s = e + 1" by linarith
  with "0.prems"(6)[of s] have "\<not> cond s" by simp
  with 0 s show ?case by (subst read_loop.simps) (auto simp: serial_print_def)
next
  case (Suc n)
  then have s: "s \<le> e" by linarith
  then have c: "cond s" using Suc.prems(6)[of s] by simp
  have pg: "page_ok E s 0" "terminated (mem b) s"
    using s e Suc.prems(3,5) by (auto simp: page_ok_def is_int16_def)
  have "print_array (fetch (mem b) (word_of_int (s * 32)) 32) (after E hw) (snd (ok s 0 io)) =
      okR (serial_print (page_text (mem b) s) io)"
    using print_terminated[OF pg(2)] s e by simp
  from ReadPage_page[OF T P Suc.prems(1,2) pg(1) this]
  obtain hw1 st1 d1 b1 where 1: "ReadPage T E l s 0 hw io = okR (0, hw1, serial_print (page_text (mem b) s) io)"
    "R Idle st1 d1 hw1 b1" "mem b1 = mem b" "ready b1" by blast
  have t: "\<forall>p\<in>{s + 1..e}. terminated (mem b1) p" using Suc.prems(5) 1(3) by auto
  have m: "n = nat (e + 1 - (s + 1))" using Suc.hyps(2) by linarith
  have cond': "\<And>i. s + 1 \<le> i \<Longrightarrow> i \<le> e + 1 \<Longrightarrow> cond i = (i \<le> e)" using Suc.prems(6) by simp
  have "0 \<le> s + 1" "s + 1 \<le> e + 1" using s Suc.prems(3) by linarith+
  from Suc.hyps(1)[OF m 1(2,4) this t cond', of 0 "serial_print (page_text (mem b) s) io"]
  obtain hw2 st2 d2 b2 where 2: "read_loop T E l cond (s + 1) 0 hw1 (serial_print (page_text (mem b) s) io) =
      okR (0, hw2, serial_print (concat (map (page_text (mem b)) [s + 1..e]))
        (serial_print (page_text (mem b) s) io))"
    "R Idle st2 d2 hw2 b2" "mem b2 = mem b" "ready b2"
    using 1(3) by auto
  have "to_int (wrapv E) (s + 1) = okR (s + 1)" using s e Suc.prems(3) by (intro to_int_ok) linarith+
  then have "read_loop T E l cond s rc hw io =
      okR (0, hw2, serial_print (concat (map (page_text (mem b)) [s..e])) io)"
    using c 1(1) 2(1) by (subst read_loop.simps) (simp add: upto_rec1[OF s])
  with s 2(2-) show ?case by auto
qed

section \<open>A concrete EEPROM\<close>

text \<open>
  A memory on the bus that is always ready and behaves as \<open>eeprom\<close> states, for concrete
  runs; it counts the address bytes of a transaction and then stores what it receives.
\<close>

record eesim =
  ee_mem :: "u16 \<Rightarrow> u8"
  ee_cur :: u16
  ee_cnt :: nat

definition eesim_bus :: "u8 \<Rightarrow> eesim bus" where
  "eesim_bus a = \<lparr>
     bstart = (\<lambda>b. (True, b\<lparr>ee_cnt := 0\<rparr>)),
     baddr = (\<lambda>v b. (v AND 0xfe = a, b)),
     bsend = (\<lambda>v b. (True,
       if ee_cnt b = 0 then b\<lparr>ee_cur := word_cat v (ucast (ee_cur b) :: u8), ee_cnt := 1\<rparr>
       else if ee_cnt b = 1 then
         b\<lparr>ee_cur := word_cat (ucast (drop_bit 8 (ee_cur b)) :: u8) v, ee_cnt := 2\<rparr>
       else b\<lparr>ee_mem := (ee_mem b)(ee_cur b := v), ee_cur := ee_cur b + 1\<rparr>)),
     brecv = (\<lambda>ack b. (ee_mem b (ee_cur b), b\<lparr>ee_cur := ee_cur b + 1\<rparr>)),
     bstop = (\<lambda>b. b)\<rparr>"

lemma eesim_simps [simp]:
  "bstart (eesim_bus a) b = (True, b\<lparr>ee_cnt := 0\<rparr>)" "baddr (eesim_bus a) v b = (v AND 0xfe = a, b)"
  "bstop (eesim_bus a) b = b"
  "brecv (eesim_bus a) ack b = (ee_mem b (ee_cur b), b\<lparr>ee_cur := ee_cur b + 1\<rparr>)"
  "ee_cnt b = 0 \<Longrightarrow> bsend (eesim_bus a) v b =
     (True, b\<lparr>ee_cur := word_cat v (ucast (ee_cur b) :: u8), ee_cnt := 1\<rparr>)"
  "ee_cnt b = 1 \<Longrightarrow> bsend (eesim_bus a) v b =
     (True, b\<lparr>ee_cur := word_cat (ucast (drop_bit 8 (ee_cur b)) :: u8) v, ee_cnt := 2\<rparr>)"
  "ee_cnt b = 2 \<Longrightarrow> bsend (eesim_bus a) v b =
     (True, b\<lparr>ee_mem := (ee_mem b)(ee_cur b := v), ee_cur := ee_cur b + 1\<rparr>)"
  by (simp_all add: eesim_bus_def)

lemma store_Cons:
  assumes "length ds < 65535"
  shows "store m p (v # ds) = store (m(p := v)) (p + 1) ds"
proof
  fix x :: u16
  show "store m p (v # ds) x = store (m(p := v)) (p + 1) ds x"
  proof (cases "x = p")
    case True
    then have "x - (p + 1) = - 1" by simp
    then have "unat (x - (p + 1)) = 65535" by (simp add: unsigned_minus_1_eq_mask mask_eq_exp_minus_1)
    with assms True show ?thesis by (simp add: store_def)
  next
    case False
    then have n: "x - p \<noteq> 0" by simp
    have "x - (p + 1) = (x - p) - 1" by simp
    then have "unat (x - (p + 1)) = unat (x - p) - 1" using n by (metis unat_minus_one)
    moreover have "unat (x - p) \<noteq> 0" using n by (simp add: unat_eq_0)
    ultimately show ?thesis using False by (auto simp: store_def nth_Cons')
  qed
qed

lemma eesim_send:
  assumes "ee_cnt b = 2" "length ds \<le> 65535"
  shows "\<exists>c. bus_send (eesim_bus a) ds b = (0, b\<lparr>ee_mem := store (ee_mem b) (ee_cur b) ds, ee_cur := c\<rparr>)"
  using assms
proof (induction ds arbitrary: b)
  case Nil
  show ?case by (intro exI[of _ "ee_cur b"]) (cases b, simp)
next
  case (Cons v ds)
  let ?b = "b\<lparr>ee_mem := (ee_mem b)(ee_cur b := v), ee_cur := ee_cur b + 1\<rparr>"
  obtain c where "bus_send (eesim_bus a) ds ?b = (0, ?b\<lparr>ee_mem := store (ee_mem ?b) (ee_cur ?b) ds, ee_cur := c\<rparr>)"
    using Cons.IH[of ?b] Cons.prems by (simp del: fun_upd_apply) blast
  with Cons.prems show ?case by (intro exI[of _ c]) (simp add: store_Cons)
qed

lemma eesim_recv:
  "bus_recv (eesim_bus a) n b = (fetch (ee_mem b) (ee_cur b) n, b\<lparr>ee_cur := ee_cur b + of_nat n\<rparr>)"
proof (induction n arbitrary: b)
  case (Suc n)
  have "fetch m p (Suc n) = m p # fetch m (p + 1) n" for m p
    by (simp add: fetch_def upt_conv_Cons add.assoc comp_def del: upt_Suc flip: map_Suc_upt)
  with Suc show ?case by (simp add: algebra_simps)
qed (simp add: fetch_def)

lemma cat_bytes:
  "word_cat (ucast (drop_bit 8 (word_cat (hi::u8) (lo::u8) :: u16)) :: u8) (v::u8) = (word_cat hi v :: u16)"
  by (rule bit_word_eqI) (auto simp: bit_word_cat_iff bit_ucast_iff bit_drop_bit_eq)

lemma eesim_eeprom:
  assumes "a AND 0xfe = (a :: u8)"
  shows "eeprom (eesim_bus a) a ee_mem ee_cur (\<lambda>b. True)"
proof -
  have w: "\<exists>b'. bus_write (eesim_bus a) a (hi # lo # ds) b = (0, b') \<and>
      ee_mem b' = store (ee_mem b) (word_cat hi lo) ds \<and> (ds = [] \<longrightarrow> ee_cur b' = word_cat hi lo)"
    if len: "length ds \<le> 128" for b hi lo ds
  proof -
    let ?b = "b\<lparr>ee_cur := word_cat hi lo, ee_cnt := 2\<rparr>"
    obtain c where c: "bus_send (eesim_bus a) ds ?b =
        (0, ?b\<lparr>ee_mem := store (ee_mem b) (word_cat hi lo) ds, ee_cur := c\<rparr>)"
      using eesim_send[of ?b ds a] le_trans[OF len, of 65535] by auto
    then have "bus_send (eesim_bus a) (hi # lo # ds) (b\<lparr>ee_cnt := 0\<rparr>) =
        (0, ?b\<lparr>ee_mem := store (ee_mem b) (word_cat hi lo) ds, ee_cur := c\<rparr>)"
      by (simp add: cat_bytes)
    moreover have "ds = [] \<Longrightarrow> c = word_cat hi lo" using c by (auto dest: arg_cong[of _ _ ee_cur])
    ultimately show ?thesis
      using assms by (auto simp: bus_write_def)
  qed
  have r: "\<exists>b'. bus_read (eesim_bus a) a n b = (0, fetch (ee_mem b) (ee_cur b) n, b') \<and> ee_mem b' = ee_mem b"
    for b n
  proof -
    have "(a OR 1) AND 0xfe = a" using assms by (simp add: bit.conj_disj_distrib2)
    then show ?thesis
      using eesim_recv[of a n "b\<lparr>ee_cnt := 0\<rparr>"] by (simp add: bus_read_def)
  qed
  show ?thesis unfolding eeprom_def using w r by auto
qed

definition demo_env :: "'hw cenv" where
  "demo_env = \<lparr>wrapv = True, stk = (\<lambda>_ _. 0xAA), after = (\<lambda>_. [0])\<rparr>"

definition demo_eeprom :: eesim where
  "demo_eeprom = \<lparr>ee_mem = (\<lambda>_. 0), ee_cur = 0, ee_cnt = 0\<rparr>"

definition demo_serial :: io where
  "demo_serial = \<lparr>PORTB = 0, DDRB = 0, serial = [], baud = 0\<rparr>"

abbreviation demo_twi :: "(eesim simtwi) twi" where "demo_twi \<equiv> sim_twi 2 (eesim_bus 0xA0)"

lemma LogData_0: "LogData 0 = \<lparr>IIC_ADDR_E2 = 0xA0\<rparr>"
  by (simp add: LogData_def)

lemma demo_eeprom_law: "eeprom (eesim_bus 0xA0) (IIC_ADDR_E2 (LogData 0)) ee_mem ee_cur (\<lambda>b. True)"
  unfolding LogData_0 using eesim_eeprom [of "0xA0"] by simp

lemma always_prompt: "prompt B a (\<lambda>b. True)"
  by (simp add: prompt_def)

section \<open>A loop that does not end\<close>

lemma to_int_wraps: "to_int True n = okR (wrap16 n) \<or> to_int True n = okR n \<and> is_int16 n"
  by (auto simp: to_int_def)

lemma wrap16_range: "is_int16 (wrap16 n)"
  using signed_take_bit_int_less_exp [where n = 15 and k = n]
    signed_take_bit_int_greater_eq_minus_exp [where n = 15 and k = n]
  by (simp add: is_int16_def wrap16_def)

lemma to_int_wrapv:
  assumes "to_int True n = okR j"
  shows "is_int16 j"
  using assms to_int_wraps [of n] wrap16_range [of n] by auto

lemma read_loop_no_end:
  fixes T :: "'b twi" and b :: "'a io_scheme"
  assumes "read_loop T E l (\<lambda>i. i \<le> INT_MAX) i rc hw b = Some r" and "wrapv E" and "is_int16 i"
  shows "\<exists>e. r = Fault e"
proof -
  let ?P = "\<lambda>T' E' l' cond i' rc' hw' (b' :: 'a io_scheme) r'. cond = (\<lambda>i. i \<le> INT_MAX) \<longrightarrow> wrapv E' \<longrightarrow>
    is_int16 i' \<longrightarrow> (\<exists>e. r' = Fault e)"
  have "?P T E l (\<lambda>i. i \<le> INT_MAX) i rc hw b r"
  proof (rule read_loop.raw_induct [where P = ?P, OF _ assms(1)])
    fix f and T' :: "'b twi" and E' l' cond i' rc' hw' r' and b' :: "'a io_scheme"
    assume IH: "\<And>T' E' l' cond i' rc' hw' b' r'. f T' E' l' cond i' rc' hw' b' = Some r' \<Longrightarrow>
        ?P T' E' l' cond i' rc' hw' b' r'"
      and step: "(if cond i' then bindR (ReadPage T' E' l' i' 0 hw' b') (\<lambda>(rc1, hw1, b1).
          bindR (to_int (wrapv E') (i' + 1)) (\<lambda>i1. f T' E' l' cond i1 rc1 hw1 b1))
        else okR (rc', hw', b')) = Some r'"
    show "?P T' E' l' cond i' rc' hw' b' r'"
    proof (intro impI)
      assume c: "cond = (\<lambda>i. i \<le> INT_MAX)" "wrapv E'" "is_int16 i'"
      then have "cond i'" by (simp add: is_int16_def)
      with step have s: "bindR (ReadPage T' E' l' i' 0 hw' b') (\<lambda>(rc1, hw1, b1).
          bindR (to_int True (i' + 1)) (\<lambda>i1. f T' E' l' cond i1 rc1 hw1 b1)) = Some r'"
        using c(2) by simp
      show "\<exists>e. r' = Fault e"
      proof (cases r')
        case (Ok v)
        with s obtain rc1 hw1 b1 i1 where "to_int True (i' + 1) = okR i1"
            "f T' E' l' cond i1 rc1 hw1 b1 = Some r'"
          by (auto simp: bindR_ok_iff)
        with IH [of T' E' l' cond i1 rc1 hw1 b1 r'] to_int_wrapv c show ?thesis by blast
      qed simp
    qed
  qed
  with assms(2,3) show ?thesis by blast
qed

section \<open>Properties of the event log\<close>

text \<open>
  Property C10. Round trip through the EEPROM: a text of at most 31 characters written to a
  page is printed unchanged when that page is read after the write cycle of the memory, and
  no other page changes.
\<close>

theorem page_round_trip:
  assumes "twi_master T (B :: 'b bus) R" and "eeprom B (IIC_ADDR_E2 l) mem cur ready"
    and "R Idle st d hw b" and "ready b" and "page_ok E page 0" and "0 \<le> page" and "length (cstr data) < 32"
  shows "\<exists>hw1 st1 d1 b1. Write T E l page data 0 hw io = okR (0, hw1, io) \<and> R Idle st1 d1 hw1 b1 \<and>
    (\<forall>q. 0 \<le> q \<and> q < 2048 \<and> q \<noteq> page \<longrightarrow>
       fetch (mem b1) (word_of_int (q * 32)) 32 = fetch (mem b) (word_of_int (q * 32)) 32) \<and>
    (\<forall>hw2 st2 d2 b2. R Idle st2 d2 hw2 b2 \<and> ready b2 \<and> mem b2 = mem b1 \<longrightarrow>
       (\<exists>hw3. ReadPage T E l page 0 hw2 io = okR (0, hw3, serial_print (cstr data) io)))"
proof -
  let ?ds = "bytes_of (cstr data) @ 0 # map (stk E hw) [Suc (length (cstr data))..<32]"
  have page: "page < 2044" using assms(5) by (auto simp: page_ok_def DEVLOCK_def)
  obtain hw1 st1 d1 b1 where 1: "Write T E l page data 0 hw io = okR (0, hw1, snd (ok page 0 io))"
      "R Idle st1 d1 hw1 b1" "mem b1 = store (mem b) (word_of_int (page * 32)) ?ds"
    by (rule Write_page [OF assms(1-5,7)])
  have len: "length ?ds = 32" using assms(7) by simp
  have other: "fetch (mem b1) (word_of_int (q * 32)) 32 = fetch (mem b) (word_of_int (q * 32)) 32"
    if "0 \<le> q" "q < 2048" "q \<noteq> page" for q
    unfolding 1(3) using fetch_store_other [of page q ?ds] that assms(6) page len by auto
  have f: "fetch (mem b1) (word_of_int (page * 32)) 32 = ?ds"
    unfolding 1(3) using fetch_store [of 32 ?ds] len by simp
  have read: "\<exists>hw3. ReadPage T E l page 0 hw2 io = okR (0, hw3, serial_print (cstr data) io)"
    if r: "R Idle st2 d2 hw2 b2" "ready b2" "mem b2 = mem b1" for hw2 st2 d2 b2
  proof -
    have "print_array (fetch (mem b2) (word_of_int (page * 32)) 32) (after E hw2) (snd (ok page 0 io)) =
        okR (serial_print (cstr data) io)"
      unfolding r(3) f using print_array_string page by simp
    from ReadPage_page [OF assms(1,2) r(1,2) assms(5) this] show ?thesis by blast
  qed
  from 1(1) page have "Write T E l page data 0 hw io = okR (0, hw1, io)" by simp
  with 1(2) other read show ?thesis by blast
qed

theorem page_round_trip_witness:
  "\<exists>hw1 hw3. Write demo_twi demo_env (LogData 0) 2043 ''on'' 0 (sim_idle demo_eeprom) demo_serial = okR (0, hw1, demo_serial) \<and>
     ReadPage demo_twi demo_env (LogData 0) 2043 0 hw1 demo_serial = okR (0, hw3, serial_print ''on'' demo_serial)"
proof -
  have p: "page_ok demo_env 2043 0" "(0::int) \<le> 2043" "cstr ''on'' = ''on''" "length (cstr ''on'') < 32"
    by (simp_all add: page_ok_def demo_env_def cstr_def)
  from page_round_trip [where R = sim_rel and io = demo_serial,
      OF sim_twi_master [of 2 "eesim_bus 0xA0"] demo_eeprom_law sim_idle_rel TrueI p(1,2,4), of demo_eeprom]
  show ?thesis unfolding p(3) by blast
qed

lemma reserved_offset:
  assumes "0 \<le> page" "page < 2044" "i < 128"
  shows "32 \<le> unat (0xFF80 + of_nat i - (word_of_int (page * 32) :: u16))"
proof -
  let ?d = "65408 + int i - page * 32"
  have "0xFF80 + of_nat i - (word_of_int (page * 32) :: u16) = word_of_int ?d" by simp
  then have "unat (0xFF80 + of_nat i - (word_of_int (page * 32) :: u16)) = nat (?d mod 65536)"
    by (simp only: unat_eq_nat_uint uint_word_of_int) (simp add: take_bit_eq_mod)
  moreover have "?d mod 65536 = ?d" using assms by (intro mod_pos_pos_trivial) linarith+
  ultimately show ?thesis using assms by linarith
qed

lemma reserved_kept:
  assumes "0 \<le> page" "page < 2044" "length ds \<le> 32"
  shows "fetch (store m (word_of_int (page * 32)) ds) 0xFF80 128 = fetch m 0xFF80 128"
proof (rule nth_equalityI)
  fix i assume "i < length (fetch (store m (word_of_int (page * 32)) ds) 0xFF80 128)"
  then have i: "i < 128" by simp
  have "\<not> unat (0xFF80 + of_nat i - (word_of_int (page * 32) :: u16)) < length ds"
    using reserved_offset [OF assms(1,2) i] assms(3) by linarith
  then show "fetch (store m (word_of_int (page * 32)) ds) 0xFF80 128 ! i = fetch m 0xFF80 128 ! i"
    using i by (simp add: fetch_def store_def)
qed simp

text \<open>
  Property C34. The reserved pages are protected: without the devlock, \<open>Write\<close> with any page number
  that is not negative leaves the 128 bytes from 0xFF80 on as they are; numbers from 2044 on
  are refused with 1 and without bus traffic.
\<close>

theorem reserved_pages_protected:
  assumes "twi_master T (B :: 'b bus) R" and "eeprom B (IIC_ADDR_E2 l) mem cur ready"
    and "R Idle st d hw b" and "ready b" and "wrapv E \<or> page < 1024" and "0 \<le> page" and "dl \<noteq> DEVLOCK"
    and "length (cstr data) < 32"
  shows "\<exists>rc hw1 st1 d1 b1 io1. Write T E l page data dl hw io = okR (rc, hw1, io1) \<and> R Idle st1 d1 hw1 b1 \<and>
    fetch (mem b1) 0xFF80 128 = fetch (mem b) 0xFF80 128 \<and>
    (if page < 2044 then rc = 0 else rc = 1 \<and> hw1 = hw)"
proof (cases "page < 2044")
  case True
  let ?ds = "bytes_of (cstr data) @ 0 # map (stk E hw) [Suc (length (cstr data))..<32]"
  have pk: "page_ok E page dl" using True assms(5,6) by (auto simp: page_ok_def is_int16_def)
  obtain hw1 st1 d1 b1 where 1: "Write T E l page data dl hw io = okR (0, hw1, snd (ok page dl io))"
      "R Idle st1 d1 hw1 b1" "mem b1 = store (mem b) (word_of_int (page * 32)) ?ds"
    by (rule Write_page [OF assms(1-4) pk assms(8)])
  have "fetch (mem b1) 0xFF80 128 = fetch (mem b) 0xFF80 128"
    unfolding 1(3) using assms(6,8) True by (intro reserved_kept) simp_all
  with 1(1,2) True show ?thesis by auto
next
  case False
  then have "Write T E l page data dl hw io = okR (1, hw, snd (ok page dl io))"
    using assms(7) by (simp add: Write_def ok_def Let_def)
  with False assms(3) show ?thesis by auto
qed

theorem reserved_pages_protected_witness:
  "\<exists>hw1 io1. Write demo_twi demo_env (LogData 0) 2044 ''x'' 0 (sim_idle demo_eeprom) demo_serial = okR (1, hw1, io1) \<and>
     hw1 = sim_idle demo_eeprom"
proof -
  have p: "wrapv demo_env \<or> (2044::int) < 1024" "(0::int) \<le> 2044" "0 \<noteq> DEVLOCK" "length (cstr ''x'') < 32"
    by (simp_all add: demo_env_def cstr_def DEVLOCK_def)
  from reserved_pages_protected [where R = sim_rel and io = demo_serial,
      OF sim_twi_master [of 2 "eesim_bus 0xA0"] demo_eeprom_law sim_idle_rel TrueI p, of demo_eeprom]
  show ?thesis by auto
qed

text \<open>
  Property C40. The protection has a hole: the guard compares a signed page number with 2044
  only from above, so page -4 passes it without the devlock and the write goes to address
  0xFF80, where the position of the next entry is kept.
\<close>

theorem negative_page_overwrites_position:
  assumes "twi_master T (B :: 'b bus) R" and "eeprom B (IIC_ADDR_E2 l) mem cur ready"
    and "R Idle st d hw b" and "ready b" and "length (cstr data) < 32"
  shows "\<exists>hw1 st1 d1 b1. Write T E l (-4) data 0 hw io = okR (0, hw1, io) \<and> R Idle st1 d1 hw1 b1 \<and>
    fetch (mem b1) L_ADDR (length (cstr data)) = bytes_of (cstr data)"
proof -
  have pk: "page_ok E (-4) 0" by (simp add: page_ok_def is_int16_def)
  let ?ds = "bytes_of (cstr data) @ 0 # map (stk E hw) [Suc (length (cstr data))..<32]"
  obtain hw1 st1 d1 b1 where 1: "Write T E l (-4) data 0 hw io = okR (0, hw1, snd (ok (-4) 0 io))"
      "R Idle st1 d1 hw1 b1" "mem b1 = store (mem b) (word_of_int (-4 * 32)) ?ds"
    by (rule Write_page [OF assms(1-4) pk assms(5)])
  have "(word_of_int (-4 * 32) :: u16) = L_ADDR" by code_simp
  then have "fetch (mem b1) L_ADDR (length (cstr data)) = bytes_of (cstr data)"
    unfolding 1(3) using fetch_store [of "length (cstr data)" ?ds "mem b" L_ADDR] assms(5) by simp
  moreover have "snd (ok (-4) 0 io) = io" by simp
  ultimately show ?thesis using 1(1,2) by metis
qed

theorem negative_page_overwrites_position_witness:
  "\<exists>hw1. Write demo_twi demo_env (LogData 0) (-4) ''9999'' 0 (sim_idle demo_eeprom) demo_serial = okR (0, hw1, demo_serial) \<and>
     fetch (ee_mem (sm_bus hw1)) L_ADDR 4 = [57, 57, 57, 57]"
proof -
  have l: "length (cstr ''9999'') < 32" "length (cstr ''9999'') = 4" "bytes_of (cstr ''9999'') = [57, 57, 57, 57]"
    by (simp_all add: cstr_def bytes_of_def)
  from negative_page_overwrites_position [where R = sim_rel and io = demo_serial and E = demo_env,
      OF sim_twi_master [of 2 "eesim_bus 0xA0"] demo_eeprom_law sim_idle_rel TrueI l(1), of demo_eeprom]
  show ?thesis unfolding l(2,3) sim_rel_def by blast
qed

text \<open>
  The position of the next entry: \<open>upd_addr\<close> stores the successor of a position,
  counting cyclically from 0 to 2043, as four decimal digits, and \<open>get_addr\<close> reads it back.
\<close>

lemma position_round_trip:
  assumes "twi_master T (B :: 'b bus) R" and "eeprom B (IIC_ADDR_E2 l) mem cur ready"
    and "R Idle st d hw b" and "ready b" and "0 \<le> c" and "c < 2044" and "\<And>hw. 0 \<in> set (after E hw)"
  shows "\<exists>hw1 st1 d1 b1 out. upd_addr T E l c hw io = okR (hw1, serial_print out io) \<and> R Idle st1 d1 hw1 b1 \<and>
    (\<forall>hw2 st2 d2 b2. R Idle st2 d2 hw2 b2 \<and> ready b2 \<and> mem b2 = mem b1 \<longrightarrow>
       (\<exists>hw3 out'. get_addr T E l hw2 io = okR ((c + 1) mod 2044, hw3, serial_print out' io)))"
proof -
  have c: "0 \<le> (c + 1) mod 2044" "(c + 1) mod 2044 < 2044" by simp_all
  obtain hw1 st1 d1 b1 out where 1: "upd_addr T E l c hw io = okR (hw1, serial_print out io)"
      "R Idle st1 d1 hw1 b1" "mem b1 = store (mem b) 0xFF80 (addr_digits ((c + 1) mod 2044))"
    by (rule upd_addr_stores [OF assms(1-7)])
  have f: "fetch (mem b1) 0xFF80 4 = addr_digits ((c + 1) mod 2044)"
    unfolding 1(3) using fetch_store [of 4 "addr_digits ((c + 1) mod 2044)"] c by simp
  have "\<exists>hw3 out'. get_addr T E l hw2 io = okR ((c + 1) mod 2044, hw3, serial_print out' io)"
    if r: "R Idle st2 d2 hw2 b2" "ready b2" "mem b2 = mem b1" for hw2 st2 d2 b2
  proof -
    have "fetch (mem b2) 0xFF80 4 = addr_digits ((c + 1) mod 2044)" using f r(3) by simp
    from get_addr_reads [OF assms(1,2) r(1,2) c assms(7) this] show ?thesis by blast
  qed
  with 1(1,2) show ?thesis by blast
qed

lemma position_round_trip_witness:
  "\<exists>hw1 hw3 io1 io3. upd_addr demo_twi demo_env (LogData 0) 2043 (sim_idle demo_eeprom) demo_serial = okR (hw1, io1) \<and>
     get_addr demo_twi demo_env (LogData 0) hw1 demo_serial = okR (0, hw3, io3)"
proof -
  have p: "(0::int) \<le> 2043" "(2043::int) < 2044" "\<And>hw. 0 \<in> set (after demo_env hw)"
    "(2043 + 1) mod 2044 = (0::int)" by (simp_all add: demo_env_def)
  from position_round_trip [where R = sim_rel and io = demo_serial and E = demo_env,
      OF sim_twi_master [of 2 "eesim_bus 0xA0"] demo_eeprom_law sim_idle_rel TrueI p(1-3), of demo_eeprom]
  show ?thesis unfolding p(4) by blast
qed

lemma ReadAll_pages:
  assumes "twi_master T (B :: 'b bus) R" and "eeprom B (IIC_ADDR_E2 l) mem cur ready"
    and "R Idle st d hw b" and "ready b" and "wrapv E" and "list_all (terminated (mem b)) [0..2043]"
  shows "\<exists>hw1 st1 d1 b1. ReadAll T E l hw io =
      okR (0, hw1, serial_print (concat (map (page_text (mem b)) [0..2043])) io) \<and>
    R Idle st1 d1 hw1 b1 \<and> mem b1 = mem b"
proof -
  have t: "\<forall>p\<in>{0..2043}. terminated (mem b) p" using assms(6) by (simp add: list_all_iff)
  have e: "(2043::int) < 2044" "wrapv E \<or> (2043::int) < 1024" "(0::int) \<le> 0" "(0::int) \<le> 2043 + 1"
    using assms(5) by simp_all
  have c: "\<And>i. 0 \<le> i \<Longrightarrow> i \<le> 2043 + 1 \<Longrightarrow> (i < 2044) = (i \<le> (2043::int))" by auto
  from read_loop_pages [where cond = "\<lambda>i. i < 2044", OF assms(1,2) e(1,2) c assms(3,4) e(3,4) t, of 0 io]
  show ?thesis by (simp only: ReadAll_def) auto
qed

lemma demo_terminated: "terminated (ee_mem demo_eeprom) p"
  by (auto simp: terminated_def fetch_def demo_eeprom_def image_def intro: exI [of _ 0])

text \<open>
  The address of a page is computed in 16 bit \<open>int\<close> arithmetic: for the pages from
  1024 on the product overflows, so without a compiler that wraps it around, half of the
  documented pages can be neither written nor read.
\<close>

lemma upper_pages_overflow:
  assumes "1024 \<le> page" and "page < 2044" and "\<not> wrapv E"
  shows "Write T E l page data dl hw io = failR SignedOverflow \<and> ReadPage T E l page dl hw io = failR SignedOverflow"
proof -
  have "page_addr (wrapv E) page = failR SignedOverflow"
    using assms by (simp add: page_addr_def to_int_def is_int16_def)
  moreover have "fst (ok page dl io) = False" using assms by (simp add: ok_def)
  ultimately show ?thesis by (simp add: Write_def ReadPage_def Let_def split_beta)
qed

lemma upper_pages_overflow_witness:
  "Write demo_twi (demo_env\<lparr>wrapv := False\<rparr>) (LogData 0) 1024 ''x'' 0 (sim_idle demo_eeprom) demo_serial = failR SignedOverflow"
  using upper_pages_overflow [of 1024 "demo_env\<lparr>wrapv := False\<rparr>" demo_twi "LogData 0" "''x''" 0
      "sim_idle demo_eeprom" demo_serial] by simp

lemma to_int_word:
  assumes "to_int wrapping n = okR v"
  shows "(word_of_int v :: u16) = word_of_int n"
  using assms by (auto simp: to_int_def split: if_splits)

lemma to_int_True: "\<exists>v. to_int True n = okR v"
  by (simp add: to_int_def)

text \<open>
  The first two checks of \<open>ReadFT\<close> compare a 16 bit value with 0xFFFF and never fire; the last one
  does not fire for a documented first page.
\<close>

lemma ReadFT_checks:
  assumes "to_int (wrapv E) (eaddr * 32) = okR e" and "to_int (wrapv E) (saddr * 32) = okR s"
    and "0 \<le> saddr" and "saddr < 2044"
  shows "ReadFT T E l saddr eaddr dl hw io =
    (if saddr > eaddr then okR (1, hw, io) else read_loop T E l (\<lambda>i. i \<le> eaddr) saddr 1 hw io)"
proof -
  have no: "\<not> (word_of_int k :: u16) > E2_END_ADDR" for k
    using unsigned_less [of "word_of_int k :: u16", where ?'a = nat] by (simp add: E2_END_ADDR_def word_less_nat_alt not_less)
  have "unat (word_of_int (saddr * 32) :: u16) = 32 * nat saddr" using assms(3,4) by (intro unat_page) simp_all
  then have "\<not> (word_of_int s :: u16) > E2_END_ADDR - 32"
    unfolding to_int_word [OF assms(2)] E2_END_ADDR_def using assms(3,4) by (simp add: word_less_nat_alt)
  with assms(1,2) no show ?thesis by (simp add: ReadFT_def)
qed

text \<open>
  Property C33. \<open>ReadFT\<close> ends and prints the texts of the pages from the first to the last one in
  order, with result 0 and the memory unchanged, for any range of documented pages that hold
  terminated texts, if \<open>int\<close> products wrap or the pages are among the first 1024. With the
  first page after the last one it prints nothing and the result is 1.
\<close>

theorem ReadFT_prints_range:
  assumes "twi_master T (B :: 'b bus) R" and "eeprom B (IIC_ADDR_E2 l) mem cur ready"
    and "R Idle st d hw b" and "ready b" and "0 \<le> saddr" "saddr < 2044" and "0 \<le> eaddr" "eaddr < 2044"
    and wrap: "wrapv E \<or> saddr < 1024 \<and> eaddr < 1024" and t: "list_all (terminated (mem b)) [saddr..eaddr]"
  shows "\<exists>hw1 st1 d1 b1. ReadFT T E l saddr eaddr dl hw io =
      okR (if saddr \<le> eaddr then 0 else 1, hw1, serial_print (concat (map (page_text (mem b)) [saddr..eaddr])) io) \<and>
    R Idle st1 d1 hw1 b1 \<and> mem b1 = mem b"
proof -
  have "\<exists>v. to_int (wrapv E) (n * 32) = okR v" if "0 \<le> n" "n < 2044" "wrapv E \<or> n < 1024" for n
    using that by (auto simp: to_int_def is_int16_def)
  then obtain e s where "to_int (wrapv E) (eaddr * 32) = okR e" "to_int (wrapv E) (saddr * 32) = okR s"
    using assms(5-8) wrap by meson
  note r = ReadFT_checks [OF this assms(5,6), of T l dl hw io]
  show ?thesis
  proof (cases "saddr \<le> eaddr")
    case False
    with r assms(3) show ?thesis by (auto simp: serial_print_def)
  next
    case True
    have e: "wrapv E \<or> eaddr < 1024" "saddr \<le> eaddr + 1" "\<forall>p\<in>{saddr..eaddr}. terminated (mem b) p"
      using wrap True t by (auto simp: list_all_iff)
    from read_loop_pages [where cond = "\<lambda>i. i \<le> eaddr", OF assms(1,2,8) e(1) refl assms(3,4,5) e(2,3), of 1 io] r True
    show ?thesis by auto
  qed
qed

theorem ReadFT_prints_range_witness:
  "\<exists>hw1. ReadFT demo_twi demo_env (LogData 0) 1020 1030 0 (sim_idle demo_eeprom) demo_serial =
     okR (0, hw1, serial_print (concat (map (page_text (ee_mem demo_eeprom)) [1020..1030])) demo_serial)"
proof -
  have p: "(0::int) \<le> 1020" "(1020::int) < 2044" "(0::int) \<le> 1030" "(1030::int) < 2044" by simp_all
  have w: "wrapv demo_env \<or> (1020::int) < 1024 \<and> (1030::int) < 1024" "list_all (terminated (ee_mem demo_eeprom)) [1020..1030]"
    using demo_terminated by (simp_all only: list_all_iff) (simp_all add: demo_env_def)
  have le: "(1020::int) \<le> 1030" by simp
  from ReadFT_prints_range [where R = sim_rel and io = demo_serial,
      OF sim_twi_master [of 2 "eesim_bus 0xA0"] demo_eeprom_law sim_idle_rel TrueI p w, of 0, unfolded if_P [OF le]]
  show ?thesis by blast
qed

text \<open>
  The last page is not checked: with 32767 the loop condition always holds, and with a
  compiler that wraps, the call from any documented first page never returns a result.
\<close>

lemma ReadFT_never_returns:
  assumes "wrapv E" and "0 \<le> saddr" and "saddr < 2044"
  shows "ReadFT T E l saddr INT_MAX dl hw io \<noteq> okR v"
proof
  assume r: "ReadFT T E l saddr INT_MAX dl hw io = okR v"
  obtain e s where "to_int True (INT_MAX * 32) = okR e" "to_int True (saddr * 32) = okR s" using to_int_True by meson
  from ReadFT_checks [of E, unfolded eqTrueI [OF assms(1)], OF this assms(2,3), of T l dl hw io] r assms(2,3)
  have "read_loop T E l (\<lambda>i. i \<le> INT_MAX) saddr 1 hw io = okR v" by (simp split: if_splits)
  from read_loop_no_end [OF this assms(1)] assms(2,3) show False by (auto simp: is_int16_def)
qed

lemma ReadFT_never_returns_witness:
  "ReadFT demo_twi demo_env (LogData 0) 0 INT_MAX 0 (sim_idle demo_eeprom) demo_serial \<noteq> okR (0, sim_idle demo_eeprom, demo_serial)"
  by (rule ReadFT_never_returns) (simp_all add: demo_env_def)

section \<open>Appending an entry\<close>

text \<open>Without the devlock, \<open>Reset\<close> is refused like any write to a reserved page.\<close>

lemma Reset_refused: "dl \<noteq> DEVLOCK \<Longrightarrow> Reset T E l dl hw io = okR (hw, snd (ok 2044 dl io))"
  by (simp add: Reset_def Write_def ok_def Let_def)

lemma position_keeps_pages:
  assumes "0 \<le> q" "q < 2044" "length ds \<le> 32"
  shows "page_text (store m 0xFF80 ds) q = page_text m q"
proof -
  have "(word_of_int (2044 * 32) :: u16) = 0xFF80" by simp
  with fetch_store_other [of 2044 q ds m] assms show ?thesis by (simp add: page_text_def)
qed

lemma page_text_store:
  assumes "length (cstr s) < 32"
  shows "page_text (store m (word_of_int (p * 32)) (bytes_of (cstr s) @ 0 # map f [Suc (length (cstr s))..<32])) p = cstr s"
proof -
  let ?ds = "bytes_of (cstr s) @ 0 # map f [Suc (length (cstr s))..<32]"
  have "fetch (store m (word_of_int (p * 32)) ?ds) (word_of_int (p * 32)) 32 = ?ds"
    using fetch_store [of 32 ?ds] assms by simp
  then show ?thesis
    using takeWhile_terminated [of "bytes_of (cstr s)"] bytes_cstr_nonzero [of _ s] by (simp add: page_text_def)
qed

lemma page_text_other:
  assumes "0 \<le> p" "p < 2048" "0 \<le> q" "q < 2048" "p \<noteq> q" "length ds \<le> 32"
  shows "page_text (store m (word_of_int (p * 32)) ds) q = page_text m q"
  using fetch_store_other [OF assms] by (simp add: page_text_def)

text \<open>The calls of \<open>WriteAuto\<close>, with what it prints before and after the write.\<close>

abbreviation wa_before :: "int \<Rightarrow> string" where
  "wa_before c \<equiv> ''WriteAuto - addr1: '' @ fmt_d c @ CRLF @ ''WriteAuto - addr2: '' @ fmt_d c @ CRLF"

abbreviation wa_after :: string where "wa_after \<equiv> ''WriteAuto - writing result: '' @ fmt_d 0 @ CRLF"

lemma WriteAuto_calls:
  assumes "get_addr T E l hw io = okR (c, hw1, serial_print o1 io)" and "0 \<le> c" and "c < 2044"
    and "Write T E l c data 0 hw1 (serial_print (o1 @ wa_before c) io) = okR (0, hw2, snd (ok c 0 (serial_print (o1 @ wa_before c) io)))"
    and "upd_addr T E l c hw2 (serial_print (o1 @ wa_before c @ wa_after) io) =
      okR (hw3, serial_print o2 (serial_print (o1 @ wa_before c @ wa_after) io))"
  shows "WriteAuto T E l data hw io = okR (0, hw3, serial_print (o1 @ wa_before c @ wa_after @ o2) io)"
  using assms by (simp add: WriteAuto_def Let_def serial_println_def)

lemma WriteAuto_stores:
  assumes T: "twi_master T (B :: 'b bus) R" and P: "eeprom B (IIC_ADDR_E2 l) mem cur ready"
    and Q: "prompt B (IIC_ADDR_E2 l) ready"
    and R: "R Idle st d hw b" "ready b" and c: "0 \<le> c" "c < 2044" and w: "wrapv E \<or> c < 1024"
    and z: "\<And>hw. 0 \<in> set (after E hw)" and pos: "fetch (mem b) 0xFF80 4 = addr_digits c"
    and len: "length (cstr data) < 32"
  obtains hw' st' d' b' out f where "WriteAuto T E l data hw io = okR (0, hw', serial_print out io)"
    "R Idle st' d' hw' b'" "ready b'"
    "mem b' = store (store (mem b) (word_of_int (c * 32)) (page_bytes data f)) 0xFF80 (addr_digits ((c + 1) mod 2044))"
proof -
  obtain hw1 st1 d1 b1 o1 where 1: "get_addr T E l hw io = okR (c, hw1, serial_print o1 io)"
      "R Idle st1 d1 hw1 b1" "mem b1 = mem b" "ready b1"
    by (rule get_addr_reads [OF T P R c z pos])
  have pk: "page_ok E c 0" using c w by (auto simp: page_ok_def is_int16_def)
  let ?io = "serial_print (o1 @ wa_before c) io" and ?io' = "serial_print (o1 @ wa_before c @ wa_after) io"
  obtain a0 a1 hw2 st2 d2 b2 where 2: "Write T E l c data 0 hw1 ?io = okR (0, hw2, snd (ok c 0 ?io))"
      "R Idle st2 d2 hw2 b2" "word_cat a0 a1 = (word_of_int (c * 32) :: u16)"
      "bus_write B (IIC_ADDR_E2 l) (a0 # a1 # page_bytes data (stk E hw1)) b1 = (0, b2)"
      "mem b2 = store (mem b1) (word_of_int (c * 32)) (page_bytes data (stk E hw1))"
    by (rule Write_transaction [OF T P 1(2,4) pk len])
  have r2: "ready b2" using Q 1(4) 2(4) unfolding prompt_def by (metis snd_conv)
  obtain hw3 st3 d3 b3 o2 where 3: "upd_addr T E l c hw2 ?io' = okR (hw3, serial_print o2 ?io')"
      "R Idle st3 d3 hw3 b3" "ready b3" "mem b3 = store (mem b2) 0xFF80 (addr_digits ((c + 1) mod 2044))"
    using upd_addr_stores [OF T P 2(2) r2 c z] Q by metis
  note WriteAuto_calls [OF 1(1) c 2(1) 3(1)]
  with 1(3) 2(5) 3(2-4) that show thesis by simp
qed

text \<open>What such a write does to the pages and to the position.\<close>

lemma logged_memory:
  assumes c: "0 \<le> c" "c < 2044" and len: "length (cstr data) < 32"
    and m: "m' = store (store m (word_of_int (c * 32)) (page_bytes data f)) 0xFF80 (addr_digits ((c + 1) mod 2044))"
  shows "page_text m' c = cstr data" and "fetch m' 0xFF80 4 = addr_digits ((c + 1) mod 2044)"
    and "0 \<le> q \<Longrightarrow> q < 2044 \<Longrightarrow> q \<noteq> c \<Longrightarrow> page_text m' q = page_text m q"
proof -
  have n: "length (addr_digits ((c + 1) mod 2044)) = 4" by simp
  show "page_text m' c = cstr data"
    unfolding m using position_keeps_pages [OF c] n page_text_store [OF len] by simp
  show "fetch m' 0xFF80 4 = addr_digits ((c + 1) mod 2044)"
    unfolding m using fetch_store [of 4 "addr_digits ((c + 1) mod 2044)"] n by simp
  show "page_text m' q = page_text m q" if "0 \<le> q" "q < 2044" "q \<noteq> c"
    unfolding m using position_keeps_pages [OF that(1,2)] page_text_other [of c q "page_bytes data f"] that c n len by simp
qed

text \<open>
  \<open>WriteAuto\<close> appends to the cyclic log: with position \<open>c\<close> stored, the text goes
  to page \<open>c\<close>, the stored position becomes the cyclic successor of \<open>c\<close>, and no other page
  changes, on a memory whose write cycle is over before the next transaction (the code does
  not wait for it).
\<close>

lemma WriteAuto_appends:
  assumes "twi_master T (B :: 'b bus) R" and "eeprom B (IIC_ADDR_E2 l) mem cur ready"
    and "prompt B (IIC_ADDR_E2 l) ready" and "R Idle st d hw b" and "ready b" and "0 \<le> c" and "c < 2044" and "wrapv E \<or> c < 1024"
    and "\<And>hw. 0 \<in> set (after E hw)" and "fetch (mem b) 0xFF80 4 = addr_digits c" and "length (cstr data) < 32"
  shows "\<exists>hw' st' d' b' out. WriteAuto T E l data hw io = okR (0, hw', serial_print out io) \<and> R Idle st' d' hw' b' \<and>
    page_text (mem b') c = cstr data \<and> fetch (mem b') 0xFF80 4 = addr_digits ((c + 1) mod 2044) \<and>
    (\<forall>q. 0 \<le> q \<and> q < 2044 \<and> q \<noteq> c \<longrightarrow> page_text (mem b') q = page_text (mem b) q)"
proof -
  obtain hw' st' d' b' out f where w: "WriteAuto T E l data hw io = okR (0, hw', serial_print out io)"
    "R Idle st' d' hw' b'" "ready b'"
    "mem b' = store (store (mem b) (word_of_int (c * 32)) (page_bytes data f)) 0xFF80 (addr_digits ((c + 1) mod 2044))"
    by (rule WriteAuto_stores [OF assms])
  with logged_memory [OF assms(6,7,11) w(4)] show ?thesis by blast
qed

definition demo_logged :: eesim where
  "demo_logged = demo_eeprom\<lparr>ee_mem := store (\<lambda>_. 0) 0xFF80 (addr_digits 7)\<rparr>"

lemma demo_logged_position: "fetch (ee_mem demo_logged) 0xFF80 4 = addr_digits 7"
  using fetch_store [of 4 "addr_digits 7"] by (simp add: demo_logged_def)

lemma demo_logged_terminated:
  assumes "0 \<le> q" "q < 2044"
  shows "terminated (ee_mem demo_logged) q"
proof -
  have "(word_of_int (2044 * 32) :: u16) = 0xFF80" by simp
  with fetch_store_other [of 2044 q "addr_digits 7" "\<lambda>_. 0"] demo_terminated [of q] assms show ?thesis
    by (simp add: terminated_def demo_logged_def demo_eeprom_def)
qed

lemma WriteAuto_appends_witness:
  "\<exists>hw' out. WriteAuto demo_twi demo_env (LogData 0) ''on'' (sim_idle demo_logged) demo_serial =
     okR (0, hw', serial_print out demo_serial) \<and> page_text (ee_mem (sm_bus hw')) 7 = ''on'' \<and>
     fetch (ee_mem (sm_bus hw')) 0xFF80 4 = addr_digits 8"
proof -
  have s: "cstr ''on'' = ''on''" by (simp add: cstr_def)
  have p: "(0::int) \<le> 7" "(7::int) < 2044" "wrapv demo_env \<or> (7::int) < 1024" "\<And>hw. 0 \<in> set (after demo_env hw)"
    "length (cstr ''on'') < 32" "(7 + 1) mod 2044 = (8::int)" by (simp_all add: demo_env_def s)
  from WriteAuto_appends [where R = sim_rel and io = demo_serial,
      OF sim_twi_master [of 2 "eesim_bus 0xA0"] demo_eeprom_law always_prompt sim_idle_rel TrueI p(1-4) demo_logged_position p(5)]
  show ?thesis unfolding s p(6) sim_rel_def by blast
qed

end
