(* ===== verification/Kernel_Main.thy ===== *)
theory Kernel_Main
  imports Message_Delivery Task_Ring Iic_Driver Log_Data
begin

text \<open>
  The kernel put together (\<open>kernel.cpp\<close>) and the start of the application
  (\<open>ENDG3051_APP.ino\<close>): the main loop, and the
  interleavings of the main loop with the kernel's interface calls and with interrupts.
\<close>

section \<open>Start and main loop\<close>

definition kernel_setup :: "('s \<Rightarrow> 's) \<Rightarrow> 's \<Rightarrow> 's" where
  "kernel_setup user_init s = user_init s"

definition loop :: "('a taskring_scheme) fn_bodies \<Rightarrow> ('a taskring_scheme) recv_bodies \<Rightarrow>
    ('a taskring_scheme) task_fns \<Rightarrow> ('a taskring_scheme) task_loops \<Rightarrow> 'a taskring_scheme \<Rightarrow>
    ('a taskring_scheme) res" where
  "loop fb rb tf tc s = bindR (MQ_Loop fb rb 2 s) (\<lambda>s1. TaskRing_Loop tf tc s1)"

text \<open>The Arduino main program calls \<open>loop\<close> forever; \<open>n\<close> iterations of it.\<close>

fun kernel_loops :: "('a taskring_scheme) fn_bodies \<Rightarrow> ('a taskring_scheme) recv_bodies \<Rightarrow>
    ('a taskring_scheme) task_fns \<Rightarrow> ('a taskring_scheme) task_loops \<Rightarrow> nat \<Rightarrow> 'a taskring_scheme \<Rightarrow>
    ('a taskring_scheme) res" where
  "kernel_loops fb rb tf tc 0 s = okR s"
| "kernel_loops fb rb tf tc (Suc n) s = bindR (loop fb rb tf tc s) (kernel_loops fb rb tf tc n)"

text \<open>The application of the repository: a log on the EEPROM at port 0, and the serial line.\<close>

definition e2_0 :: logdata where "e2_0 = LogData 0"

definition UserInit :: "'a io_scheme \<Rightarrow> 'a io_scheme" where
  "UserInit b = b\<lparr>baud := 115200\<rparr>"

section \<open>The invariant of the kernel\<close>

definition kernel_inv :: "'a taskring_scheme \<Rightarrow> (nat \<Rightarrow> (ptr \<times> subscriber) list) \<Rightarrow>
    (ptr \<times> letter) list \<Rightarrow> (ptr \<times> job) list \<Rightarrow> nat \<Rightarrow> bool" where
  "kernel_inv s H M T k \<longleftrightarrow> mq_inv s H [] M \<and> ring_at s T k"

lemma more_fields:
  "mq.more s = mq.more s' \<Longrightarrow> pHead s = pHead s' \<and> pCur s = pCur s' \<and> taskring.more s = taskring.more s'"
  by (cases s; cases s') simp

lemma mq_inv_pCur [simp]: "mq_inv (s\<lparr>pCur := c\<rparr>) H F M = mq_inv s H F M"
  by (simp add: mq_inv_def mq_rep_def heap_wf_def subs_rep_def queue_rep_def)

lemma mq_inv_pHead [simp]: "mq_inv (s\<lparr>pHead := c\<rparr>) H F M = mq_inv s H F M"
  by (simp add: mq_inv_def mq_rep_def heap_wf_def subs_rep_def queue_rep_def)

lemma mq_inv_heap: "mq_inv s H F M \<Longrightarrow> heap_wf s"
  by (simp add: mq_inv_def mq_rep_def)

lemma ring_rep_frame:
  assumes "ring_rep s T" and "heap_wf s'" and "pHead s' = pHead s"
    and "\<And>p t. cells s p = Some (CTask t) \<Longrightarrow> cells s' p = Some (CTask t)"
  shows "ring_rep s' T"
proof -
  have ch: "lchain (tnode (cells s)) (pHead s) T" using assms(1) by (simp add: ring_rep_def)
  have "tnode (cells s') a = tnode (cells s) a" if "a \<in> set (addrs T)" for a
    using lseg_node [OF ch that] assms(4) by (auto dest!: tcell_SomeD)
  then have "lchain (tnode (cells s')) (pHead s) T"
    using ch by (subst lseg_cong [where node = "tnode (cells s)"]) auto
  with assms(2,3) show ?thesis by (simp add: ring_rep_def)
qed

lemma ring_at_frame:
  assumes "ring_at s T k" and "heap_wf s'" and "pHead s' = pHead s" and "pCur s' = pCur s"
    and "\<And>p t. cells s p = Some (CTask t) \<Longrightarrow> cells s' p = Some (CTask t)"
  shows "ring_at s' T k"
  using assms ring_rep_frame [OF _ assms(2,3,5)] by (auto simp: ring_at_def)

lemma ring_at_grow:
  assumes "ring_at s T k" and "ring_rep s' (R @ T)" and "pCur s' = pCur s"
  shows "ring_at s' (R @ T) (length R + k)"
  using assms by (auto simp: ring_at_def nth_append)

lemma kernel_start:
  "heap_wf s \<Longrightarrow> kernel_inv (MQClass_init (TaskRing_init s)) (\<lambda>_. []) [] [] 0"
  using MQClass_init_inv [of "TaskRing_init s"]
  by (auto simp: kernel_inv_def ring_at_def ring_rep_def TaskRing_init_def MQClass_init_def heap_wf_def)

section \<open>Handlers and tasks that respect the kernel\<close>

text \<open>
  Handlers and tasks return, are well-behaved towards the message queue, and may register
  tasks (\<open>R\<close> is prepended to the ring) but leave the cursor alone.
\<close>

definition good_handlers ::
  "('a taskring_scheme) fn_bodies \<Rightarrow> ('a taskring_scheme) recv_bodies \<Rightarrow> bool" where
  "good_handlers fb rb \<longleftrightarrow> well_behaved fb rb \<and>
     (\<forall>x mid ctx s s' T. (\<exists>H F M. mq_inv s H F M) \<and> ring_rep s T \<and>
        call_sub fb rb x mid ctx s = okR s' \<longrightarrow> (\<exists>R. ring_rep s' (R @ T)) \<and> pCur s' = pCur s)"

definition good_tasks ::
  "('a taskring_scheme) task_fns \<Rightarrow> ('a taskring_scheme) task_loops \<Rightarrow> bool" where
  "good_tasks tf tc \<longleftrightarrow> (\<forall>j s T. (\<exists>H F M. mq_inv s H F M) \<and> ring_rep s T \<longrightarrow>
     (\<exists>s' R. run_job tf tc j s = okR s' \<and> quiet s s' \<and> ring_rep s' (R @ T) \<and> pCur s' = pCur s))"

lemma well_behaved_quiet:
  assumes "well_behaved fb rb" and "mq_inv s H F M" and "call_sub fb rb x mid ctx s = okR s1"
  shows "quiet s s1"
proof -
  obtain s' where "call_sub fb rb x mid ctx s = okR s'" "quiet s s'"
    using assms(1,2) unfolding well_behaved_def by blast
  with assms(3) show ?thesis by simp
qed

lemma good_handlers_ring:
  assumes "good_handlers fb rb" and "mq_inv s H F M" and "ring_rep s T"
    and "call_sub fb rb x mid ctx s = okR s1"
  obtains R where "ring_rep s1 (R @ T)" "pCur s1 = pCur s"
  using assms unfolding good_handlers_def by blast

lemma call_all_ring:
  assumes "good_handlers fb rb"
  shows "mq_inv s H F M \<Longrightarrow> ring_rep s T \<Longrightarrow> call_all fb rb xs mid ctx s = okR s' \<Longrightarrow>
    (\<exists>R. ring_rep s' (R @ T)) \<and> pCur s' = pCur s"
proof (induction xs arbitrary: s M T)
  case Nil
  then show ?case by (auto intro: exI [of _ "[]"])
next
  case (Cons x xs)
  then obtain s1 where s1: "call_sub fb rb x mid ctx s = okR s1" "call_all fb rb xs mid ctx s1 = okR s'"
    by (auto simp: bindR_ok_iff)
  have "well_behaved fb rb" using assms by (simp add: good_handlers_def)
  from well_behaved_quiet [OF this Cons.prems(1) s1(1)] obtain N where N: "mq_inv s1 H F (M @ N)"
    using quietE [OF _ Cons.prems(1)] by metis
  obtain R where R: "ring_rep s1 (R @ T)" "pCur s1 = pCur s"
    using good_handlers_ring [OF assms Cons.prems(1,2) s1(1)] .
  from Cons.IH [OF N R(1) s1(2)] R(2) show ?case by (metis append_assoc)
qed

lemma Loop_body_ring:
  assumes inv: "mq_inv s H F M" and gh: "good_handlers fb rb" and ring: "ring_rep s T"
    and run: "Loop_body fb rb s = okR s'"
  shows "(\<exists>R. ring_rep s' (R @ T)) \<and> pCur s' = pCur s"
proof (cases M)
  case Nil
  with inv have "Loop_body fb rb s = okR (s\<lparr>sreg_i := True\<rparr>)" by (auto intro: Loop_body_idle(1))
  with run have "s' = s\<lparr>sreg_i := True\<rparr>" by simp
  with ring show ?thesis by (auto simp: ring_rep_def heap_wf_def intro!: exI [of _ "[]"])
next
  case (Cons x M1)
  obtain p l where x: "x = (p, l)" by (cases x)
  have wb: "well_behaved fb rb" using gh by (simp add: good_handlers_def)
  have inv1: "mq_inv s H F ((p, l) # M1)" using inv Cons x by simp
  obtain s1 s2 N where s12: "mq.more s1 = mq.more s"
      "call_all fb rb (vals (H (nat (fst l)))) (fst l) (fst (snd l)) s1 = okR s2"
      "mq.more s' = mq.more s2" "mq_inv s1 H (l # F) M1" "cells s1 = cells s"
      "mq_inv s2 H (l # F) (M1 @ N)" "mq_inv s' H F (M1 @ N)"
      "cells s' = (\<lambda>q. if q = p \<or> q \<in> set (owned_ctx l) then None else cells s2 q)"
      "\<exists>m. cells s2 p = Some (CMessage m)"
    using Loop_body_delivers [OF inv1 wb] run by auto
  have r1: "ring_rep s1 T"
    by (rule ring_rep_frame [OF ring]) (use s12(4,5) more_fields [OF s12(1)] in \<open>auto simp: mq_inv_heap\<close>)
  obtain R where R: "ring_rep s2 (R @ T)" "pCur s2 = pCur s1"
    using call_all_ring [OF gh s12(4) r1 s12(2)] by blast
  have "ring_rep s' (R @ T)"
  proof (rule ring_rep_frame [OF R(1)])
    show "heap_wf s'" "pHead s' = pHead s2" using s12(7) more_fields [OF s12(3)] by (auto simp: mq_inv_heap)
    fix q t assume q: "cells s2 q = Some (CTask t)"
    have "q \<noteq> p" using q s12(9) by auto
    moreover have "q \<notin> set (owned_ctx l)" using mq_inv_owned [OF s12(6), of q] q by auto
    ultimately show "cells s' q = Some (CTask t)" using q s12(8) by simp
  qed
  with R(2) more_fields [OF s12(1)] more_fields [OF s12(3)] show ?thesis by auto
qed

lemma MQ_Loop_ring:
  assumes gh: "good_handlers fb rb"
  shows "mq_inv s H F M \<Longrightarrow> ring_rep s T \<Longrightarrow> MQ_Loop fb rb (int n) s = okR s' \<Longrightarrow>
    (\<exists>R. ring_rep s' (R @ T)) \<and> pCur s' = pCur s"
proof (induction n arbitrary: s M T)
  case 0
  then show ?case by (auto simp: MQ_Loop_0 intro: exI [of _ "[]"])
next
  case (Suc n)
  have wb: "well_behaved fb rb" using gh by (simp add: good_handlers_def)
  obtain s1 M1 where s1: "MQ_Loop fb rb (int 1) s = okR s1" "mq_inv s1 H F M1"
    using MQ_Loop_inv [OF Suc.prems(1) wb, of 1] by blast
  have "MQ_Loop fb rb (int 1) s = Loop_body fb rb s"
    using MQ_Loop_Suc [of fb rb 0 s] MQ_Loop_0 [of fb rb]
    by (auto simp: bindR_def split: Option.bind_splits outcome.splits)
  with s1(1) have b: "Loop_body fb rb s = okR s1" by simp
  then have "MQ_Loop fb rb (int n) s1 = okR s'" using Suc.prems(3) by (simp only: MQ_Loop_Suc bindR_simps)
  moreover obtain R where R: "ring_rep s1 (R @ T)" "pCur s1 = pCur s"
    using Loop_body_ring [OF Suc.prems(1) gh Suc.prems(2) b] by blast
  ultimately show ?case using Suc.IH [OF s1(2) R(1)] by (metis append_assoc)
qed

section \<open>One iteration\<close>

lemma mq_turn:
  assumes inv: "kernel_inv s H M T k" and gh: "good_handlers fb rb"
  shows "\<exists>s' M' R. MQ_Loop fb rb (int n) s = okR s' \<and> kernel_inv s' H M' (R @ T) (length R + k) \<and>
    (n \<le> length M \<longrightarrow> (\<exists>N. M' = drop n M @ N))"
proof -
  have i: "mq_inv s H [] M" "ring_at s T k" "ring_rep s T" using inv by (auto simp: kernel_inv_def ring_at_def)
  have wb: "well_behaved fb rb" using gh by (simp add: good_handlers_def)
  obtain s' M' where s': "MQ_Loop fb rb (int n) s = okR s'" "mq_inv s' H [] M'"
      "n \<le> length M \<longrightarrow> (\<exists>N. M' = drop n M @ N)"
    using MQ_Loop_inv [OF i(1) wb, of n] by blast
  obtain R where "ring_rep s' (R @ T)" "pCur s' = pCur s" using MQ_Loop_ring [OF gh i(1,3) s'(1)] by blast
  with ring_at_grow [OF i(2)] s' show ?thesis by (auto simp: kernel_inv_def)
qed

lemma task_turn:
  assumes inv: "kernel_inv s H M T k" and gt: "good_tasks tf tc"
  shows "\<exists>s' N R k'. TaskRing_Loop tf tc s = okR s' \<and> kernel_inv s' H (M @ N) (R @ T) k'"
proof -
  have i: "mq_inv s H [] M" "ring_at s T k" using inv by (auto simp: kernel_inv_def)
  show ?thesis
  proof (cases "T = []")
    case True
    with i(2) have "TaskRing_Loop tf tc s = okR (s\<lparr>pCur := pHead s\<rparr>)" "ring_at (s\<lparr>pCur := pHead s\<rparr>) T 0"
      by (auto simp: TaskRing_Loop_def ring_at_def ring_rep_def heap_wf_def)
    with i(1) have "TaskRing_Loop tf tc s = okR (s\<lparr>pCur := pHead s\<rparr>) \<and>
        kernel_inv (s\<lparr>pCur := pHead s\<rparr>) H (M @ []) ([] @ T) 0" by (simp add: kernel_inv_def)
    then show ?thesis by blast
  next
    case False
    define j where "j = (if k = length T then 0 else k)"
    define s0 where "s0 = (if pCur s = NULL then s\<lparr>pCur := pHead s\<rparr> else s)"
    note w = wrap_cursor [OF i(2) False, folded j_def s0_def]
    have m0: "mq_inv s0 H [] M" using i(1) by (simp add: s0_def)
    then obtain s1 R where s1: "run_job tf tc (snd (T ! j)) s0 = okR s1" "quiet s0 s1"
        "ring_rep s1 (R @ T)" "pCur s1 = pCur s0"
      using gt w(4) unfolding good_tasks_def by blast
    obtain N where N: "mq_inv s1 H [] (M @ N)" using quietE [OF s1(2) m0] by metis
    obtain c where "TaskRing_Loop tf tc s = okR (s1\<lparr>pCur := c\<rparr>)"
        "ring_at (s1\<lparr>pCur := c\<rparr>) (R @ T) (length R + Suc j)"
      using TaskRing_Loop_turn [OF i(2) False, folded j_def s0_def, OF s1(1,3,4)] by blast
    with N have "TaskRing_Loop tf tc s = okR (s1\<lparr>pCur := c\<rparr>) \<and>
        kernel_inv (s1\<lparr>pCur := c\<rparr>) H (M @ N) (R @ T) (length R + Suc j)" by (simp add: kernel_inv_def)
    then show ?thesis by blast
  qed
qed

lemma loop_turn:
  assumes inv: "kernel_inv s H M T k" and gh: "good_handlers fb rb" and gt: "good_tasks tf tc"
  shows "\<exists>s' M' R k'. loop fb rb tf tc s = okR s' \<and> kernel_inv s' H M' (R @ T) k' \<and>
    (2 \<le> length M \<longrightarrow> (\<exists>N. M' = drop 2 M @ N))"
proof -
  obtain s1 M1 R1 where 1: "MQ_Loop fb rb (int 2) s = okR s1" "kernel_inv s1 H M1 (R1 @ T) (length R1 + k)"
      "2 \<le> length M \<longrightarrow> (\<exists>N. M1 = drop 2 M @ N)"
    using mq_turn [OF inv gh, of 2] by blast
  obtain s2 N R2 k2 where 2: "TaskRing_Loop tf tc s1 = okR s2" "kernel_inv s2 H (M1 @ N) (R2 @ R1 @ T) k2"
    using task_turn [OF 1(2) gt] by blast
  have "loop fb rb tf tc s = okR s2" using 1(1) 2(1) by (simp add: loop_def)
  moreover have "kernel_inv s2 H (M1 @ N) ((R2 @ R1) @ T) k2" using 2(2) by simp
  moreover have "2 \<le> length M \<longrightarrow> (\<exists>N'. M1 @ N = drop 2 M @ N')" using 1(3) by auto
  ultimately show ?thesis by blast
qed

section \<open>Observing a run of the kernel\<close>

text \<open>
  The deliveries recorded in the application's part of the state, by handlers that record
  themselves and tasks that leave the record alone.
\<close>

definition observed :: "('a \<Rightarrow> delivery list) \<Rightarrow> ('a taskring_scheme) fn_bodies \<Rightarrow>
    ('a taskring_scheme) recv_bodies \<Rightarrow> ('a taskring_scheme) task_fns \<Rightarrow>
    ('a taskring_scheme) task_loops \<Rightarrow> bool" where
  "observed L fb rb tf tc \<longleftrightarrow>
     (\<forall>x mid ctx s s'. call_sub fb rb x mid ctx s = okR s' \<longrightarrow>
        L (taskring.more s') = L (taskring.more s) @ [delivery_of mid ctx x]) \<and>
     (\<forall>j s s'. run_job tf tc j s = okR s' \<longrightarrow> L (taskring.more s') = L (taskring.more s))"

lemma observed_recording:
  assumes "observed L fb rb tf tc"
  shows "recording (\<lambda>s. L (taskring.more s)) fb rb"
  using assms more_fields unfolding recording_def observed_def by (metis (no_types, lifting))

lemma task_turn_log:
  assumes "observed L fb rb tf tc" and "TaskRing_Loop tf tc s = okR s'"
  shows "L (taskring.more s') = L (taskring.more s)"
proof -
  define s0 where "s0 = (if pCur s = NULL then s\<lparr>pCur := pHead s\<rparr> else s)"
  have m: "taskring.more s0 = taskring.more s" by (simp add: s0_def)
  show ?thesis
  proof (cases "pCur s0 = NULL")
    case True
    with assms(2) m show ?thesis by (simp add: TaskRing_Loop_def s0_def [symmetric])
  next
    case False
    with assms(2) obtain t s1 t1 where "run_job tf tc (job_of t) s0 = okR s1" "s' = s1\<lparr>pCur := pNext t1\<rparr>"
      by (auto simp: TaskRing_Loop_def s0_def [symmetric] Task_Call_eq bindR_ok_iff)
    with assms(1) m show ?thesis unfolding observed_def by fastforce
  qed
qed

lemma loop_delivers:
  assumes inv: "kernel_inv s H M T k" and gh: "good_handlers fb rb" and gt: "good_tasks tf tc"
    and ob: "observed L fb rb tf tc" and len: "2 \<le> length M"
  shows "\<exists>s' N R k'. loop fb rb tf tc s = okR s' \<and> kernel_inv s' H (drop 2 M @ N) (R @ T) k' \<and>
    L (taskring.more s') = L (taskring.more s) @
      concat (map (deliveries (\<lambda>i. vals (H i))) (take 2 (vals M)))"
proof -
  obtain s' M' R k' where s': "loop fb rb tf tc s = okR s'" "kernel_inv s' H M' (R @ T) k'"
      "\<exists>N. M' = drop 2 M @ N"
    using loop_turn [OF inv gh gt] len by blast
  have i: "mq_inv s H [] M" and wb: "well_behaved fb rb"
    using inv gh by (auto simp: kernel_inv_def good_handlers_def)
  obtain s1 where s1: "MQ_Loop fb rb (int 2) s = okR s1"
      "L (taskring.more s1) = L (taskring.more s) @ concat (map (deliveries (\<lambda>i. vals (H i))) (take 2 (vals M)))"
    using MQ_Loop_records [OF i wb observed_recording [OF ob] len] by blast
  then have "TaskRing_Loop tf tc s1 = okR s'" using s'(1) by (simp add: loop_def)
  from task_turn_log [OF ob this] s1(2) s' show ?thesis by auto
qed

lemma loops_deliver:
  assumes gh: "good_handlers fb rb" and gt: "good_tasks tf tc" and ob: "observed L fb rb tf tc"
  shows "kernel_inv s H M T k \<Longrightarrow> 2 * n \<le> length M \<Longrightarrow>
    \<exists>s' N R k'. kernel_loops fb rb tf tc n s = okR s' \<and> kernel_inv s' H (drop (2 * n) M @ N) (R @ T) k' \<and>
      L (taskring.more s') = L (taskring.more s) @
        concat (map (deliveries (\<lambda>i. vals (H i))) (take (2 * n) (vals M)))"
proof (induction n arbitrary: s M T k)
  case 0
  then show ?case by (auto intro!: exI [of _ "[]"])
next
  case (Suc n)
  obtain s1 N R k1 where 1: "loop fb rb tf tc s = okR s1" "kernel_inv s1 H (drop 2 M @ N) (R @ T) k1"
      "L (taskring.more s1) = L (taskring.more s) @
        concat (map (deliveries (\<lambda>i. vals (H i))) (take 2 (vals M)))"
    using loop_delivers [OF Suc.prems(1) gh gt ob] Suc.prems(2) by auto
  have len: "2 * n \<le> length (drop 2 M @ N)" using Suc.prems(2) by simp
  obtain s2 N2 R2 k2 where 2: "kernel_loops fb rb tf tc n s1 = okR s2"
      "kernel_inv s2 H (drop (2 * n) (drop 2 M @ N) @ N2) (R2 @ R @ T) k2"
      "L (taskring.more s2) = L (taskring.more s1) @
        concat (map (deliveries (\<lambda>i. vals (H i))) (take (2 * n) (vals (drop 2 M @ N))))"
    using Suc.IH [OF 1(2) len] by blast
  have "take 2 (vals M) @ take (2 * n) (vals (drop 2 M @ N)) = take (2 * Suc n) (vals M)"
    using Suc.prems(2) by (simp add: take_add [symmetric] flip: drop_map)
  then have "L (taskring.more s2) = L (taskring.more s) @
      concat (map (deliveries (\<lambda>i. vals (H i))) (take (2 * Suc n) (vals M)))"
    using 1(3) 2(3) by (simp only: append_assoc flip: concat_append map_append)
  moreover have "kernel_inv s2 H (drop (2 * Suc n) M @ N @ N2) ((R2 @ R) @ T) k2"
    using 2(2) Suc.prems(2) by (simp add: add.commute)
  moreover have "kernel_loops fb rb tf tc (Suc n) s = okR s2" using 1(1) 2(1) by simp
  ultimately show ?case by blast
qed

section \<open>Interface calls and interrupts\<close>

lemma ring_at_others:
  assumes "ring_at s T k" and "heap_wf s'" and "keeps_others s s'"
  shows "ring_at s' T k"
proof (rule ring_at_frame [OF assms(1,2)])
  show "pHead s' = pHead s" "pCur s' = pCur s"
    using assms(3) more_fields [of s' s] by (auto simp: keeps_others_def)
  show "cells s' p = Some (CTask t)" if "cells s p = Some (CTask t)" for p t
    using assms(3) that by (auto simp: keeps_others_def)
qed

lemma kernel_inv_subs:
  assumes inv: "kernel_inv s H M T k" and rep: "mq_rep s' H' M" and keep: "keeps_others s s'"
  shows "kernel_inv s' H' M T k"
proof -
  have i: "mq_inv s H [] M" "ring_at s T k" using inv by (auto simp: kernel_inv_def)
  have "mq_inv s' H' [] M" by (rule mq_inv_subs [OF i(1) rep keep])
  moreover have "ring_at s' T k" using ring_at_others [OF i(2) _ keep] rep by (simp add: mq_rep_def)
  ultimately show ?thesis by (simp add: kernel_inv_def)
qed

lemma kernel_inv_Post:
  assumes inv: "kernel_inv s H M T k" and mid: "0 \<le> mid" "mid < 26"
    and own: "set (owned_ctx (mid, ctx, ow)) \<inter> set (owned (vals M)) = {}"
      "\<forall>c \<in> set (owned_ctx (mid, ctx, ow)). cells s c = Some CBlock"
  shows "\<exists>rc s' N. Post mid ctx ow ic s = okR (rc, s') \<and> kernel_inv s' H (M @ N) T k"
proof -
  have i: "mq_inv s H [] M" "ring_at s T k" using inv by (auto simp: kernel_inv_def)
  obtain rc s' N where s': "Post mid ctx ow ic s = okR (rc, s')" "mq_inv s' H [] (M @ N)"
      "keeps_cells (set (addrs M)) s s'" "mq.more s' = mq.more s"
    using mq_inv_post [OF i(1) mid, of ctx ow ic] own by auto
  have "ring_at s' T k"
  proof (rule ring_at_frame [OF i(2)])
    show "heap_wf s'" using mq_inv_heap [OF s'(2)] .
    show "pHead s' = pHead s" "pCur s' = pCur s" using more_fields [OF s'(4)] by auto
    show "cells s' p = Some (CTask t)" if t: "cells s p = Some (CTask t)" for p t
      using keeps_cellsD [OF s'(3) t] mq_inv_waiting [OF i(1), of p] t by auto
  qed
  with s' show ?thesis by (auto simp: kernel_inv_def)
qed

lemma kernel_inv_accept:
  assumes inv: "kernel_inv s H M T k" and pool: "pool s = p # ps" and j: "job_ptr j \<noteq> NULL"
  shows "\<exists>s'. Register j s = okR (0, s') \<and> kernel_inv s' H M ((p, j) # T) (Suc k) \<and> pool s' = ps \<and>
    taskring.more s' = taskring.more s"
proof -
  have i: "mq_inv s H [] M" "ring_at s T k" "ring_rep s T" using inv by (auto simp: kernel_inv_def ring_at_def)
  have p: "p \<noteq> NULL" using i(3) pool by (auto simp: ring_rep_def heap_wf_def)
  let ?s = "s\<lparr>cells := (cells s)(p \<mapsto> CTask (task_cell j (pHead s))), pool := ps, pHead := p\<rparr>"
  have r: "Register j s = okR (0, ?s)" using Register_accepted [OF pool j p] .
  have "ring_rep ?s ((p, j) # T)" using Register_ring [OF i(3) pool j] r by auto
  then have "ring_at ?s ([(p, j)] @ T) (length [(p, j)] + k)"
    by (intro ring_at_grow [OF i(2)]) simp_all
  moreover have "mq_inv ?s H [] M" using mq_inv_alloc [OF i(1) pool] by simp
  ultimately show ?thesis using r by (auto simp: kernel_inv_def)
qed

lemma kernel_inv_Register:
  assumes inv: "kernel_inv s H M T k"
  shows "\<exists>rc s' R. Register j s = okR (rc, s') \<and> kernel_inv s' H M (R @ T) (length R + k)"
proof (cases "pool s = [] \<or> job_ptr j = NULL")
  case True
  with Register_rejected [OF True] inv show ?thesis by (auto intro!: exI [of _ "[]"])
next
  case False
  then obtain p ps where pool: "pool s = p # ps" by (cases "pool s") auto
  with kernel_inv_accept [OF inv pool, of j] False show ?thesis by (auto intro!: exI [of _ "[(p, j)]"])
qed

lemma kernel_inv_new_block:
  assumes inv: "kernel_inv s H M T k" and new: "new_cell CBlock s = (p, s1)" "p \<noteq> NULL"
  shows "kernel_inv s1 H M T k" and "cells s1 p = Some CBlock" and "p \<notin> set (owned (vals M))"
proof -
  have i: "mq_inv s H [] M" "ring_at s T k" using inv by (auto simp: kernel_inv_def)
  obtain ps where pool: "pool s = p # ps" and s1: "s1 = s\<lparr>cells := (cells s)(p \<mapsto> CBlock), pool := ps\<rparr>"
    using new by (auto simp: new_cell_def split: list.splits)
  have c: "cells s p = None" "cells s1 = (cells s)(p \<mapsto> CBlock)"
    using heap.alloc_content [OF mq_inv_heap [OF i(1)] new] by auto
  have m: "mq_inv s1 H [] M" using mq_inv_alloc [OF i(1) pool] s1 by simp
  moreover have "ring_at s1 T k"
    by (rule ring_at_frame [OF i(2) mq_inv_heap [OF m]]) (use s1 c in auto)
  ultimately show "kernel_inv s1 H M T k" by (simp add: kernel_inv_def)
  show "cells s1 p = Some CBlock" using c by simp
  show "p \<notin> set (owned (vals M))" using mq_inv_owned [OF i(1), of p] c by auto
qed

text \<open>
  One step of the running system: a turn of the message loop or of the scheduler, an
  interrupt routine that posts (only while interrupts are enabled), or a call of the kernel's
  interface by the application.
\<close>

inductive kernel_step :: "('a taskring_scheme) fn_bodies \<Rightarrow> ('a taskring_scheme) recv_bodies \<Rightarrow>
    ('a taskring_scheme) task_fns \<Rightarrow> ('a taskring_scheme) task_loops \<Rightarrow>
    'a taskring_scheme \<Rightarrow> 'a taskring_scheme \<Rightarrow> bool"
  for fb rb tf tc where
  messages: "MQ_Loop fb rb 2 s = okR s' \<Longrightarrow> kernel_step fb rb tf tc s s'"
| tasks: "TaskRing_Loop tf tc s = okR s' \<Longrightarrow> kernel_step fb rb tf tc s s'"
| interrupt: "sreg_i s \<Longrightarrow> 0 \<le> mid \<Longrightarrow> mid < 26 \<Longrightarrow>
    Post mid ctx MQ_OWNER_CALLER MQ_CONTEXT_INTERRUPT s = okR (rc, s') \<Longrightarrow> kernel_step fb rb tf tc s s'"
| post: "0 \<le> mid \<Longrightarrow> mid < 26 \<Longrightarrow>
    Post mid ctx MQ_OWNER_CALLER MQ_CONTEXT_TASK s = okR (rc, s') \<Longrightarrow> kernel_step fb rb tf tc s s'"
| post_block: "0 \<le> mid \<Longrightarrow> mid < 26 \<Longrightarrow> new_cell CBlock s = (p, s1) \<Longrightarrow> p \<noteq> NULL \<Longrightarrow>
    Post mid p MQ_OWNER_MQ MQ_CONTEXT_TASK s1 = okR (rc, s') \<Longrightarrow> kernel_step fb rb tf tc s s'"
| subscribe: "i < 26 \<Longrightarrow> Subscribe (int i) x s = okR (rc, s') \<Longrightarrow> kernel_step fb rb tf tc s s'"
| unsubscribe: "i < 26 \<Longrightarrow> Unsubscribe (int i) x s = okR (rc, s') \<Longrightarrow> kernel_step fb rb tf tc s s'"
| unsubscribe_all: "UnsubscribeAllIDs r s = okR s' \<Longrightarrow> kernel_step fb rb tf tc s s'"
| register: "Register j s = okR (rc, s') \<Longrightarrow> kernel_step fb rb tf tc s s'"

inductive reachable :: "('a taskring_scheme) fn_bodies \<Rightarrow> ('a taskring_scheme) recv_bodies \<Rightarrow>
    ('a taskring_scheme) task_fns \<Rightarrow> ('a taskring_scheme) task_loops \<Rightarrow> 'a taskring_scheme \<Rightarrow> bool"
  for fb rb tf tc where
  boot: "heap_wf s \<Longrightarrow> reachable fb rb tf tc (MQClass_init (TaskRing_init s))"
| step: "reachable fb rb tf tc s \<Longrightarrow> kernel_step fb rb tf tc s s' \<Longrightarrow> reachable fb rb tf tc s'"

text \<open>Starting a task object is one of these steps.\<close>

lemma Task_Start_step:
  assumes "Task_Start t s = okR s'"
  shows "kernel_step fb rb tf tc s s'"
  using assms kernel_step.register [of "ClassJob t" s _ s'] by (auto simp: Task_Start_def bindR_ok_iff)

definition kernel_ok :: "'a taskring_scheme \<Rightarrow> bool" where
  "kernel_ok s \<longleftrightarrow> (\<exists>H M T k. kernel_inv s H M T k)"

lemma kernel_okI: "kernel_inv s H M T k \<Longrightarrow> kernel_ok s"
  by (auto simp: kernel_ok_def)

lemma kernel_step_ok:
  assumes step: "kernel_step fb rb tf tc s s'" and "kernel_ok s"
    and gh: "good_handlers fb rb" and gt: "good_tasks tf tc"
  shows "kernel_ok s'"
proof -
  obtain H M T k where inv: "kernel_inv s H M T k" using assms(2) by (auto simp: kernel_ok_def)
  have rep: "mq_rep s H M" using inv by (simp add: kernel_inv_def mq_inv_def)
  from step show ?thesis
  proof cases
    case messages
    then show ?thesis using mq_turn [OF inv gh, of 2] by (auto intro: kernel_okI)
  next
    case tasks
    then show ?thesis using task_turn [OF inv gt] by (auto intro: kernel_okI)
  next
    case (interrupt mid ctx rc)
    then show ?thesis using kernel_inv_Post [OF inv, of mid ctx MQ_OWNER_CALLER MQ_CONTEXT_INTERRUPT]
      by (auto intro: kernel_okI)
  next
    case (post mid ctx rc)
    then show ?thesis using kernel_inv_Post [OF inv, of mid ctx MQ_OWNER_CALLER MQ_CONTEXT_TASK]
      by (auto intro: kernel_okI)
  next
    case (post_block mid p s1 rc)
    note n = kernel_inv_new_block [OF inv post_block(3,4)]
    show ?thesis using kernel_inv_Post [OF n(1) post_block(1,2), of p MQ_OWNER_MQ MQ_CONTEXT_TASK] n(2,3) post_block(5)
      by (auto intro: kernel_okI)
  next
    case (subscribe i x rc)
    show ?thesis
    proof (cases "raw x \<in> raw ` set (vals (H i)) \<or> pool s = [] \<or> raw x = NULL")
      case True
      with Subscribe_present [OF rep subscribe(1) True] subscribe(2) inv show ?thesis by (auto intro: kernel_okI)
    next
      case False
      then obtain p ps where "pool s = p # ps" by (cases "pool s") auto
      with Subscribe_fresh [OF rep subscribe(1), of x p ps] False subscribe(2) kernel_inv_subs [OF inv]
      show ?thesis by (auto intro: kernel_okI)
    qed
  next
    case (unsubscribe i x rc)
    with Unsubscribe_rep [OF rep unsubscribe(1), of x] kernel_inv_subs [OF inv] show ?thesis
      by (auto intro: kernel_okI)
  next
    case (unsubscribe_all r)
    with UnsubscribeAllIDs_rep [OF rep, of r] kernel_inv_subs [OF inv] show ?thesis
      by (auto intro: kernel_okI)
  next
    case (register j rc)
    then show ?thesis using kernel_inv_Register [OF inv, of j] by (auto intro: kernel_okI)
  qed
qed

lemma reachable_ok:
  assumes "reachable fb rb tf tc s" and "good_handlers fb rb" and "good_tasks tf tc"
  shows "kernel_ok s"
  using assms(1)
proof induction
  case (boot s)
  then show ?case using kernel_start [OF boot] by (auto intro: kernel_okI)
next
  case (step s s')
  then show ?case using kernel_step_ok assms(2,3) by blast
qed

section \<open>A small system\<close>

definition demo_kernel :: "'a \<Rightarrow> 'a taskring_scheme" where
  "demo_kernel x = \<lparr>cells = [16 \<mapsto> CHandler (MHCLASS 512 32), 32 \<mapsto> CHandler (MHFUNCTION 100 0),
       48 \<mapsto> CMessage \<lparr>msgid = 3, msg_context = 64, CallerOwns = MQ_OWNER_MQ, pNextMsg = 80\<rparr>,
       64 \<mapsto> CBlock,
       80 \<mapsto> CMessage \<lparr>msgid = 3, msg_context = 0, CallerOwns = MQ_OWNER_CALLER, pNextMsg = 0\<rparr>,
       128 \<mapsto> CTask (TASKSTATE_C 300 0)],
     pool = [96, 112], sreg_i = True, QueueBlock = (replicate 26 NULL)[3 := 16],
     MsgQueueFirst = 48, MsgQueueLast = 80, pHead = 128, pCur = 0, \<dots> = x\<rparr>"

lemma demo_kernel_inv: "kernel_inv (demo_kernel x) demo_subs demo_letters [(128, ClassJob 300)] 1"
proof -
  have "\<forall>i<26. lchain (hnode (cells (demo_kernel x))) (QueueBlock (demo_kernel x) ! i) (demo_subs i)"
    by (auto simp: demo_kernel_def demo_subs_def nth_list_update)
  then have "subs_rep (demo_kernel x) demo_subs"
    by (auto simp: subs_rep_def demo_subs_def demo_kernel_def)
  moreover have "heap_wf (demo_kernel x)" "queue_rep (demo_kernel x) demo_letters"
      "ring_at (demo_kernel x) [(128, ClassJob 300)] 1"
    by (simp_all add: heap_wf_def queue_rep_def ring_at_def ring_rep_def demo_kernel_def demo_letters_def letter_of_def)
  ultimately show ?thesis
    by (simp add: kernel_inv_def mq_inv_def mq_rep_def demo_letters_def demo_kernel_def valid_letter_def)
qed

definition krec_fn :: "((delivery list) taskring_scheme) fn_bodies" where
  "krec_fn f ctx s = okR (taskring.more_update (\<lambda>l. l @ [CalledFn f ctx]) s)"

definition krec_recv :: "((delivery list) taskring_scheme) recv_bodies" where
  "krec_recv r mid ctx s = okR (taskring.more_update (\<lambda>l. l @ [CalledRecv r mid ctx]) s)"

lemma krec_call: "call_sub krec_fn krec_recv x mid ctx s =
    okR (taskring.more_update (\<lambda>l. l @ [delivery_of mid ctx x]) s)"
  by (cases x) (simp_all add: krec_fn_def krec_recv_def)

lemma mq_inv_kmore [simp]: "mq_inv (taskring.more_update f s) H F M = mq_inv s H F M"
  by (simp add: mq_inv_def mq_rep_def heap_wf_def subs_rep_def queue_rep_def)

lemma ring_rep_kmore [simp]: "ring_rep (taskring.more_update f s) T = ring_rep s T"
  by (simp add: ring_rep_def heap_wf_def)

lemma quiet_kmore: "quiet s (taskring.more_update f s)"
  unfolding quiet_def by (auto simp: keeps_cells_def intro!: exI [of _ "[]"])

lemma krec_good: "good_handlers krec_fn krec_recv"
  unfolding good_handlers_def well_behaved_def krec_call
  by (auto simp: quiet_kmore intro!: exI [of _ "[]"])

lemma idle_tasks: "run_job (\<lambda>f c s. okR s) (\<lambda>t s. okR s) j s = okR s"
  by (cases j) simp_all

lemma idle_tasks_good: "good_tasks (\<lambda>f c s. okR s) (\<lambda>t s. okR s)"
  unfolding good_tasks_def idle_tasks by (auto intro!: exI [of _ "[]"])

lemma krec_observed: "observed (\<lambda>l. l) krec_fn krec_recv (\<lambda>f c s. okR s) (\<lambda>t s. okR s)"
  unfolding observed_def krec_call idle_tasks by auto

end
