(* ===== verification/Kernel_Start.thy ===== *)
theory Kernel_Start
  imports Kernel_Main
begin

text \<open>
  The start of the kernel: the three singletons, each a function-local static object built at
  the first call of its \<open>Get\<close>, and the global object \<open>OS\<close> of class \<open>KernelClass\<close>
  that refers to them (\<open>taskring.cpp\<close>, \<open>mq.cpp\<close>, \<open>iic.cpp\<close>, \<open>KernelClass.h\<close>).
\<close>

section \<open>The singletons\<close>

text \<open>
  The static objects: a guard that the compiler keeps per object, the member
  \<open>internals\<close> of the first two, and the peripheral the third one sets up.
\<close>

record 'hw statics = taskring +
  tr_guard :: bool
  tr_internals :: ptr
  mq_guard :: bool
  mq_internals :: ptr
  iic_guard :: bool
  twi_hw :: 'hw

text \<open>
  The constructors take the block of their internals from the heap and do not test the
  result: with the heap exhausted they write through the null pointer.
\<close>

definition TaskRing_TaskRing :: "('hw, 'a) statics_scheme \<Rightarrow> (('hw, 'a) statics_scheme) res" where
  "TaskRing_TaskRing s = (let (p, s1) = new_cell CInternals s in
     if p = NULL then failR BadPointer else okR ((TaskRing_init s1)\<lparr>tr_internals := p\<rparr>))"

definition MQClass_MQClass :: "('hw, 'a) statics_scheme \<Rightarrow> (('hw, 'a) statics_scheme) res" where
  "MQClass_MQClass s = (let (p, s1) = new_cell CInternals s in
     if p = NULL then failR BadPointer else okR ((MQClass_init s1)\<lparr>mq_internals := p\<rparr>))"

definition TaskRing_Get :: "('hw, 'a) statics_scheme \<Rightarrow> (('hw, 'a) statics_scheme) res" where
  "TaskRing_Get s = (if tr_guard s then okR s
     else bindR (TaskRing_TaskRing s) (\<lambda>s1. okR (s1\<lparr>tr_guard := True\<rparr>)))"

definition MQClass_Get :: "('hw, 'a) statics_scheme \<Rightarrow> (('hw, 'a) statics_scheme) res" where
  "MQClass_Get s = (if mq_guard s then okR s
     else bindR (MQClass_MQClass s) (\<lambda>s1. okR (s1\<lparr>mq_guard := True\<rparr>)))"

definition IIC_Get :: "'hw twi \<Rightarrow> ('hw, 'a) statics_scheme \<Rightarrow> (('hw, 'a) statics_scheme) res" where
  "IIC_Get T s = (if iic_guard s then okR s else okR (s\<lparr>twi_hw := IIC_init T (twi_hw s), iic_guard := True\<rparr>))"

text \<open>
  \<open>KernelClass::KernelClass\<close>: the members are initialised in the order of their declaration,
  then the body runs, which is empty. The destructor is empty too, and the members are
  references, so nothing is destroyed with the object.
\<close>

definition KernelClass_members :: "'hw twi \<Rightarrow> ('hw, 'a) statics_scheme \<Rightarrow> (('hw, 'a) statics_scheme) res" where
  "KernelClass_members T s = bindR (TaskRing_Get s) (\<lambda>s1. bindR (MQClass_Get s1) (\<lambda>s2. IIC_Get T s2))"

definition KernelClass :: "'hw twi \<Rightarrow> ('hw, 'a) statics_scheme \<Rightarrow> (('hw, 'a) statics_scheme) res" where
  "KernelClass T s = bindR (KernelClass_members T s) (\<lambda>s1. okR s1)"

definition KernelClass_destroy :: "('hw, 'a) statics_scheme \<Rightarrow> ('hw, 'a) statics_scheme" where
  "KernelClass_destroy s = s"

text \<open>\<open>Get\<close> is public: other static objects may call it, in any order, before \<open>OS\<close> is built.\<close>

datatype singleton = TASKRING | MQCLASS | IICDRIVER

fun Get :: "'hw twi \<Rightarrow> singleton \<Rightarrow> ('hw, 'a) statics_scheme \<Rightarrow> (('hw, 'a) statics_scheme) res" where
  "Get T TASKRING s = TaskRing_Get s"
| "Get T MQCLASS s = MQClass_Get s"
| "Get T IICDRIVER s = IIC_Get T s"

fun get_all :: "'hw twi \<Rightarrow> singleton list \<Rightarrow> ('hw, 'a) statics_scheme \<Rightarrow> (('hw, 'a) statics_scheme) res" where
  "get_all T [] s = okR s"
| "get_all T (g # gs) s = bindR (Get T g s) (get_all T gs)"

definition at_reset :: "('hw, 'a) statics_scheme \<Rightarrow> bool" where
  "at_reset s \<longleftrightarrow> heap_wf s \<and> \<not> tr_guard s \<and> \<not> mq_guard s \<and> \<not> iic_guard s"

section \<open>What any sequence of calls has built\<close>

text \<open>
  \<open>built\<close> describes a state between reset and the end of the construction by its guards:
  each block of internals has been taken from the heap once, each object is initialised.
\<close>

definition blocks :: "('hw, 'a) statics_scheme \<Rightarrow> ptr list" where
  "blocks s = (if tr_guard s then [tr_internals s] else []) @ (if mq_guard s then [mq_internals s] else [])"

definition built :: "'hw twi \<Rightarrow> ('hw, 'a) statics_scheme \<Rightarrow> ('hw, 'b) statics_scheme \<Rightarrow> bool" where
  "built T s0 s \<longleftrightarrow> heap_wf s \<and> distinct (blocks s) \<and> length (blocks s) \<le> length (pool s0) \<and>
     set (blocks s) = set (take (length (blocks s)) (pool s0)) \<and> pool s = drop (length (blocks s)) (pool s0) \<and>
     cells s = (\<lambda>p. if p \<in> set (blocks s) then Some CInternals else cells s0 p) \<and>
     (tr_guard s \<longrightarrow> pHead s = NULL \<and> pCur s = NULL) \<and>
     (mq_guard s \<longrightarrow> QueueBlock s = replicate (nat MSG_MAX_MSG_IDS) NULL \<and> MsgQueueFirst s = NULL \<and> MsgQueueLast s = NULL) \<and>
     twi_hw s = (if iic_guard s then IIC_init T (twi_hw s0) else twi_hw s0)"

lemma built_reset: "at_reset s \<Longrightarrow> built T s s"
  by (auto simp: at_reset_def built_def blocks_def)

lemma built_new:
  assumes "built T s0 s" and "pool s = p # ps"
  shows "p \<noteq> NULL" "p \<notin> set (blocks s)" "cells s p = None" "length (blocks s) < length (pool s0)"
    "pool s0 ! length (blocks s) = p" "ps = drop (Suc (length (blocks s))) (pool s0)"
proof -
  have d: "drop (length (blocks s)) (pool s0) = p # ps" "heap_wf s" using assms by (auto simp: built_def)
  then show "p \<noteq> NULL" "cells s p = None" using assms(2) by (auto simp: heap_wf_def)
  then show "p \<notin> set (blocks s)" using assms(1) by (auto simp: built_def)
  show l: "length (blocks s) < length (pool s0)" using d(1) by (metis drop_all leI list.distinct(1))
  show "pool s0 ! length (blocks s) = p" "ps = drop (Suc (length (blocks s))) (pool s0)"
    using Cons_nth_drop_Suc [OF l] d(1) by auto
qed

fun guard :: "singleton \<Rightarrow> ('hw, 'a) statics_scheme \<Rightarrow> bool" where
  "guard TASKRING s = tr_guard s"
| "guard MQCLASS s = mq_guard s"
| "guard IICDRIVER s = iic_guard s"

lemma Get_again: "guard g s \<Longrightarrow> Get T g s = okR s"
  by (cases g) (simp_all add: TaskRing_Get_def MQClass_Get_def IIC_Get_def)

lemma built_full:
  assumes "built T s0 s" and "pool s = []" and "\<not> tr_guard s \<or> \<not> mq_guard s"
  shows "length (pool s0) < 2"
proof -
  have "drop (length (blocks s)) (pool s0) = []" using assms(1,2) by (simp add: built_def)
  then have "length (pool s0) \<le> length (blocks s)" by simp
  also have "length (blocks s) < 2" using assms(3) by (auto simp: blocks_def)
  finally show ?thesis .
qed

text \<open>A block taken from the heap for one of the objects.\<close>

lemma built_block:
  assumes b: "built T s0 s" and pool: "pool s = p # ps"
    and bl: "set (blocks s') = insert p (set (blocks s))" "length (blocks s') = Suc (length (blocks s))"
    and heap: "cells s' = (cells s)(p \<mapsto> CInternals)" "pool s' = ps" "twi_hw s' = twi_hw s" "iic_guard s' = iic_guard s"
    and tr: "tr_guard s' \<longrightarrow> pHead s' = NULL \<and> pCur s' = NULL"
    and mq: "mq_guard s' \<longrightarrow> QueueBlock s' = replicate (nat MSG_MAX_MSG_IDS) NULL \<and> MsgQueueFirst s' = NULL \<and>
      MsgQueueLast s' = NULL"
  shows "built T s0 s'"
proof -
  note n = built_new [OF b pool]
  have "heap_wf s" "distinct (blocks s)" using b by (auto simp: built_def)
  then have "heap_wf s'" using n(1) pool heap by (auto simp: heap_wf_def list_all_iff)
  moreover have "distinct (blocks s')"
    using bl n(2) \<open>distinct (blocks s)\<close> by (metis card_distinct card_insert_disjoint distinct_card finite_set)
  moreover have "set (take (Suc (length (blocks s))) (pool s0)) = insert p (set (take (length (blocks s)) (pool s0)))"
    using take_Suc_conv_app_nth [OF n(4)] n(5) by simp
  moreover have "pool s' = drop (length (blocks s')) (pool s0)" using n(6) bl(2) heap(2) by simp
  ultimately show ?thesis using b bl n(4) heap tr mq by (auto simp: built_def fun_eq_iff)
qed

lemma Get_built:
  assumes b: "built T s0 s"
  shows "(\<exists>s'. Get T g s = okR s' \<and> built T s0 s' \<and> guard g s' \<and> (\<forall>h. guard h s \<longrightarrow> guard h s')) \<or>
    Get T g s = failR BadPointer \<and> length (pool s0) < 2"
proof (cases "guard g s")
  case True
  then show ?thesis using Get_again [OF True] b by auto
next
  case False
  show ?thesis
  proof (cases g)
    case IICDRIVER
    let ?s = "s\<lparr>twi_hw := IIC_init T (twi_hw s), iic_guard := True\<rparr>"
    have "blocks ?s = blocks s" by (simp add: blocks_def)
    moreover have "heap_wf ?s = heap_wf s" by (simp add: heap_wf_def)
    ultimately have "built T s0 ?s" using b False IICDRIVER by (simp add: built_def)
    moreover have "guard h s \<Longrightarrow> guard h ?s" for h by (cases h) simp_all
    ultimately show ?thesis using False IICDRIVER by (simp add: IIC_Get_def)
  next
    case TASKRING
    show ?thesis
    proof (cases "pool s")
      case Nil
      then show ?thesis using built_full [OF b Nil] False TASKRING
        by (simp add: TaskRing_Get_def TaskRing_TaskRing_def new_cell_def)
    next
      case (Cons p ps)
      let ?s = "s\<lparr>cells := (cells s)(p \<mapsto> CInternals), pool := ps, pHead := NULL, pCur := NULL, tr_internals := p, tr_guard := True\<rparr>"
      have "Get T g s = okR ?s" using Cons False TASKRING built_new(1) [OF b Cons]
        by (simp add: TaskRing_Get_def TaskRing_TaskRing_def new_cell_def TaskRing_init_def)
      moreover have "built T s0 ?s"
        by (rule built_block [OF b Cons]) (use b False TASKRING in \<open>auto simp: blocks_def built_def\<close>)
      moreover have "guard h s \<Longrightarrow> guard h ?s" for h by (cases h) simp_all
      ultimately show ?thesis using TASKRING by simp
    qed
  next
    case MQCLASS
    show ?thesis
    proof (cases "pool s")
      case Nil
      then show ?thesis using built_full [OF b Nil] False MQCLASS
        by (simp add: MQClass_Get_def MQClass_MQClass_def new_cell_def)
    next
      case (Cons p ps)
      let ?s = "s\<lparr>cells := (cells s)(p \<mapsto> CInternals), pool := ps, QueueBlock := replicate (nat MSG_MAX_MSG_IDS) NULL,
        MsgQueueFirst := NULL, MsgQueueLast := NULL, mq_internals := p, mq_guard := True\<rparr>"
      have "Get T g s = okR ?s" using Cons False MQCLASS built_new(1) [OF b Cons]
        by (simp add: MQClass_Get_def MQClass_MQClass_def new_cell_def MQClass_init_def)
      moreover have "built T s0 ?s"
        by (rule built_block [OF b Cons]) (use b False MQCLASS in \<open>auto simp: blocks_def built_def\<close>)
      moreover have "guard h s \<Longrightarrow> guard h ?s" for h by (cases h) simp_all
      ultimately show ?thesis using MQCLASS by simp
    qed
  qed
qed

lemma get_all_built:
  "built T s0 s \<Longrightarrow>
     (\<exists>s'. get_all T gs s = okR s' \<and> built T s0 s' \<and> (\<forall>g. g \<in> set gs \<or> guard g s \<longrightarrow> guard g s')) \<or>
     get_all T gs s = failR BadPointer \<and> length (pool s0) < 2"
proof (induction gs arbitrary: s)
  case (Cons g gs)
  from Get_built [OF Cons.prems, of g] show ?case
  proof
    assume "\<exists>s'. Get T g s = okR s' \<and> built T s0 s' \<and> guard g s' \<and> (\<forall>h. guard h s \<longrightarrow> guard h s')"
    then obtain s1 where s1: "Get T g s = okR s1" "built T s0 s1" "guard g s1" "\<forall>h. guard h s \<longrightarrow> guard h s1" by blast
    from Cons.IH [OF s1(2)] s1 show ?thesis by auto
  qed simp
qed auto

lemma get_all_Nil: "get_all T [] = okR"
  by (rule ext) simp

lemma KernelClass_get_all: "KernelClass T s = get_all T [TASKRING, MQCLASS, IICDRIVER] s"
  unfolding KernelClass_def KernelClass_members_def by (auto intro!: bindR_cong simp: get_all_Nil simp del: get_all.simps(1))

lemma get_all_append: "get_all T (gs @ hs) s = bindR (get_all T gs s) (get_all T hs)"
  by (induction gs arbitrary: s) (auto intro!: bindR_cong simp: bindR_assoc)

text \<open>The completed kernel is one the main loop can start from.\<close>

lemma built_kernel:
  assumes "built T s0 s" and "tr_guard s" "mq_guard s"
  shows "s = MQClass_init (TaskRing_init s)" and "heap_wf s" and "kernel_inv s (\<lambda>_. []) [] [] 0"
proof -
  show s: "s = MQClass_init (TaskRing_init s)" "heap_wf s"
    using assms by (simp_all add: built_def MQClass_init_def TaskRing_init_def)
  show "kernel_inv s (\<lambda>_. []) [] [] 0" using kernel_start [OF s(2)] s(1) by simp
qed

section \<open>Properties of the start\<close>

text \<open>
  Property C24. The kernel starts with whatever calls of \<open>Get\<close> other static
  objects make before \<open>OS\<close> is constructed. If the heap has room for two blocks, the
  singletons are each constructed exactly once: two blocks are taken from the heap, the
  peripheral is initialised once, all other cells are as before, the queue, the
  subscriptions and the ring are empty, and further calls of \<open>Get\<close> change nothing, even if
  \<open>OS\<close> has been destroyed.
  Otherwise a constructor writes through a null pointer.
\<close>

theorem kernel_boots:
  assumes "at_reset s"
  shows "bindR (get_all T gs s) (KernelClass T) = failR BadPointer \<and> length (pool s) < 2 \<or>
    (\<exists>s'. bindR (get_all T gs s) (KernelClass T) = okR s' \<and> 2 \<le> length (pool s) \<and>
       kernel_inv s' (\<lambda>_. []) [] [] 0 \<and> reachable fb rb tf tc s' \<and>
       {tr_internals s', mq_internals s'} = set (take 2 (pool s)) \<and> pool s' = drop 2 (pool s) \<and>
       cells s' = (\<lambda>p. if p \<in> {tr_internals s', mq_internals s'} then Some CInternals else cells s p) \<and>
       twi_hw s' = IIC_init T (twi_hw s) \<and> get_all T hs (KernelClass_destroy s') = okR s')"
proof -
  let ?hs = "gs @ [TASKRING, MQCLASS, IICDRIVER]"
  have run: "bindR (get_all T gs s) (KernelClass T) = get_all T ?hs s"
    unfolding get_all_append KernelClass_get_all [abs_def] ..
  have again: "get_all T hs t = okR t" if "\<forall>g. guard g t" for t :: "('a, 'b) statics_scheme" and hs
    using that by (induction hs) (simp_all add: Get_again)
  from get_all_built [OF built_reset [OF assms], of T ?hs] show ?thesis
  proof
    assume "\<exists>s'. get_all T ?hs s = okR s' \<and> built T s s' \<and> (\<forall>g. g \<in> set ?hs \<or> guard g s \<longrightarrow> guard g s')"
    then obtain s' where s': "get_all T ?hs s = okR s'" "built T s s'" "\<forall>g. g \<in> set ?hs \<longrightarrow> guard g s'" by blast
    have g: "tr_guard s'" "mq_guard s'" "iic_guard s'"
      using s'(3) [rule_format, of TASKRING] s'(3) [rule_format, of MQCLASS] s'(3) [rule_format, of IICDRIVER] by auto
    then have all: "\<forall>g. guard g s'" by (metis guard.simps singleton.exhaust)
    have bl: "blocks s' = [tr_internals s', mq_internals s']" using g by (simp add: blocks_def)
    note k = built_kernel [OF s'(2) g(1,2)]
    have "reachable fb rb tf tc s'" using reachable.boot [OF k(2), of fb rb tf tc] k(1) by simp
    with s'(1,2) k(3) again [OF all] g(3) show ?thesis
      unfolding run built_def bl KernelClass_destroy_def by (auto simp: numeral_2_eq_2)
  qed (simp add: run)
qed

definition demo_reset :: "(eesim simtwi) statics" where
  "demo_reset = \<lparr>cells = (\<lambda>_. None), pool = [16, 32, 48], sreg_i = True, QueueBlock = [], MsgQueueFirst = 7,
     MsgQueueLast = 7, pHead = 7, pCur = 7, tr_guard = False, tr_internals = 0, mq_guard = False, mq_internals = 0,
     iic_guard = False, twi_hw = sim_idle demo_eeprom\<rparr>"

theorem kernel_boots_witness:
  "\<exists>s'. bindR (get_all demo_twi [MQCLASS, IICDRIVER, MQCLASS] demo_reset) (KernelClass demo_twi) = okR s' \<and>
     kernel_inv s' (\<lambda>_. []) [] [] 0 \<and> pool s' = [48]"
proof -
  have r: "at_reset demo_reset" "pool demo_reset = [16, 32, 48]" by (simp_all add: at_reset_def heap_wf_def demo_reset_def)
  from kernel_boots [OF r(1), of demo_twi "[MQCLASS, IICDRIVER, MQCLASS]" "\<lambda>f c s. okR s" "\<lambda>r i c s. okR s"
      "\<lambda>f c s. okR s" "\<lambda>t s. okR s" "[]"]
  show ?thesis unfolding r(2) by (auto simp: numeral_2_eq_2)
qed

end
