(* ===== verification/Kernel_Types.thy ===== *)
theory Kernel_Types
  imports Kernel_Main
begin

text \<open>
  The types of the pointers of the kernel. The sources cast between \<open>void *\<close> and the
  classes of their lists; here every pointer a reachable state holds is shown to have the type
  its declaration gives it, down to the end of its list, so that no dereference of the
  kernel can find an object of another class, a freed one or a cycle.
\<close>

section \<open>Typing\<close>

datatype ptype = PMESSAGEHANDLER | PMESSAGE | PTASKSTATE | PCONTEXT

inductive has_type :: "'a machine_scheme \<Rightarrow> ptr \<Rightarrow> ptype \<Rightarrow> bool" for s where
  null: "has_type s NULL t"
| handler: "p \<noteq> NULL \<Longrightarrow> cells s p = Some (CHandler h) \<Longrightarrow> has_type s (pNextHandler h) PMESSAGEHANDLER \<Longrightarrow>
    has_type s p PMESSAGEHANDLER"
| message: "p \<noteq> NULL \<Longrightarrow> cells s p = Some (CMessage m) \<Longrightarrow> 0 \<le> msgid m \<Longrightarrow> msgid m < MSG_MAX_MSG_IDS \<Longrightarrow>
    (CallerOwns m = MQ_OWNER_CALLER \<or> has_type s (msg_context m) PCONTEXT) \<Longrightarrow> has_type s (pNextMsg m) PMESSAGE \<Longrightarrow>
    has_type s p PMESSAGE"
| taskstate: "p \<noteq> NULL \<Longrightarrow> cells s p = Some (CTask t) \<Longrightarrow> has_type s (pNext t) PTASKSTATE \<Longrightarrow> has_type s p PTASKSTATE"
| block: "p \<noteq> NULL \<Longrightarrow> cells s p = Some CBlock \<Longrightarrow> has_type s p PCONTEXT"

inductive_cases has_type_handlerE: "has_type s p PMESSAGEHANDLER"
inductive_cases has_type_messageE: "has_type s p PMESSAGE"
inductive_cases has_type_taskE: "has_type s p PTASKSTATE"
inductive_cases has_type_blockE: "has_type s p PCONTEXT"

text \<open>The pointers declared in \<open>MQInternals\<close> and \<open>TASKINTERNALS\<close>.\<close>

definition well_typed :: "'a taskring_scheme \<Rightarrow> bool" where
  "well_typed s \<longleftrightarrow> length (QueueBlock s) = nat MSG_MAX_MSG_IDS \<and>
     list_all (\<lambda>p. has_type s p PMESSAGEHANDLER) (QueueBlock s) \<and>
     has_type s (MsgQueueFirst s) PMESSAGE \<and> has_type s (MsgQueueLast s) PMESSAGE \<and>
     has_type s (pHead s) PTASKSTATE \<and> has_type s (pCur s) PTASKSTATE"

text \<open>A typed pointer that is not null can be read, and what it holds is typed.\<close>

lemma typed_reads:
  "has_type s p PMESSAGEHANDLER \<Longrightarrow> p \<noteq> NULL \<Longrightarrow> \<exists>h. get_handler p s = okR h \<and> has_type s (pNextHandler h) PMESSAGEHANDLER"
  "has_type s p PMESSAGE \<Longrightarrow> p \<noteq> NULL \<Longrightarrow> \<exists>m. get_message p s = okR m \<and> has_type s (pNextMsg m) PMESSAGE"
  "has_type s p PTASKSTATE \<Longrightarrow> p \<noteq> NULL \<Longrightarrow> \<exists>t. get_task p s = okR t \<and> has_type s (pNext t) PTASKSTATE"
  by (erule has_type_handlerE; simp add: get_handler_def)
    (erule has_type_messageE has_type_taskE; simp add: get_message_def get_task_def)+

section \<open>The invariant gives the types\<close>

lemma handlers_typed: "lchain (hnode (cells s)) p xs \<Longrightarrow> has_type s p PMESSAGEHANDLER"
proof (induction xs arbitrary: p)
  case (Cons x xs)
  then obtain h where "p \<noteq> NULL" "cells s p = Some (CHandler h)" "lchain (hnode (cells s)) (pNextHandler h) xs"
    by (auto split: option.splits dest!: hcell_SomeD)
  with Cons.IH show ?case by (blast intro: has_type.handler)
qed (simp add: has_type.null)

lemma tasks_typed: "lchain (tnode (cells s)) p xs \<Longrightarrow> has_type s p PTASKSTATE"
proof (induction xs arbitrary: p)
  case (Cons x xs)
  then obtain t where "p \<noteq> NULL" "cells s p = Some (CTask t)" "lchain (tnode (cells s)) (pNext t) xs"
    by (auto split: option.splits dest!: tcell_SomeD)
  with Cons.IH show ?case by (blast intro: has_type.taskstate)
qed (simp add: has_type.null)

lemma messages_typed:
  "lchain (mnode (cells s)) p xs \<Longrightarrow> list_all valid_letter (vals xs) \<Longrightarrow>
     list_all (\<lambda>c. cells s c = Some CBlock) (owned (vals xs)) \<Longrightarrow> has_type s p PMESSAGE"
proof (induction xs arbitrary: p)
  case (Cons x xs)
  then obtain m where m: "p \<noteq> NULL" "cells s p = Some (CMessage m)" "snd x = letter_of m"
      "lchain (mnode (cells s)) (pNextMsg m) xs"
    by (auto split: option.splits dest!: mcell_SomeD)
  have v: "0 \<le> msgid m" "msgid m < MSG_MAX_MSG_IDS"
    using Cons.prems(2) m(3) by (auto simp: valid_letter_def letter_of_def MSG_MAX_MSG_IDS_def)
  have "list_all (\<lambda>c. cells s c = Some CBlock) (owned_ctx (letter_of m))" using Cons.prems(3) m(3) by simp
  then have "CallerOwns m = MQ_OWNER_CALLER \<or> has_type s (msg_context m) PCONTEXT"
    by (auto simp: letter_of_def intro: has_type.intros split: if_splits)
  moreover have "has_type s (pNextMsg m) PMESSAGE" using Cons.IH [OF m(4)] Cons.prems(2,3) by simp
  ultimately show ?case using m(1,2) v by (blast intro: has_type.message)
qed (simp add: has_type.null)

lemma kernel_inv_typed:
  assumes inv: "kernel_inv s H M T k"
  shows "well_typed s"
proof -
  have i: "subs_rep s H" "queue_rep s M" "list_all valid_letter (vals M)"
      "list_all (\<lambda>c. cells s c = Some CBlock) (owned (vals M))" "ring_at s T k" "ring_rep s T"
    using inv by (auto simp: kernel_inv_def mq_inv_def mq_rep_def ring_at_def)
  have "list_all (\<lambda>p. has_type s p PMESSAGEHANDLER) (QueueBlock s)"
    using i(1) by (auto simp: subs_rep_def list_all_length intro: handlers_typed)
  moreover have "has_type s (MsgQueueFirst s) PMESSAGE"
    using i(2-4) by (auto simp: queue_rep_def intro: messages_typed)
  moreover have "has_type s (MsgQueueLast s) PMESSAGE"
  proof (cases "M = []")
    case False
    then have l: "last M \<in> set M" "lchain (mnode (cells s)) (fst (last M)) [last M]" "MsgQueueLast s = fst (last M)"
      using i(2) lchain_last by (auto simp: queue_rep_def)
    with messages_typed [OF l(2)] i(3,4) show ?thesis by (force simp: list_all_iff)
  qed (use i(2) in \<open>simp add: queue_rep_def has_type.null\<close>)
  moreover have "has_type s (pHead s) PTASKSTATE" using i(6) by (auto simp: ring_rep_def intro: tasks_typed)
  moreover have "has_type s (pCur s) PTASKSTATE"
    using i(5,6) lchain_drop [of "tnode (cells s)" "pHead s" T k] tasks_typed
    by (auto simp: ring_at_def ring_rep_def has_type.null)
  ultimately show ?thesis using i(1) by (simp add: well_typed_def subs_rep_def)
qed

section \<open>Property\<close>

text \<open>
  Property C14. Type safety of the kernel's lists: in every state reached from the start by the main loop,
  interrupts and calls of the interface, every entry of the subscription
  table, both ends of the queue, the head and the cursor of the ring have the type of their
  declaration; the objects they lead to have live successors of the same class up to a null
  pointer, every queued message has an id inside the table, and a context the queue has
  to free is null or a live allocation.
\<close>

theorem kernel_well_typed:
  assumes "reachable fb rb tf tc s" and "good_handlers fb rb" and "good_tasks tf tc"
  shows "well_typed s"
  using reachable_ok [OF assms] kernel_inv_typed by (auto simp: kernel_ok_def)

theorem kernel_well_typed_witness:
  "\<exists>s'. Subscribe 3 (Recv 512) (MQClass_init (TaskRing_init (demo_kernel ([] :: delivery list)))) = okR (0, s') \<and> well_typed s'"
proof -
  let ?s = "MQClass_init (TaskRing_init (demo_kernel ([] :: delivery list)))"
  have wf: "heap_wf (demo_kernel x)" for x :: "delivery list"
    using demo_kernel_inv [of x] by (auto simp: kernel_inv_def intro: mq_inv_heap)
  obtain s' where s': "Subscribe (int 3) (Recv 512) ?s = okR (0, s')"
    by (simp add: MQClass_init_def TaskRing_init_def demo_kernel_def Subscribe_class_def read_block_def
        scan_handlers.simps new_cell_def get_handler_def put_cell_def write_block_def)
  have "reachable krec_fn krec_recv (\<lambda>f c s. okR s) (\<lambda>t s. okR s) s'"
    by (rule reachable.step [OF reachable.boot [OF wf] kernel_step.subscribe [OF _ s']]) simp
  from kernel_well_typed [OF this krec_good idle_tasks_good] s' show ?thesis by auto
qed

end
