(* ===== verification/Kernel_Memory.thy ===== *)
theory Kernel_Memory
  imports Kernel_Main
begin

text \<open>
  The kernel does not leak memory. Every object it allocates is linked: a subscription into the
  list of its id, a message into the queue, a task into the ring. No step of the running system
  leaves a cell that is in none of these lists, so the heap is not used up however long
  the system runs.
\<close>

section \<open>Linked and stray cells\<close>

definition links :: "(nat \<Rightarrow> (ptr \<times> subscriber) list) \<Rightarrow> (ptr \<times> letter) list \<Rightarrow> (ptr \<times> job) list \<Rightarrow> ptr set" where
  "links H M T = (\<Union>i<26. set (addrs (H i))) \<union> set (addrs M) \<union> set (addrs T)"

text \<open>
  The allocated cells that are in no list; the blocks that carry contexts of messages belong to the
  application until they are posted, and are left out.
\<close>

definition stray :: "'a mq_scheme \<Rightarrow> (nat \<Rightarrow> (ptr \<times> subscriber) list) \<Rightarrow> (ptr \<times> letter) list \<Rightarrow> (ptr \<times> job) list \<Rightarrow>
    ptr set" where
  "stray s H M T = {p. \<exists>c. cells s p = Some c \<and> c \<noteq> CBlock} - links H M T"

lemma strayI: "cells s p = Some c \<Longrightarrow> c \<noteq> CBlock \<Longrightarrow> p \<notin> links H M T \<Longrightarrow> p \<in> stray s H M T"
  by (auto simp: stray_def)

lemma strayE:
  assumes "p \<in> stray s H M T"
  obtains c where "cells s p = Some c" "c \<noteq> CBlock" "p \<notin> links H M T"
  using assms by (auto simp: stray_def)

lemma stray_cells: "cells s' = cells s \<Longrightarrow> stray s' H M T = stray s H M T"
  by (simp add: stray_def)

lemma queue_unique: "mq_rep s H M \<Longrightarrow> mq_rep s H' M' \<Longrightarrow> M = M'"
  by (auto simp: mq_rep_def queue_rep_def dest: lchain_unique)

lemma ring_unique: "ring_rep s T \<Longrightarrow> ring_rep s T' \<Longrightarrow> T = T'"
  by (auto simp: ring_rep_def dest: lchain_unique)

text \<open>Handlers and tasks that leave no stray cell behind either.\<close>

definition tidy :: "'a taskring_scheme \<Rightarrow> 'a taskring_scheme \<Rightarrow> bool" where
  "tidy s s' \<longleftrightarrow> (\<forall>H F M M' T T'. mq_inv s H F M \<and> ring_rep s T \<and> mq_inv s' H F M' \<and> ring_rep s' T' \<longrightarrow>
     stray s' H M' T' \<subseteq> stray s H M T)"

definition tidy_handlers :: "('a taskring_scheme) fn_bodies \<Rightarrow> ('a taskring_scheme) recv_bodies \<Rightarrow> bool" where
  "tidy_handlers fb rb \<longleftrightarrow> (\<forall>x mid ctx s s'. call_sub fb rb x mid ctx s = okR s' \<longrightarrow> tidy s s')"

definition tidy_tasks :: "('a taskring_scheme) task_fns \<Rightarrow> ('a taskring_scheme) task_loops \<Rightarrow> bool" where
  "tidy_tasks tf tc \<longleftrightarrow> (\<forall>j s s'. run_job tf tc j s = okR s' \<longrightarrow> tidy s s')"

lemma tidyD:
  "tidy s s' \<Longrightarrow> mq_inv s H F M \<Longrightarrow> ring_rep s T \<Longrightarrow> mq_inv s' H F M' \<Longrightarrow> ring_rep s' T' \<Longrightarrow>
     stray s' H M' T' \<subseteq> stray s H M T"
  unfolding tidy_def by blast

text \<open>Code that does not touch the heap is tidy.\<close>

lemma tidy_cells:
  assumes "cells s' = cells s" "MsgQueueFirst s' = MsgQueueFirst s" "pHead s' = pHead s"
  shows "tidy s s'"
  unfolding tidy_def
proof (intro allI impI, elim conjE)
  fix H F M M' T T'
  assume "mq_inv s H F M" "ring_rep s T" "mq_inv s' H F M'" "ring_rep s' T'"
  then have "M' = M" "T' = T"
    using assms by (auto simp: mq_inv_def mq_rep_def queue_rep_def ring_rep_def dest: lchain_unique)
  then show "stray s' H M' T' \<subseteq> stray s H M T" using stray_cells [OF assms(1)] by blast
qed

section \<open>The calls of the interface\<close>

lemma get_message_dom: "get_message q s = okR m \<Longrightarrow> q \<in> dom (cells s)"
  by (auto simp: get_message_def split: option.splits)

lemma Post_dom:
  assumes "Post mid ctx ow ic s = okR (rc, s')" and "pool s = p # ps"
  shows "dom (cells s') \<subseteq> insert p (dom (cells s))"
proof -
  let ?s0 = "if ic \<noteq> MQ_CONTEXT_INTERRUPT then INTDisableMasterInterrupts s else s"
  have c: "cells ?s0 = cells s" "pool ?s0 = p # ps" using assms(2) by (simp_all add: kernel_defs)
  let ?n = "CMessage \<lparr>msgid = mid, msg_context = ctx, CallerOwns = ow, pNextMsg = NULL\<rparr>"
  have n: "new_cell ?n ?s0 = (p, ?s0\<lparr>cells := (cells s)(p \<mapsto> ?n), pool := ps\<rparr>)" using c by (simp add: new_cell_def)
  show ?thesis
    using assms(1) c get_message_dom unfolding Post_def n Let_def prod.case
    by (fastforce simp: put_cell_def kernel_defs bindR_ok_iff split: if_splits)
qed

lemma stray_Post:
  assumes inv: "kernel_inv s H M T k" and mid: "0 \<le> mid" "mid < 26"
    and own: "set (owned_ctx (mid, ctx, ow)) \<inter> set (owned (vals M)) = {}"
      "\<forall>c \<in> set (owned_ctx (mid, ctx, ow)). cells s c = Some CBlock"
  shows "\<exists>rc s' N. Post mid ctx ow ic s = okR (rc, s') \<and> kernel_inv s' H (M @ N) T k \<and>
    stray s' H (M @ N) T \<subseteq> stray s H M T"
proof (cases "pool s")
  case Nil
  then have "Post mid ctx ow ic s = okR (-1, s\<lparr>sreg_i := after_post ic s\<rparr>)" by (simp add: Post_rejected)
  with inv show ?thesis using kernel_inv_Post [OF inv mid own, of ic] by (auto simp: stray_def links_def)
next
  case (Cons p ps)
  obtain rc s' N where s': "Post mid ctx ow ic s = okR (rc, s')" "kernel_inv s' H (M @ N) T k"
    using kernel_inv_Post [OF inv mid own, of ic] by blast
  have rep: "mq_rep s H M" using inv by (simp add: kernel_inv_def mq_inv_def)
  have acc: "mq_rep s' H (M @ [(p, (mid, ctx, ow))])" "keeps_cells (set (addrs M)) s s'"
    using Post_accepted [OF rep mid(2) _ Cons, of ctx ow ic] mid s'(1) by auto
  have N: "N = [(p, (mid, ctx, ow))]"
    using queue_unique [OF acc(1), of H "M @ N"] s'(2) by (simp add: kernel_inv_def mq_inv_def)
  have dom: "dom (cells s') \<subseteq> insert p (dom (cells s))"
    using Post_dom [OF s'(1) Cons] .
  have "stray s' H (M @ N) T \<subseteq> stray s H M T"
  proof
    fix q assume "q \<in> stray s' H (M @ N) T"
    then obtain c where c: "cells s' q = Some c" "c \<noteq> CBlock" "q \<notin> links H (M @ N) T" by (rule strayE)
    then have q: "q \<noteq> p" "q \<notin> links H M T" "q \<notin> set (addrs M)" by (auto simp: N links_def)
    then obtain c' where "cells s q = Some c'" using dom c(1) by auto
    with keeps_cellsD [OF acc(2) this q(3)] c q(2) show "q \<in> stray s H M T" by (intro strayI) auto
  qed
  with s' show ?thesis by blast
qed

lemma stray_subs:
  assumes keep: "keeps_others s s'" and out: "outside s' H' \<subseteq> outside s H"
  shows "stray s' H' M T \<subseteq> stray s H M T"
proof
  fix q assume "q \<in> stray s' H' M T"
  then obtain c where c: "cells s' q = Some c" "c \<noteq> CBlock" "q \<notin> links H' M T" by (rule strayE)
  then have "q \<in> outside s' H'" by (auto simp: outside_def links_def)
  with out have "q \<in> outside s H" by blast
  then obtain c' where c': "cells s q = Some c'" "q \<notin> (\<Union>i<26. set (addrs (H i)))" by (auto simp: outside_def)
  have "hcell (Some CBlock) = None" by simp
  with keep c(1,2) c'(1) have "c' \<noteq> CBlock" unfolding keeps_others_def by (metis option.inject)
  with c' c(3) show "q \<in> stray s H M T" by (intro strayI) (auto simp: links_def)
qed

lemma outside_Subscribe:
  assumes "Subscribe (int i) x s = okR (rc, s')" and "pool s = p # ps" and "i < 26"
  shows "outside s' (H(i := (p, x) # H i)) \<subseteq> outside s H"
proof (rule outside_update [OF assms(3)])
  have "dom (cells s') \<subseteq> insert p (dom (cells s))"
    using assms(1,2) by (auto simp: Subscribe_unfold new_cell_def write_block_def bindR_ok_iff split: if_splits)
  then show "dom (cells s') - set (addrs ((p, x) # H i)) \<subseteq> dom (cells s) - set (addrs (H i))" by auto
qed

lemma stray_Register:
  assumes inv: "kernel_inv s H M T k" and r: "Register j s = okR (rc, s')"
  shows "\<exists>R. kernel_inv s' H M (R @ T) (length R + k) \<and> stray s' H M (R @ T) \<subseteq> stray s H M T"
proof (cases "pool s = [] \<or> job_ptr j = NULL")
  case True
  with Register_rejected [OF True] inv r show ?thesis by (intro exI [of _ "[]"]) simp
next
  case False
  then obtain p ps where pool: "pool s = p # ps" by (cases "pool s") auto
  have "heap_wf s" using inv by (auto simp: kernel_inv_def intro: mq_inv_heap)
  then have "p \<noteq> NULL" using pool by (auto simp: heap_wf_def)
  then have "s' = s\<lparr>cells := (cells s)(p \<mapsto> CTask (task_cell j (pHead s))), pool := ps, pHead := p\<rparr>"
    using Register_accepted [OF pool] False r by simp
  then have "stray s' H M ([(p, j)] @ T) \<subseteq> stray s H M T" by (auto simp: stray_def links_def split: if_splits)
  moreover have "kernel_inv s' H M ([(p, j)] @ T) (length [(p, j)] + k)"
    using kernel_inv_accept [OF inv pool, of j] False r by auto
  ultimately show ?thesis by blast
qed

section \<open>The message loop\<close>

lemma call_all_stray:
  assumes gh: "good_handlers fb rb" and th: "tidy_handlers fb rb"
  shows "mq_inv s H F M \<Longrightarrow> ring_rep s T \<Longrightarrow> call_all fb rb xs mid ctx s = okR s' \<Longrightarrow>
    mq_inv s' H F M' \<Longrightarrow> ring_rep s' T' \<Longrightarrow> stray s' H M' T' \<subseteq> stray s H M T"
proof (induction xs arbitrary: s M T)
  case Nil
  then have "M' = M" "T' = T" using queue_unique ring_unique by (auto dest!: mq_inv_rep)
  with Nil show ?case by simp
next
  case (Cons x xs)
  then obtain s1 where s1: "call_sub fb rb x mid ctx s = okR s1" "call_all fb rb xs mid ctx s1 = okR s'"
    by (auto simp: bindR_ok_iff)
  have "well_behaved fb rb" using gh by (simp add: good_handlers_def)
  from well_behaved_quiet [OF this Cons.prems(1) s1(1)] obtain N where N: "mq_inv s1 H F (M @ N)"
    using quietE [OF _ Cons.prems(1)] by metis
  obtain R where R: "ring_rep s1 (R @ T)" using good_handlers_ring [OF gh Cons.prems(1,2) s1(1)] .
  have "tidy s s1" using th s1(1) unfolding tidy_handlers_def by blast
  from Cons.IH [OF N R s1(2) Cons.prems(4,5)] tidyD [OF this Cons.prems(1,2) N R] show ?case by blast
qed

lemma Loop_body_stray:
  assumes inv: "mq_inv s H F M" and ring: "ring_rep s T" and gh: "good_handlers fb rb" and th: "tidy_handlers fb rb"
  shows "\<exists>s' M' R. Loop_body fb rb s = okR s' \<and> mq_inv s' H F M' \<and> ring_rep s' (R @ T) \<and> pCur s' = pCur s \<and>
    stray s' H M' (R @ T) \<subseteq> stray s H M T"
proof (cases M)
  case Nil
  let ?s = "s\<lparr>sreg_i := True\<rparr>"
  have "Loop_body fb rb s = okR ?s" "mq_inv ?s H F []" using inv Nil by (auto intro: Loop_body_idle)
  moreover have "ring_rep ?s ([] @ T)" "stray ?s H [] ([] @ T) \<subseteq> stray s H M T"
    using ring Nil by (simp_all add: ring_rep_def heap_wf_def stray_def)
  ultimately show ?thesis by fastforce
next
  case (Cons x M1)
  obtain p l where x: "x = (p, l)" by (cases x)
  have wb: "well_behaved fb rb" using gh by (simp add: good_handlers_def)
  have inv1: "mq_inv s H F ((p, l) # M1)" using inv Cons x by simp
  obtain s1 s2 s' N where s: "mq.more s1 = mq.more s"
      "call_all fb rb (vals (H (nat (fst l)))) (fst l) (fst (snd l)) s1 = okR s2" "Loop_body fb rb s = okR s'"
      "mq.more s' = mq.more s2" "mq_inv s' H F (M1 @ N)" "mq_inv s1 H (l # F) M1" "cells s1 = cells s"
      "mq_inv s2 H (l # F) (M1 @ N)" "cells s' = (\<lambda>q. if q = p \<or> q \<in> set (owned_ctx l) then None else cells s2 q)"
    using Loop_body_delivers [OF inv1 wb] by blast
  obtain R where R: "ring_rep s' (R @ T)" "pCur s' = pCur s" using Loop_body_ring [OF inv gh ring s(3)] by blast
  have r1: "ring_rep s1 T"
    by (rule ring_rep_frame [OF ring]) (use s(6,7) more_fields [OF s(1)] in \<open>auto simp: mq_inv_heap\<close>)
  obtain R2 where R2: "ring_rep s2 (R2 @ T)" using call_all_ring [OF gh s(6) r1 s(2)] by blast
  have "ring_rep s2 (R @ T)"
    by (rule ring_rep_frame [OF R(1) mq_inv_heap [OF s(8)]]) (use s(9) more_fields [OF s(4)] in \<open>auto split: if_splits\<close>)
  then have "R2 = R" using ring_unique [OF R2] by auto
  with call_all_stray [OF gh th s(6) r1 s(2,8) R2] have "stray s2 H (M1 @ N) (R @ T) \<subseteq> stray s1 H M1 T" by simp
  moreover have "stray s1 H M1 T \<subseteq> insert p (stray s H M T)" using s(7) Cons x by (auto simp: stray_def links_def)
  moreover have "stray s' H (M1 @ N) (R @ T) \<subseteq> stray s2 H (M1 @ N) (R @ T) - {p}"
    using s(9) by (auto simp: stray_def split: if_splits)
  ultimately have "stray s' H (M1 @ N) (R @ T) \<subseteq> stray s H M T" by blast
  with s(3,5) R show ?thesis by blast
qed

lemma MQ_Loop_stray:
  assumes gh: "good_handlers fb rb" and th: "tidy_handlers fb rb"
  shows "mq_inv s H F M \<Longrightarrow> ring_rep s T \<Longrightarrow> \<exists>s' M' R. MQ_Loop fb rb (int n) s = okR s' \<and> mq_inv s' H F M' \<and>
    ring_rep s' (R @ T) \<and> pCur s' = pCur s \<and> stray s' H M' (R @ T) \<subseteq> stray s H M T"
proof (induction n arbitrary: s M T)
  case 0
  then have "MQ_Loop fb rb (int 0) s = okR s \<and> mq_inv s H F M \<and> ring_rep s ([] @ T) \<and> pCur s = pCur s \<and>
      stray s H M ([] @ T) \<subseteq> stray s H M T" by (simp add: MQ_Loop_0)
  then show ?case by blast
next
  case (Suc n)
  obtain s1 M1 R1 where 1: "Loop_body fb rb s = okR s1" "mq_inv s1 H F M1" "ring_rep s1 (R1 @ T)" "pCur s1 = pCur s"
      "stray s1 H M1 (R1 @ T) \<subseteq> stray s H M T"
    using Loop_body_stray [OF Suc.prems gh th] by blast
  obtain s2 M2 R2 where 2: "MQ_Loop fb rb (int n) s1 = okR s2" "mq_inv s2 H F M2" "ring_rep s2 (R2 @ R1 @ T)"
      "pCur s2 = pCur s1" "stray s2 H M2 (R2 @ R1 @ T) \<subseteq> stray s1 H M1 (R1 @ T)"
    using Suc.IH [OF 1(2,3)] by blast
  have "MQ_Loop fb rb (int (Suc n)) s = okR s2" unfolding MQ_Loop_Suc using 1(1) 2(1) by simp
  moreover have "ring_rep s2 ((R2 @ R1) @ T)" "stray s2 H M2 ((R2 @ R1) @ T) \<subseteq> stray s H M T"
    using 1(5) 2(3,5) by auto
  ultimately show ?case using 1(4) 2(2,4) by metis
qed

section \<open>The steps of the system\<close>

definition no_more_stray :: "'a taskring_scheme \<Rightarrow> ptr set \<Rightarrow> bool" where
  "no_more_stray s S \<longleftrightarrow> (\<exists>H M T k. kernel_inv s H M T k \<and> stray s H M T \<subseteq> S)"

lemma no_more_strayI: "kernel_inv s H M T k \<Longrightarrow> stray s H M T \<subseteq> S \<Longrightarrow> no_more_stray s S"
  by (auto simp: no_more_stray_def)

lemma task_turn_stray:
  assumes inv: "kernel_inv s H M T k" and gt: "good_tasks tf tc" and tt: "tidy_tasks tf tc"
    and run: "TaskRing_Loop tf tc s = okR s'"
  shows "no_more_stray s' (stray s H M T)"
proof -
  obtain N R k' where k: "kernel_inv s' H (M @ N) (R @ T) k'" using task_turn [OF inv gt] run by auto
  let ?s0 = "if pCur s = NULL then s\<lparr>pCur := pHead s\<rparr> else s"
  have i: "mq_inv s H [] M" "ring_rep s T" using inv by (auto simp: kernel_inv_def ring_at_def)
  then have i0: "mq_inv ?s0 H [] M" "ring_rep ?s0 T" by (simp_all add: ring_rep_def heap_wf_def)
  have k1: "mq_inv s' H [] (M @ N)" "ring_rep s' (R @ T)" using k by (auto simp: kernel_inv_def ring_at_def)
  have "tidy ?s0 s'"
  proof (cases "pCur ?s0 = NULL")
    case True
    then have "s' = ?s0" using run by (simp add: TaskRing_Loop_def Let_def)
    then show ?thesis using tidy_cells by blast
  next
    case False
    then obtain t s1 t1 where r: "run_job tf tc (job_of t) ?s0 = okR s1" "s' = s1\<lparr>pCur := pNext t1\<rparr>"
      using run by (auto simp: TaskRing_Loop_def Let_def bindR_ok_iff Task_Call_eq split: if_splits)
    then have "tidy ?s0 s1" using tt unfolding tidy_tasks_def by blast
    then show ?thesis unfolding r(2) tidy_def by (simp add: ring_rep_def heap_wf_def stray_def)
  qed
  from tidyD [OF this i0 k1] have "stray s' H (M @ N) (R @ T) \<subseteq> stray s H M T" by (simp add: stray_def split: if_splits)
  with k show ?thesis by (rule no_more_strayI)
qed

lemma new_block_stray:
  assumes "new_cell CBlock s = (p, s1)" "p \<noteq> NULL"
  shows "stray s1 H M T \<subseteq> stray s H M T"
  using assms by (auto simp: new_cell_def stray_def split: list.splits if_splits)

lemma subscribe_stray:
  assumes inv: "kernel_inv s H M T k" and i: "i < 26" and run: "Subscribe (int i) x s = okR (rc, s')"
  shows "no_more_stray s' (stray s H M T)"
proof -
  have rep: "mq_rep s H M" using inv by (simp add: kernel_inv_def mq_inv_def)
  show ?thesis
  proof (cases "raw x \<in> raw ` set (vals (H i)) \<or> pool s = [] \<or> raw x = NULL")
    case True
    with Subscribe_present [OF rep i True] run inv show ?thesis by (auto intro: no_more_strayI)
  next
    case False
    then obtain p ps where pool: "pool s = p # ps" by (cases "pool s") auto
    have f: "mq_rep s' (H(i := (p, x) # H i)) M" "keeps_others s s'"
      using Subscribe_fresh [OF rep i _ _ pool, of x] False run by auto
    from kernel_inv_subs [OF inv f] stray_subs [OF f(2) outside_Subscribe [OF run pool i]] show ?thesis
      by (rule no_more_strayI)
  qed
qed

lemma message_turn_stray:
  assumes inv: "kernel_inv s H M T k" and gh: "good_handlers fb rb" and th: "tidy_handlers fb rb"
    and run: "MQ_Loop fb rb 2 s = okR s'"
  shows "no_more_stray s' (stray s H M T)"
proof -
  have i: "mq_inv s H [] M" "ring_at s T k" "ring_rep s T" using inv by (auto simp: kernel_inv_def ring_at_def)
  obtain M' R where 1: "mq_inv s' H [] M'" "ring_rep s' (R @ T)" "pCur s' = pCur s"
      "stray s' H M' (R @ T) \<subseteq> stray s H M T"
    using MQ_Loop_stray [OF gh th i(1,3), of 2] run by auto
  have "kernel_inv s' H M' (R @ T) (length R + k)"
    using ring_at_grow [OF i(2) 1(2,3)] 1(1) by (simp add: kernel_inv_def)
  from no_more_strayI [OF this 1(4)] show ?thesis .
qed

lemma post_stray:
  assumes inv: "kernel_inv s H M T k" and mid: "0 \<le> mid" "mid < 26"
    and own: "set (owned_ctx (mid, ctx, ow)) \<inter> set (owned (vals M)) = {}"
      "\<forall>c \<in> set (owned_ctx (mid, ctx, ow)). cells s c = Some CBlock"
    and run: "Post mid ctx ow ic s = okR (rc, s')"
  shows "no_more_stray s' (stray s H M T)"
  using stray_Post [OF inv mid own, of ic] run by (auto intro: no_more_strayI)

lemma kernel_step_stray:
  assumes step: "kernel_step fb rb tf tc s s'" and inv: "kernel_inv s H M T k"
    and gh: "good_handlers fb rb" "tidy_handlers fb rb" and gt: "good_tasks tf tc" "tidy_tasks tf tc"
  shows "no_more_stray s' (stray s H M T)"
  using step
proof cases
  case messages
  then show ?thesis by (rule message_turn_stray [OF inv gh])
next
  case tasks
  then show ?thesis by (rule task_turn_stray [OF inv gt])
next
  case (interrupt mid ctx rc)
  then show ?thesis by (intro post_stray [OF inv _ _ _ _ interrupt(4)]) auto
next
  case (post mid ctx rc)
  then show ?thesis by (intro post_stray [OF inv _ _ _ _ post(3)]) auto
next
  case (post_block mid p s1 rc)
  note n = kernel_inv_new_block [OF inv post_block(3,4)]
  have "no_more_stray s' (stray s1 H M T)"
    by (rule post_stray [OF n(1) post_block(1,2) _ _ post_block(5)]) (use n(2,3) in auto)
  with new_block_stray [OF post_block(3,4)] show ?thesis unfolding no_more_stray_def by (meson subset_trans)
next
  case (subscribe i x rc)
  then show ?thesis by (rule subscribe_stray [OF inv])
next
  case (unsubscribe i x rc)
  obtain H' where "mq_rep s' H' M" "keeps_others s s'" "outside s' H' \<subseteq> outside s H"
    using Unsubscribe_frees [of s H M i x] inv unsubscribe by (auto simp: kernel_inv_def mq_inv_def)
  with kernel_inv_subs [OF inv] stray_subs show ?thesis by (metis no_more_strayI)
next
  case (unsubscribe_all r)
  obtain H' where "mq_rep s' H' M" "keeps_others s s'" "outside s' H' \<subseteq> outside s H"
    using UnsubscribeAllIDs_frees [of s H M r] inv unsubscribe_all by (auto simp: kernel_inv_def mq_inv_def)
  with kernel_inv_subs [OF inv] stray_subs show ?thesis by (metis no_more_strayI)
next
  case (register j rc)
  with stray_Register [OF inv] show ?thesis by (meson no_more_strayI)
qed

text \<open>
  Property C15. The kernel does not leak: whatever main loop turns, interrupt posts and interface
  calls run, in any order and number, the final state satisfies the invariant of the kernel, and
  every allocated cell in it is in one of its lists, apart from contexts of messages and from cells
  that were in no list at the start already. The handlers and tasks are assumed to respect the kernel and to leave no
  such cell behind themselves.
\<close>

theorem kernel_never_leaks:
  assumes "kernel_inv s H M T k" and "(kernel_step fb rb tf tc)\<^sup>*\<^sup>* s s'"
    and "good_handlers fb rb" and "tidy_handlers fb rb" and "good_tasks tf tc" and "tidy_tasks tf tc"
  shows "\<exists>H' M' T' k'. kernel_inv s' H' M' T' k' \<and> stray s' H' M' T' \<subseteq> stray s H M T"
  using assms(2)
proof (induction rule: rtranclp_induct)
  case base
  then show ?case using assms(1) by blast
next
  case (step s1 s2)
  then obtain H1 M1 T1 k1 where 1: "kernel_inv s1 H1 M1 T1 k1" "stray s1 H1 M1 T1 \<subseteq> stray s H M T" by blast
  from kernel_step_stray [OF step.hyps(2) 1(1) assms(3-6)] 1(2) show ?case unfolding no_more_stray_def by (meson subset_trans)
qed

lemma krec_tidy: "tidy_handlers krec_fn krec_recv"
  unfolding tidy_handlers_def krec_call by (auto intro!: tidy_cells)

lemma idle_tidy: "tidy_tasks (\<lambda>f c s. okR s) (\<lambda>t s. okR s)"
  unfolding tidy_tasks_def idle_tasks by (auto intro!: tidy_cells)

text \<open>
  A witness: from the small system, whose cells are all linked, a post and then a turn
  of the message loop that delivers and frees two messages.
\<close>

theorem kernel_never_leaks_witness:
  "\<exists>s1 s2 H' M' T' k'. Post 5 0 MQ_OWNER_CALLER MQ_CONTEXT_TASK (demo_kernel []) = okR (0, s1) \<and>
     MQ_Loop krec_fn krec_recv 2 s1 = okR s2 \<and> kernel_inv s2 H' M' T' k' \<and> stray s2 H' M' T' = {}"
proof -
  let ?s = "demo_kernel ([] :: delivery list)" and ?tf = "\<lambda>f c s. okR s" and ?tc = "\<lambda>t s. okR s"
  note i = demo_kernel_inv [of "[] :: delivery list"]
  have rep: "mq_rep ?s demo_subs demo_letters" using i by (simp add: kernel_inv_def mq_inv_def)
  have pool: "pool ?s = 96 # [112]" by (simp add: demo_kernel_def)
  obtain s1 where s1: "Post 5 0 MQ_OWNER_CALLER MQ_CONTEXT_TASK ?s = okR (0, s1)"
    using Post_accepted [OF rep _ _ pool, of 5 0 MQ_OWNER_CALLER MQ_CONTEXT_TASK] by auto
  obtain N where N: "kernel_inv s1 demo_subs (demo_letters @ N) [(128, ClassJob 300)] 1"
    using kernel_inv_Post [OF i, of 5 0 MQ_OWNER_CALLER MQ_CONTEXT_TASK] s1 by auto
  obtain s2 where s2: "MQ_Loop krec_fn krec_recv 2 s1 = okR s2" using mq_turn [OF N krec_good, of 2] by auto
  have "kernel_step krec_fn krec_recv ?tf ?tc ?s s1" by (rule kernel_step.post [OF _ _ s1]) simp_all
  then have "(kernel_step krec_fn krec_recv ?tf ?tc)\<^sup>*\<^sup>* ?s s2"
    using kernel_step.messages [OF s2] by (rule converse_rtranclp_into_rtranclp [OF _ r_into_rtranclp])
  from kernel_never_leaks [OF demo_kernel_inv this krec_good krec_tidy idle_tasks_good idle_tidy]
  obtain H' M' T' k' where "kernel_inv s2 H' M' T' k'"
      "stray s2 H' M' T' \<subseteq> stray ?s demo_subs demo_letters [(128, ClassJob 300)]" by blast
  moreover have "{16, 32} \<subseteq> (\<Union>i<26. set (addrs (demo_subs i)))" by (force simp: demo_subs_def)
  then have "stray ?s demo_subs demo_letters [(128, ClassJob 300)] = {}"
    by (auto simp: stray_def links_def demo_kernel_def demo_letters_def split: if_splits)
  ultimately show ?thesis using s1 s2 by blast
qed

end
