(* ===== verification/Live_Subscriptions.thy ===== *)
theory Live_Subscriptions
  imports Message_Delivery "HOL-Library.Sublist"
begin

text \<open>
  Handlers that change the subscriptions while their message is being delivered. A handler is
  given by the calls of the kernel's interface it makes; the delivery then
  skips the subscribers that were removed before their turn and does not reach the ones that
  were added, because \<open>Subscribe\<close> puts them in front of the list. Only a handler
  that removes its own subscription breaks the traversal.
\<close>

section \<open>Handlers as sequences of calls\<close>

datatype hcall =
    HSubscribe nat subscriber
  | HUnsubscribe nat subscriber
  | HUnsubscribeAll ptr
  | HPost int ptr

fun run_call :: "hcall \<Rightarrow> 'a mq_scheme \<Rightarrow> ('a mq_scheme) res" where
  "run_call (HSubscribe i x) s = bindR (Subscribe (int i) x s) (\<lambda>(_, s1). okR s1)"
| "run_call (HUnsubscribe i x) s = bindR (Unsubscribe (int i) x s) (\<lambda>(_, s1). okR s1)"
| "run_call (HUnsubscribeAll r) s = UnsubscribeAllIDs r s"
| "run_call (HPost mid ctx) s = bindR (Post mid ctx MQ_OWNER_CALLER MQ_CONTEXT_TASK s) (\<lambda>(_, s1). okR s1)"

fun run_calls :: "hcall list \<Rightarrow> 'a mq_scheme \<Rightarrow> ('a mq_scheme) res" where
  "run_calls [] s = okR s"
| "run_calls (c # cs) s = bindR (run_call c s) (run_calls cs)"

fun valid_call :: "hcall \<Rightarrow> bool" where
  "valid_call (HSubscribe i x) = (i < 26)"
| "valid_call (HUnsubscribe i x) = (i < 26)"
| "valid_call (HUnsubscribeAll r) = True"
| "valid_call (HPost mid ctx) = (0 \<le> mid \<and> mid < 26)"

text \<open>The pointers a handler removes from the list of the id \<open>i\<close>.\<close>

fun removes :: "nat \<Rightarrow> hcall \<Rightarrow> ptr list" where
  "removes i (HUnsubscribe j x) = (if j = i then [raw x] else [])"
| "removes i (HUnsubscribeAll r) = [r]"
| "removes i _ = []"

abbreviation removed :: "nat \<Rightarrow> hcall list \<Rightarrow> ptr list" where
  "removed i cs \<equiv> concat (map (removes i) cs)"

text \<open>Handlers that note their call in the rest of the state and then make their calls.\<close>

definition script_fn :: "(ptr \<Rightarrow> ptr \<Rightarrow> hcall list) \<Rightarrow> ((delivery list) mq_scheme) fn_bodies" where
  "script_fn sf f ctx s = run_calls (sf f ctx) (mq.more_update (\<lambda>l. l @ [CalledFn f ctx]) s)"

definition script_recv :: "(ptr \<Rightarrow> int \<Rightarrow> ptr \<Rightarrow> hcall list) \<Rightarrow> ((delivery list) mq_scheme) recv_bodies" where
  "script_recv sr r mid ctx s = run_calls (sr r mid ctx) (mq.more_update (\<lambda>l. l @ [CalledRecv r mid ctx]) s)"

fun script_of :: "(ptr \<Rightarrow> ptr \<Rightarrow> hcall list) \<Rightarrow> (ptr \<Rightarrow> int \<Rightarrow> ptr \<Rightarrow> hcall list) \<Rightarrow> int \<Rightarrow> ptr \<Rightarrow> subscriber \<Rightarrow>
    hcall list" where
  "script_of sf sr mid ctx (Fn f) = sf f ctx"
| "script_of sf sr mid ctx (Recv r) = sr r mid ctx"

lemma call_script:
  "call_sub (script_fn sf) (script_recv sr) x mid ctx s =
     run_calls (script_of sf sr mid ctx x) (mq.more_update (\<lambda>l. l @ [delivery_of mid ctx x]) s)"
  by (cases x) (simp_all add: script_fn_def script_recv_def)

section \<open>Specification\<close>

text \<open>
  Who is called: the first subscriber, then those of the rest that it has not removed, and so
  on. \<open>sc\<close> gives the calls of each handler.
\<close>

function called :: "(subscriber \<Rightarrow> hcall list) \<Rightarrow> nat \<Rightarrow> subscriber list \<Rightarrow> subscriber list" where
  "called sc i [] = []"
| "called sc i (x # xs) = x # called sc i (filter (\<lambda>y. raw y \<notin> set (removed i (sc x))) xs)"
  by pat_completeness auto
termination
  by (relation "measure (\<lambda>(sc, i, xs). length xs)") (auto simp: le_imp_less_Suc)

lemma called_subseq: "subseq (called sc i xs) xs"
proof (induction sc i xs rule: called.induct)
  case (2 sc i x xs)
  then show ?case using subseq_order.trans [OF _ subseq_filter_left] by fastforce
qed simp

text \<open>Without removals the specification is the one of \<open>Message_Delivery\<close>: everyone is called.\<close>

lemma called_all: "\<forall>x \<in> set xs. removed i (sc x) = [] \<Longrightarrow> called sc i xs = xs"
  by (induction xs) simp_all

lemma called_unless_removed:
  "y \<in> set xs \<Longrightarrow> \<forall>x \<in> set xs. raw y \<notin> set (removed i (sc x)) \<Longrightarrow> y \<in> set (called sc i xs)"
proof (induction sc i xs rule: called.induct)
  case (2 sc i x xs)
  then show ?case by (cases "y = x") auto
qed simp

section \<open>One call of a handler\<close>

text \<open>
  The state of a delivery of the id \<open>i\<close> while the handler \<open>x\<close> at the node \<open>p\<close> runs: \<open>msg\<close>
  is in flight, and \<open>xs\<close> are the nodes after \<open>p\<close>.
\<close>

definition mid_delivery :: "nat \<Rightarrow> ptr \<Rightarrow> message \<Rightarrow> ptr \<times> subscriber \<Rightarrow> (ptr \<times> subscriber) list \<Rightarrow> letter list \<Rightarrow>
    (ptr \<times> letter) list \<Rightarrow> 'a mq_scheme \<Rightarrow> bool" where
  "mid_delivery i msg m n xs F M s \<longleftrightarrow> (\<exists>H pre. mq_inv s H F M \<and> dup_free (\<lambda>j. vals (H j)) \<and>
     H i = pre @ n # xs \<and> cells s msg = Some (CMessage m) \<and> msg \<notin> set (addrs M))"

lemma filter_drop_first:
  assumes "dup_free (\<lambda>j. vals (H j))" and "j < 26"
  shows "drop_first (\<lambda>y. raw (snd y) = k) (H j) = filter (\<lambda>y. raw (snd y) \<noteq> k) (H j)"
  using assms drop_first_once [of "raw \<circ> snd" "H j"] by (simp add: dup_free_def comp_def)

lemma dup_free_filter:
  assumes "dup_free (\<lambda>j. vals (H j))"
  shows "dup_free (\<lambda>j. vals (if j \<in> J then filter P (H j) else H j))"
  using assms by (auto simp: dup_free_def distinct_map intro: inj_on_subset)

text \<open>A change of the table that filters the lists of the ids \<open>J\<close>.\<close>

lemma mid_delivery_filter:
  assumes d: "mq_inv s H F M" "dup_free (\<lambda>j. vals (H j))" "H i = pre @ n # xs" "cells s msg = Some (CMessage m)"
      "msg \<notin> set (addrs M)"
    and rep: "mq_rep s' (\<lambda>j. if j \<in> J then filter P (H j) else H j) M" "keeps_others s s'" and n: "i \<in> J \<Longrightarrow> P n"
  shows "mid_delivery i msg m n (if i \<in> J then filter P xs else xs) F M s' \<and> mq.more s' = mq.more s"
proof -
  have "mq_inv s' (\<lambda>j. if j \<in> J then filter P (H j) else H j) F M" by (rule mq_inv_subs [OF d(1) rep])
  moreover have "dup_free (\<lambda>j. vals (if j \<in> J then filter P (H j) else H j))" by (rule dup_free_filter [OF d(2)])
  moreover have "(if i \<in> J then filter P (H i) else H i) =
      (if i \<in> J then filter P pre else pre) @ n # (if i \<in> J then filter P xs else xs)" using d(3) n by simp
  moreover have "cells s' msg = Some (CMessage m)" "mq.more s' = mq.more s" using rep(2) d(4) by (auto simp: keeps_others_def)
  ultimately show ?thesis using d(5) unfolding mid_delivery_def by blast
qed

lemma run_call_delivery:
  assumes md: "mid_delivery i msg m n xs F M s" and i: "i < 26" and v: "valid_call c"
    and own: "raw (snd n) \<notin> set (removes i c)"
  shows "\<exists>s' N. run_call c s = okR s' \<and> mq.more s' = mq.more s \<and>
    mid_delivery i msg m n (filter (\<lambda>y. raw (snd y) \<notin> set (removes i c)) xs) F (M @ N) s'"
proof -
  obtain H pre where d: "mq_inv s H F M" "dup_free (\<lambda>j. vals (H j))" "H i = pre @ n # xs"
      "cells s msg = Some (CMessage m)" "msg \<notin> set (addrs M)"
    using md by (auto simp: mid_delivery_def)
  note rep = mq_inv_rep [OF d(1)]
  show ?thesis
  proof (cases c)
    case (HSubscribe j x)
    then have j: "j < 26" using v by simp
    show ?thesis
    proof (cases "raw x \<in> raw ` set (vals (H j)) \<or> pool s = [] \<or> raw x = NULL")
      case True
      with Subscribe_present [OF rep j True] HSubscribe md show ?thesis by (auto intro!: exI [of _ "[]"])
    next
      case False
      then obtain p ps where "pool s = p # ps" by (cases "pool s") auto
      with Subscribe_fresh [OF rep j, of x p ps] False obtain s' where
        s': "Subscribe (int j) x s = okR (0, s')" "mq_rep s' (H(j := (p, x) # H j)) M" "keeps_others s s'" by auto
      have "dup_free (\<lambda>k. vals ((H(j := (p, x) # H j)) k))" using d(2) False by (auto simp: dup_free_def)
      moreover have "\<exists>pre'. (H(j := (p, x) # H j)) i = pre' @ n # xs" using d(3) by (auto intro: exI [of _ "(p, x) # pre"])
      ultimately have "mid_delivery i msg m n xs F M s'"
        using mq_inv_subs [OF d(1) s'(2,3)] d(4,5) s'(3) unfolding mid_delivery_def keeps_others_def by fastforce
      with s' HSubscribe show ?thesis by (auto simp: keeps_others_def intro!: exI [of _ "[]"])
    qed
  next
    case (HUnsubscribe j x)
    then have j: "j < 26" using v by simp
    let ?P = "\<lambda>y. raw (snd y) \<noteq> raw x"
    obtain rc s' where s': "Unsubscribe (int j) x s = okR (rc, s')"
        "mq_rep s' (H(j := filter ?P (H j))) M" "keeps_others s s'"
      using Unsubscribe_rep [OF rep j, of x] filter_drop_first [OF d(2) j] by auto
    have "H(j := filter ?P (H j)) = (\<lambda>k. if k \<in> {j} then filter ?P (H k) else H k)" by auto
    with mid_delivery_filter [OF d, of s' "{j}" ?P] s'(2,3) own HUnsubscribe
    have "mid_delivery i msg m n (if i \<in> {j} then filter ?P xs else xs) F M s' \<and> mq.more s' = mq.more s" by auto
    with s'(1) HUnsubscribe show ?thesis by (auto intro!: exI [of _ "[]"] split: if_splits)
  next
    case (HUnsubscribeAll r)
    let ?P = "\<lambda>y. raw (snd y) \<noteq> r"
    have "(\<lambda>k. if k < 26 then drop_first (\<lambda>y. raw (snd y) = r) (H k) else H k) =
        (\<lambda>k. if k \<in> {..<26} then filter ?P (H k) else H k)" using filter_drop_first [OF d(2)] by auto
    with UnsubscribeAllIDs_rep [OF rep, of r] obtain s' where s': "UnsubscribeAllIDs r s = okR s'"
        "mq_rep s' (\<lambda>k. if k \<in> {..<26} then filter ?P (H k) else H k) M" "keeps_others s s'" by auto
    from mid_delivery_filter [OF d s'(2,3)] s'(1) own i HUnsubscribeAll show ?thesis
      by (auto intro!: exI [of _ "[]"])
  next
    case (HPost mid ctx)
    then have mid: "0 \<le> mid" "mid < 26" using v by auto
    obtain rc s' N where s': "Post mid ctx MQ_OWNER_CALLER MQ_CONTEXT_TASK s = okR (rc, s')" "mq_inv s' H F (M @ N)"
        "set (addrs N) \<inter> dom (cells s) = {}" "keeps_cells (set (addrs M)) s s'" "mq.more s' = mq.more s"
      using mq_inv_post [OF d(1) mid, of ctx MQ_OWNER_CALLER MQ_CONTEXT_TASK] by auto
    have "mid_delivery i msg m n xs F (M @ N) s'"
      using s'(2) d(2,3) keeps_cellsD [OF s'(4) d(4,5)] s'(3) d(4,5) unfolding mid_delivery_def by fastforce
    with s' HPost show ?thesis by auto
  qed
qed

lemma run_calls_delivery:
  "mid_delivery i msg m n xs F M s \<Longrightarrow> i < 26 \<Longrightarrow> list_all valid_call cs \<Longrightarrow> raw (snd n) \<notin> set (removed i cs) \<Longrightarrow>
     \<exists>s' N. run_calls cs s = okR s' \<and> mq.more s' = mq.more s \<and>
       mid_delivery i msg m n (filter (\<lambda>y. raw (snd y) \<notin> set (removed i cs)) xs) F (M @ N) s'"
proof (induction cs arbitrary: s xs M)
  case Nil
  then show ?case by (auto intro!: exI [of _ "[]"])
next
  case (Cons c cs)
  obtain s1 N where s1: "run_call c s = okR s1" "mq.more s1 = mq.more s"
      "mid_delivery i msg m n (filter (\<lambda>y. raw (snd y) \<notin> set (removes i c)) xs) F (M @ N) s1"
    using run_call_delivery [OF Cons.prems(1,2), of c] Cons.prems(3,4) by auto
  from Cons.IH [OF s1(3)] Cons.prems(2-4) s1(1,2) show ?case by (auto simp: conj_commute)
qed

lemma mid_delivery_more [simp]:
  "mid_delivery i msg m n xs F M (mq.more_update f s) = mid_delivery i msg m n xs F M s"
  by (simp add: mid_delivery_def)

section \<open>The delivery of one message\<close>

abbreviation first_of :: "(ptr \<times> subscriber) list \<Rightarrow> ptr" where
  "first_of xs \<equiv> (case xs of [] \<Rightarrow> NULL | x # _ \<Rightarrow> fst x)"

lemma dispatch_live:
  assumes i: "i < 26"
    and v: "\<And>x. list_all valid_call (script_of sf sr (msgid m) (msg_context m) x)"
  shows "mq_inv s H F M \<Longrightarrow> dup_free (\<lambda>j. vals (H j)) \<Longrightarrow> H i = pre @ xs \<Longrightarrow> cells s msg = Some (CMessage m) \<Longrightarrow>
    msg \<notin> set (addrs M) \<Longrightarrow>
    \<forall>x \<in> set (vals xs). raw x \<notin> set (removed i (script_of sf sr (msgid m) (msg_context m) x)) \<Longrightarrow>
    \<exists>s' H' N. dispatch (script_fn sf) (script_recv sr) msg (first_of xs) s = okR s' \<and> mq_inv s' H' F (M @ N) \<and>
      dup_free (\<lambda>j. vals (H' j)) \<and> cells s' msg = Some (CMessage m) \<and> msg \<notin> set (addrs (M @ N)) \<and>
      mq.more s' = mq.more s @ map (delivery_of (msgid m) (msg_context m))
        (called (script_of sf sr (msgid m) (msg_context m)) i (vals xs))"
proof (induction "length xs" arbitrary: xs s H M pre rule: less_induct)
  case less
  let ?sc = "script_of sf sr (msgid m) (msg_context m)"
  show ?case
  proof (cases xs)
    case Nil
    with less.prems show ?thesis
      by (intro exI [of _ s] exI [of _ H] exI [of _ "[]"]) (simp add: dispatch.simps)
  next
    case (Cons n ys)
    let ?s = "mq.more_update (\<lambda>l. l @ [delivery_of (msgid m) (msg_context m) (snd n)]) s"
      and ?P = "\<lambda>y. raw y \<notin> set (removed i (?sc (snd n)))"
    have "lchain (hnode (cells s)) (QueueBlock s ! i) (pre @ n # ys)"
      using mq_inv_chain [OF less.prems(1) i] less.prems(3) Cons by simp
    then obtain h where h: "cells s (fst n) = Some (CHandler h)" "subscriber_of h = snd n" "fst n \<noteq> NULL"
      by (auto simp: lseg_append split: option.splits dest!: hcell_SomeD)
    have "mid_delivery i msg m n ys F M s"
      using less.prems(1-5) Cons unfolding mid_delivery_def by blast
    then have "mid_delivery i msg m n ys F M ?s" by simp
    then obtain s1 N where s1: "run_calls (?sc (snd n)) ?s = okR s1" "mq.more s1 = mq.more ?s"
        "mid_delivery i msg m n (filter (\<lambda>y. ?P (snd y)) ys) F (M @ N) s1"
      using run_calls_delivery [OF _ i v [of "snd n"], of msg m n ys F M ?s] less.prems(6) Cons by auto
    define zs where "zs = filter (\<lambda>y. ?P (snd y)) ys"
    obtain H1 pre1 where d: "mq_inv s1 H1 F (M @ N)" "dup_free (\<lambda>j. vals (H1 j))" "H1 i = (pre1 @ [n]) @ zs"
        "cells s1 msg = Some (CMessage m)" "msg \<notin> set (addrs (M @ N))"
      using s1(3) by (auto simp: mid_delivery_def zs_def)
    have "lchain (hnode (cells s1)) (QueueBlock s1 ! i) (pre1 @ n # zs)"
      using mq_inv_chain [OF d(1) i] d(3) by simp
    then obtain h1 where h1: "cells s1 (fst n) = Some (CHandler h1)" "lchain (hnode (cells s1)) (pNextHandler h1) zs"
      by (auto simp: lseg_append split: option.splits dest!: hcell_SomeD)
    have nxt: "pNextHandler h1 = first_of zs" using h1(2) by (cases zs) auto
    have step: "dispatch (script_fn sf) (script_recv sr) msg (fst n) s =
        dispatch (script_fn sf) (script_recv sr) msg (first_of zs) s1"
      using dispatch_step [OF h(1,3) less.prems(4) _ h1(1)] s1(1) h(2) nxt by (simp add: call_script)
    have "length zs < length xs" using Cons by (simp add: zs_def le_imp_less_Suc)
    moreover have "\<forall>x \<in> set (vals zs). raw x \<notin> set (removed i (?sc x))"
      using less.prems(6) Cons by (auto simp: zs_def)
    ultimately obtain s' H' N' where s': "dispatch (script_fn sf) (script_recv sr) msg (first_of zs) s1 = okR s'"
        "mq_inv s' H' F ((M @ N) @ N')" "dup_free (\<lambda>j. vals (H' j))" "cells s' msg = Some (CMessage m)"
        "msg \<notin> set (addrs ((M @ N) @ N'))"
        "mq.more s' = mq.more s1 @ map (delivery_of (msgid m) (msg_context m)) (called ?sc i (vals zs))"
      using less.hyps [OF _ d] by blast
    have "vals zs = filter ?P (vals ys)" by (simp add: zs_def filter_map comp_def)
    then have "mq.more s' = mq.more s @ map (delivery_of (msgid m) (msg_context m)) (called ?sc i (vals xs))"
      using s'(6) s1(2) Cons by simp
    with s' step Cons show ?thesis
      by (intro exI [of _ s'] exI [of _ H'] exI [of _ "N @ N'"]) simp
  qed
qed

lemma Loop_body_live:
  assumes inv: "mq_inv s H [] ((p, l) # M)" and dup: "dup_free (\<lambda>j. vals (H j))"
    and v: "\<And>x. list_all valid_call (script_of sf sr (fst l) (fst (snd l)) x)"
    and own: "\<forall>x \<in> set (vals (H (nat (fst l)))). raw x \<notin> set (removed (nat (fst l)) (script_of sf sr (fst l) (fst (snd l)) x))"
  shows "\<exists>s' H' N. Loop_body (script_fn sf) (script_recv sr) s = okR s' \<and> mq_inv s' H' [] (M @ N) \<and>
    dup_free (\<lambda>j. vals (H' j)) \<and>
    mq.more s' = mq.more s @ map (delivery_of (fst l) (fst (snd l)))
      (called (script_of sf sr (fst l) (fst (snd l))) (nat (fst l)) (vals (H (nat (fst l)))))"
proof -
  obtain s1 m where s1: "pop_message s = okR (p, s1)" "mq_inv s1 H [l] M" "p \<noteq> NULL"
      "cells s1 p = Some (CMessage m)" "letter_of m = l" "p \<notin> set (addrs M)" "mq.more s1 = mq.more s"
    using mq_inv_pop [OF inv] by blast
  have l: "fst l = msgid m" "fst (snd l) = msg_context m" using s1(5) by (auto simp: letter_of_def)
  have i: "nat (fst l) < 26" "0 \<le> fst l" "fst l < 26" using inv by (auto simp: mq_inv_def valid_letter_def)
  have first: "QueueBlock s1 ! nat (fst l) = first_of (H (nat (fst l)))"
    using mq_inv_chain [OF s1(2) i(1)] by (cases "H (nat (fst l))") auto
  from dispatch_live [OF i(1) v [unfolded l] s1(2) dup, of "[]" "H (nat (fst l))" p] s1(4,6) own
  obtain s2 H' N where s2: "dispatch (script_fn sf) (script_recv sr) p (first_of (H (nat (fst l)))) s1 = okR s2"
      "mq_inv s2 H' [l] (M @ N)" "dup_free (\<lambda>j. vals (H' j))" "cells s2 p = Some (CMessage m)" "p \<notin> set (addrs (M @ N))"
      "mq.more s2 = mq.more s1 @ map (delivery_of (fst l) (fst (snd l)))
        (called (script_of sf sr (fst l) (fst (snd l))) (nat (fst l)) (vals (H (nat (fst l)))))"
    unfolding l by auto
  obtain s' where s': "free_message p s2 = okR s'" "mq_inv s' H' [] (M @ N)" "mq.more s' = mq.more s2"
    using free_message_inv [OF s2(2,4) s1(5) s2(5)] by blast
  have "Loop_body (script_fn sf) (script_recv sr) s = okR s'"
    using s1(1,3,4) i s2(1) s'(1) first l by (simp add: Loop_body_def get_message_def read_block_def)
  with s' s2(3,6) s1(7) show ?thesis by auto
qed

lemma MQ_Loop_live:
  assumes v: "\<And>x mid ctx. list_all valid_call (script_of sf sr mid ctx x)"
    and own: "\<And>x mid ctx. raw x \<notin> set (removed (nat mid) (script_of sf sr mid ctx x))"
  shows "mq_inv s H [] M \<Longrightarrow> dup_free (\<lambda>j. vals (H j)) \<Longrightarrow>
    \<exists>s' H' M' rest. MQ_Loop (script_fn sf) (script_recv sr) (int n) s = okR s' \<and> mq_inv s' H' [] M' \<and>
      dup_free (\<lambda>j. vals (H' j)) \<and> mq.more s' = mq.more s @ rest"
proof (induction n arbitrary: s H M)
  case 0
  then show ?case by (auto simp: MQ_Loop_0)
next
  case (Suc n)
  have "\<exists>s1 H1 M1 new. Loop_body (script_fn sf) (script_recv sr) s = okR s1 \<and> mq_inv s1 H1 [] M1 \<and>
      dup_free (\<lambda>j. vals (H1 j)) \<and> mq.more s1 = mq.more s @ new"
  proof (cases M)
    case Nil
    with Loop_body_idle [of s H "[]"] Suc.prems show ?thesis by fastforce
  next
    case (Cons x M1)
    then have "mq_inv s H [] ((fst x, snd x) # M1)" using Suc.prems(1) by simp
    from Loop_body_live [OF this Suc.prems(2) v] own show ?thesis by blast
  qed
  then obtain s1 H1 M1 new where s1: "Loop_body (script_fn sf) (script_recv sr) s = okR s1" "mq_inv s1 H1 [] M1"
      "dup_free (\<lambda>j. vals (H1 j))" "mq.more s1 = mq.more s @ new" by blast
  from Suc.IH [OF s1(2,3)] s1(1,4) show ?case unfolding MQ_Loop_Suc by auto
qed

section \<open>Property\<close>


definition demo_script :: "ptr \<Rightarrow> int \<Rightarrow> ptr \<Rightarrow> hcall list" where
  "demo_script r mid ctx = (if r = 512 then [HUnsubscribe 3 (Fn 100), HSubscribe 3 (Fn 300)] else [])"


end
