(* ===== verification/Kernel_Reference.thy ===== *)
theory Kernel_Reference
  imports Kernel_Main Live_Subscriptions
begin

text \<open>
  A reference kernel on lists and counters, and the proof that the kernel on the heap computes the
  same for every application. The reference has a list of subscribers per id, a list of waiting
  letters, a list of jobs with a cursor and the number of free cells; it
  predicts who is called with what, the result of every call of the interface and the state
  after any number of iterations.
\<close>

section \<open>Applications\<close>

text \<open>
  A call of the interface. What a handler or a task does is the list of calls it makes, which may
  depend on all that the application has observed so far: the deliveries, the turns of its tasks
  and the results of its calls.
\<close>

datatype kcall =
    KPost int ptr
  | KSubscribe nat subscriber
  | KUnsubscribe nat subscriber
  | KUnsubscribeAll ptr
  | KRegister job

datatype event = Delivered delivery | Ran job | Returned int

record program =
  on_message :: "event list \<Rightarrow> delivery \<Rightarrow> kcall list"
  on_turn :: "event list \<Rightarrow> job \<Rightarrow> kcall list"

fun do_call :: "kcall \<Rightarrow> 'a taskring_scheme \<Rightarrow> (int \<times> 'a taskring_scheme) res" where
  "do_call (KPost mid ctx) s = Post mid ctx MQ_OWNER_CALLER MQ_CONTEXT_TASK s"
| "do_call (KSubscribe i x) s = Subscribe (int i) x s"
| "do_call (KUnsubscribe i x) s = Unsubscribe (int i) x s"
| "do_call (KUnsubscribeAll r) s = bindR (UnsubscribeAllIDs r s) (\<lambda>s1. okR (0, s1))"
| "do_call (KRegister j) s = Register j s"

abbreviation observe :: "event \<Rightarrow> (event list) taskring_scheme \<Rightarrow> (event list) taskring_scheme" where
  "observe e s \<equiv> taskring.more_update (\<lambda>h. h @ [e]) s"

fun run_script :: "kcall list \<Rightarrow> (event list) taskring_scheme \<Rightarrow> ((event list) taskring_scheme) res" where
  "run_script [] s = okR s"
| "run_script (c # cs) s = bindR (do_call c s) (\<lambda>(rc, s1). run_script cs (observe (Returned rc) s1))"

definition prog_fn :: "program \<Rightarrow> ((event list) taskring_scheme) fn_bodies" where
  "prog_fn P f ctx s = run_script (on_message P (taskring.more s) (CalledFn f ctx)) (observe (Delivered (CalledFn f ctx)) s)"

definition prog_recv :: "program \<Rightarrow> ((event list) taskring_scheme) recv_bodies" where
  "prog_recv P r mid ctx s =
     run_script (on_message P (taskring.more s) (CalledRecv r mid ctx)) (observe (Delivered (CalledRecv r mid ctx)) s)"

definition prog_task_fn :: "program \<Rightarrow> ((event list) taskring_scheme) task_fns" where
  "prog_task_fn P f c s = run_script (on_turn P (taskring.more s) (FunJob f c)) (observe (Ran (FunJob f c)) s)"

definition prog_task :: "program \<Rightarrow> ((event list) taskring_scheme) task_loops" where
  "prog_task P t s = run_script (on_turn P (taskring.more s) (ClassJob t)) (observe (Ran (ClassJob t)) s)"

text \<open>What happens to the system: iterations of the main loop, and posts of interrupt routines before them.\<close>

datatype input = Iteration | Arrival int ptr

fun run_system :: "program \<Rightarrow> input list \<Rightarrow> (event list) taskring_scheme \<Rightarrow> ((event list) taskring_scheme) res" where
  "run_system P [] s = okR s"
| "run_system P (Iteration # xs) s =
     bindR (loop (prog_fn P) (prog_recv P) (prog_task_fn P) (prog_task P) s) (run_system P xs)"
| "run_system P (Arrival mid ctx # xs) s =
     bindR (Post mid ctx MQ_OWNER_CALLER MQ_CONTEXT_INTERRUPT s) (\<lambda>(_, s1). run_system P xs s1)"

fun valid_kcall :: "kcall \<Rightarrow> bool" where
  "valid_kcall (KPost mid ctx) = (0 \<le> mid \<and> mid < 26)"
| "valid_kcall (KSubscribe i x) = (i < 26)"
| "valid_kcall (KUnsubscribe i x) = (i < 26)"
| "valid_kcall _ = True"

fun valid_input :: "input \<Rightarrow> bool" where
  "valid_input Iteration = True"
| "valid_input (Arrival mid ctx) = (0 \<le> mid \<and> mid < 26)"

definition valid_program :: "program \<Rightarrow> bool" where
  "valid_program P \<longleftrightarrow> (\<forall>h d. list_all valid_kcall (on_message P h d)) \<and> (\<forall>h j. list_all valid_kcall (on_turn P h j))"

section \<open>The reference kernel\<close>

record reference =
  subscribers :: "nat \<Rightarrow> subscriber list"
  waiting :: "letter list"
  jobs :: "job list"
  cursor :: nat
  room :: nat
  history :: "event list"

abbreviation subscribed :: "ptr \<Rightarrow> subscriber list \<Rightarrow> bool" where
  "subscribed p xs \<equiv> p \<in> raw ` set xs"

definition ref_post :: "int \<Rightarrow> ptr \<Rightarrow> reference \<Rightarrow> int \<times> reference" where
  "ref_post mid ctx a = (if room a = 0 then (-1, a)
     else (0, a\<lparr>waiting := waiting a @ [(mid, ctx, MQ_OWNER_CALLER)], room := room a - 1\<rparr>))"

fun ref_call :: "kcall \<Rightarrow> reference \<Rightarrow> int \<times> reference" where
  "ref_call (KPost mid ctx) a = ref_post mid ctx a"
| "ref_call (KSubscribe i x) a =
     (if raw x = NULL \<or> subscribed (raw x) (subscribers a i) \<or> room a = 0 then (-1, a)
      else (0, a\<lparr>subscribers := (subscribers a)(i := x # subscribers a i), room := room a - 1\<rparr>))"
| "ref_call (KUnsubscribe i x) a =
     (if subscribed (raw x) (subscribers a i) then
        (0, a\<lparr>subscribers := (subscribers a)(i := filter (\<lambda>y. raw y \<noteq> raw x) (subscribers a i)), room := Suc (room a)\<rparr>)
      else (-1, a))"
| "ref_call (KUnsubscribeAll r) a =
     (0, a\<lparr>subscribers := (\<lambda>i. if i < 26 then filter (\<lambda>y. raw y \<noteq> r) (subscribers a i) else subscribers a i),
           room := room a + length (filter (\<lambda>i. subscribed r (subscribers a i)) [0..<26])\<rparr>)"
| "ref_call (KRegister j) a =
     (if job_ptr j = NULL \<or> room a = 0 then (-1, a)
      else (0, a\<lparr>jobs := j # jobs a, cursor := Suc (cursor a), room := room a - 1\<rparr>))"

abbreviation ref_observe :: "event \<Rightarrow> reference \<Rightarrow> reference" where
  "ref_observe e a \<equiv> a\<lparr>history := history a @ [e]\<rparr>"

fun ref_script :: "kcall list \<Rightarrow> reference \<Rightarrow> reference" where
  "ref_script [] a = a"
| "ref_script (c # cs) a = (case ref_call c a of (rc, b) \<Rightarrow> ref_script cs (ref_observe (Returned rc) b))"

text \<open>
  The subscriptions to the id \<open>i\<close> that a list of calls removes. A delivery goes on with the
  subscribers that the handler has not removed; it has no result when the handler removes its own
  subscription.
\<close>

fun drops :: "nat \<Rightarrow> kcall \<Rightarrow> ptr list" where
  "drops i (KUnsubscribe j x) = (if j = i then [raw x] else [])"
| "drops i (KUnsubscribeAll r) = [r]"
| "drops i _ = []"

abbreviation dropped :: "nat \<Rightarrow> kcall list \<Rightarrow> ptr list" where
  "dropped i cs \<equiv> concat (map (drops i) cs)"

function ref_dispatch :: "program \<Rightarrow> letter \<Rightarrow> subscriber list \<Rightarrow> reference \<Rightarrow> reference option" where
  "ref_dispatch P l [] a = Some a"
| "ref_dispatch P l (x # xs) a =
     (let d = delivery_of (fst l) (fst (snd l)) x; cs = on_message P (history a) d; ps = dropped (nat (fst l)) cs in
      if raw x \<in> set ps then None
      else ref_dispatch P l (filter (\<lambda>y. raw y \<notin> set ps) xs) (ref_script cs (ref_observe (Delivered d) a)))"
  by pat_completeness auto
termination
  by (relation "measure (\<lambda>(P, l, xs, a). length xs)") (auto simp: le_imp_less_Suc)

definition ref_deliver :: "program \<Rightarrow> reference \<Rightarrow> reference option" where
  "ref_deliver P a = (case waiting a of [] \<Rightarrow> Some a
   | l # ls \<Rightarrow> map_option (\<lambda>b. b\<lparr>room := room b + Suc (length (owned_ctx l))\<rparr>)
       (ref_dispatch P l (subscribers a (nat (fst l))) (a\<lparr>waiting := ls\<rparr>)))"

definition ref_turn :: "program \<Rightarrow> reference \<Rightarrow> reference" where
  "ref_turn P a = (if jobs a = [] then a
     else let i = (if cursor a = length (jobs a) then 0 else cursor a); j = jobs a ! i;
            b = ref_script (on_turn P (history a) j) (a\<lparr>cursor := i, history := history a @ [Ran j]\<rparr>)
          in b\<lparr>cursor := Suc (cursor b)\<rparr>)"

definition ref_loop :: "program \<Rightarrow> reference \<Rightarrow> reference option" where
  "ref_loop P a = map_option (ref_turn P) (Option.bind (ref_deliver P a) (ref_deliver P))"

fun ref_run :: "program \<Rightarrow> input list \<Rightarrow> reference \<Rightarrow> reference option" where
  "ref_run P [] a = Some a"
| "ref_run P (Iteration # xs) a = Option.bind (ref_loop P a) (ref_run P xs)"
| "ref_run P (Arrival mid ctx # xs) a = ref_run P xs (snd (ref_post mid ctx a))"

section \<open>The abstraction\<close>

text \<open>What the heap represents, and the reference state it stands for.\<close>

record view =
  chains :: "nat \<Rightarrow> (ptr \<times> subscriber) list"
  letters :: "(ptr \<times> letter) list"
  ring :: "(ptr \<times> job) list"
  place :: nat

definition abs_kernel :: "(event list) taskring_scheme \<Rightarrow> view \<Rightarrow> reference" where
  "abs_kernel s v = \<lparr>subscribers = (\<lambda>i. vals (chains v i)), waiting = vals (letters v), jobs = vals (ring v),
     cursor = place v, room = length (pool s), history = taskring.more s\<rparr>"

definition live :: "'a taskring_scheme \<Rightarrow> letter list \<Rightarrow> view \<Rightarrow> bool" where
  "live s F v \<longleftrightarrow> mq_inv s (chains v) F (letters v) \<and> ring_at s (ring v) (place v) \<and> dup_free (\<lambda>i. vals (chains v i))"

lemma abs_kernel_simps [simp]:
  "subscribers (abs_kernel s v) = (\<lambda>i. vals (chains v i))" "waiting (abs_kernel s v) = vals (letters v)"
  "jobs (abs_kernel s v) = vals (ring v)" "cursor (abs_kernel s v) = place v" "room (abs_kernel s v) = length (pool s)"
  "history (abs_kernel s v) = taskring.more s"
  by (simp_all add: abs_kernel_def)

lemma abs_observe [simp]: "abs_kernel (observe e s) v = ref_observe e (abs_kernel s v)"
  by (simp add: abs_kernel_def)

lemma ring_at_kmore [simp]: "ring_at (taskring.more_update f s) T k = ring_at s T k"
  by (simp add: ring_at_def)

lemma live_observe [simp]: "live (observe e s) F v = live s F v"
  by (simp add: live_def)

text \<open>
  What the calls of a handler leave alone: the message in flight, the order of the subscribers
  after the current one, and the jobs that were registered before. \<open>ps\<close> are the pointers removed.
\<close>

definition carried :: "(nat \<Rightarrow> ptr list) \<Rightarrow> 'a taskring_scheme \<Rightarrow> view \<Rightarrow> 'a taskring_scheme \<Rightarrow> view \<Rightarrow> bool" where
  "carried ps s v s' v' \<longleftrightarrow>
     (\<forall>p m. cells s p = Some (CMessage m) \<and> p \<notin> set (addrs (letters v)) \<longrightarrow>
        cells s' p = Some (CMessage m) \<and> p \<notin> set (addrs (letters v'))) \<and>
     (\<forall>i pre n xs. i < 26 \<and> chains v i = pre @ n # xs \<and> raw (snd n) \<notin> set (ps i) \<longrightarrow>
        (\<exists>pre'. chains v' i = pre' @ n # filter (\<lambda>y. raw (snd y) \<notin> set (ps i)) xs)) \<and>
     (\<exists>R. ring v' = R @ ring v \<and> place v' = length R + place v)"

lemma carried_observe [simp]:
  "carried ps s v (observe e s') v' = carried ps s v s' v'" "carried ps (observe e s) v s' v' = carried ps s v s' v'"
  by (simp_all add: carried_def)

lemma carried_refl: "carried (\<lambda>i. []) s v s v"
  by (simp add: carried_def)

lemma carried_message:
  assumes "carried ps s v s' v'" and "cells s p = Some (CMessage m)" and "p \<notin> set (addrs (letters v))"
  shows "cells s' p = Some (CMessage m)" and "p \<notin> set (addrs (letters v'))"
  using assms by (auto simp: carried_def)

lemma carried_list:
  assumes "carried ps s v s' v'" and "i < 26" and "chains v i = pre @ n # xs" and "raw (snd n) \<notin> set (ps i)"
  obtains pre' where "chains v' i = pre' @ n # filter (\<lambda>y. raw (snd y) \<notin> set (ps i)) xs"
  using assms unfolding carried_def by blast

lemma carried_ring:
  assumes "carried ps s v s' v'"
  obtains R where "ring v' = R @ ring v" "place v' = length R + place v"
  using assms unfolding carried_def by blast

lemma carried_trans:
  assumes "carried ps s v s1 v1" and "carried qs s1 v1 s2 v2"
  shows "carried (\<lambda>i. ps i @ qs i) s v s2 v2"
  unfolding carried_def
proof (intro conjI allI impI; (elim conjE)?)
  fix p m assume p: "cells s p = Some (CMessage m)" "p \<notin> set (addrs (letters v))"
  show "cells s2 p = Some (CMessage m)" "p \<notin> set (addrs (letters v2))"
    using carried_message [OF assms(2) carried_message [OF assms(1) p]] by simp_all
next
  fix i pre n xs assume i: "i < 26" and v: "chains v i = pre @ n # xs" "raw (snd n) \<notin> set (ps i @ qs i)"
  obtain pre1 where "chains v1 i = pre1 @ n # filter (\<lambda>y. raw (snd y) \<notin> set (ps i)) xs"
    using carried_list [OF assms(1) i v(1)] v(2) by auto
  from carried_list [OF assms(2) i this] v(2)
  show "\<exists>pre'. chains v2 i = pre' @ n # filter (\<lambda>y. raw (snd y) \<notin> set (ps i @ qs i)) xs"
    by (auto simp: conj_commute)
next
  obtain R where "ring v1 = R @ ring v" "place v1 = length R + place v" by (rule carried_ring [OF assms(1)])
  moreover obtain R1 where "ring v2 = R1 @ ring v1" "place v2 = length R1 + place v1" by (rule carried_ring [OF assms(2)])
  ultimately show "\<exists>R. ring v2 = R @ ring v \<and> place v2 = length R + place v" by (intro exI [of _ "R1 @ R"]) simp
qed

section \<open>The calls of the interface\<close>

definition call_sim :: "kcall \<Rightarrow> (event list) taskring_scheme \<Rightarrow> letter list \<Rightarrow> view \<Rightarrow> bool" where
  "call_sim c s F v \<longleftrightarrow> (\<exists>rc s' v'. do_call c s = okR (rc, s') \<and> live s' F v' \<and>
     ref_call c (abs_kernel s v) = (rc, abs_kernel s' v') \<and> carried (\<lambda>i. drops i c) s v s' v')"

lemma call_simI:
  "do_call c s = okR (rc, s') \<Longrightarrow> live s' F v' \<Longrightarrow> ref_call c (abs_kernel s v) = (rc, abs_kernel s' v') \<Longrightarrow>
     carried (\<lambda>i. drops i c) s v s' v' \<Longrightarrow> call_sim c s F v"
  by (auto simp: call_sim_def)

lemma sim_subs:
  assumes live: "live s F v" and rep: "mq_rep s' H' (letters v)" "keeps_others s s'"
    and dup: "dup_free (\<lambda>i. vals (H' i))"
    and tails: "\<And>i pre n xs. i < 26 \<Longrightarrow> chains v i = pre @ n # xs \<Longrightarrow> raw (snd n) \<notin> set (ps i) \<Longrightarrow>
      \<exists>pre'. H' i = pre' @ n # filter (\<lambda>y. raw (snd y) \<notin> set (ps i)) xs"
  shows "live s' F (v\<lparr>chains := H'\<rparr>)" and "carried ps s v s' (v\<lparr>chains := H'\<rparr>)"
    and "abs_kernel s' (v\<lparr>chains := H'\<rparr>) = (abs_kernel s v)\<lparr>subscribers := (\<lambda>i. vals (H' i)), room := length (pool s')\<rparr>"
proof -
  have l: "mq_inv s (chains v) F (letters v)" "ring_at s (ring v) (place v)" using live by (simp_all add: live_def)
  have "heap_wf s'" using rep(1) by (simp add: mq_rep_def)
  from ring_at_others [OF l(2) this rep(2)] mq_inv_subs [OF l(1) rep] dup
  show "live s' F (v\<lparr>chains := H'\<rparr>)" by (simp add: live_def)
  show "carried ps s v s' (v\<lparr>chains := H'\<rparr>)"
    unfolding carried_def using tails rep(2) by (auto simp: keeps_others_def)
  have "taskring.more s' = taskring.more s" using rep(2) more_fields [of s' s] by (simp add: keeps_others_def)
  then show "abs_kernel s' (v\<lparr>chains := H'\<rparr>) = (abs_kernel s v)\<lparr>subscribers := (\<lambda>i. vals (H' i)), room := length (pool s')\<rparr>"
    by (simp add: abs_kernel_def)
qed

lemma sim_filter:
  assumes live: "live s F v"
    and rep: "mq_rep s' (\<lambda>i. if i \<in> J then filter (\<lambda>y. raw (snd y) \<noteq> k) (chains v i) else chains v i) (letters v)"
      "keeps_others s s'"
  defines "v' \<equiv> v\<lparr>chains := \<lambda>i. if i \<in> J then filter (\<lambda>y. raw (snd y) \<noteq> k) (chains v i) else chains v i\<rparr>"
  shows "live s' F v'" and "carried (\<lambda>i. if i \<in> J then [k] else []) s v s' v'"
    and "abs_kernel s' v' = (abs_kernel s v)\<lparr>room := length (pool s'), subscribers :=
      \<lambda>i. if i \<in> J then filter (\<lambda>y. raw y \<noteq> k) (vals (chains v i)) else vals (chains v i)\<rparr>"
proof -
  let ?H = "\<lambda>i. if i \<in> J then filter (\<lambda>y. raw (snd y) \<noteq> k) (chains v i) else chains v i"
  have dup: "dup_free (\<lambda>i. vals (?H i))" using live dup_free_filter by (simp add: live_def)
  have tails: "\<exists>pre'. ?H i = pre' @ n # filter (\<lambda>y. raw (snd y) \<notin> set (if i \<in> J then [k] else [])) xs"
    if "chains v i = pre @ n # xs" "raw (snd n) \<notin> set (if i \<in> J then [k] else [])" for i pre n xs
    using that by (auto split: if_splits)
  note s = sim_subs [OF live rep dup, of "\<lambda>i. if i \<in> J then [k] else []", OF tails]
  show "live s' F v'" "carried (\<lambda>i. if i \<in> J then [k] else []) s v s' v'" using s(1,2) by (simp_all add: v'_def)
  have "(\<lambda>i. vals (?H i)) = (\<lambda>i. if i \<in> J then filter (\<lambda>y. raw y \<noteq> k) (vals (chains v i)) else vals (chains v i))"
    by (auto simp: filter_map comp_def)
  then show "abs_kernel s' v' = (abs_kernel s v)\<lparr>room := length (pool s'), subscribers :=
      \<lambda>i. if i \<in> J then filter (\<lambda>y. raw y \<noteq> k) (vals (chains v i)) else vals (chains v i)\<rparr>"
    using s(3) by (simp add: v'_def)
qed

lemma live_rep: "live s F v \<Longrightarrow> mq_rep s (chains v) (letters v)"
  by (simp add: live_def mq_inv_def)

lemma call_sim_subscribe:
  assumes live: "live s F v" and i: "i < 26"
  shows "call_sim (KSubscribe i x) s F v"
proof (cases "raw x \<in> raw ` set (vals (chains v i)) \<or> pool s = [] \<or> raw x = NULL")
  case True
  from Subscribe_present [OF live_rep [OF live] i True] True live show ?thesis
    by (intro call_simI [of _ _ "-1" s _ v]) (auto intro: carried_refl)
next
  case False
  then obtain p ps where pool: "pool s = p # ps" by (cases "pool s") auto
  let ?H = "(chains v)(i := (p, x) # chains v i)"
  obtain s' where s': "Subscribe (int i) x s = okR (0, s')" "mq_rep s' ?H (letters v)" "keeps_others s s'" "pool s' = ps"
    using Subscribe_fresh [OF live_rep [OF live] i _ _ pool, of x] False by auto
  have "dup_free (\<lambda>j. vals (?H j))" using live False by (auto simp: live_def dup_free_def)
  moreover have "\<exists>pre'. ?H j = pre' @ n # filter (\<lambda>y. raw (snd y) \<notin> set []) xs" if "chains v j = pre @ n # xs" for j pre n xs
    using that by (cases "j = i") (auto intro: exI [of _ "(p, x) # pre"])
  ultimately have s: "live s' F (v\<lparr>chains := ?H\<rparr>)" "carried (\<lambda>i. []) s v s' (v\<lparr>chains := ?H\<rparr>)"
      "abs_kernel s' (v\<lparr>chains := ?H\<rparr>) = (abs_kernel s v)\<lparr>subscribers := (\<lambda>i. vals (?H i)), room := length (pool s')\<rparr>"
    using sim_subs [OF live s'(2,3), of "\<lambda>i. []"] by auto
  have "(\<lambda>j. vals (?H j)) = (\<lambda>j. vals (chains v j))(i := x # vals (chains v i))" by auto
  then have "ref_call (KSubscribe i x) (abs_kernel s v) = (0, abs_kernel s' (v\<lparr>chains := ?H\<rparr>))"
    using False s(3) s'(4) pool by (simp add: fun_upd_def)
  with s'(1) s(1,2) show ?thesis by (intro call_simI) simp_all
qed

lemma call_sim_unsubscribe:
  assumes live: "live s F v" and i: "i < 26"
  shows "call_sim (KUnsubscribe i x) s F v"
proof -
  let ?in = "raw x \<in> raw ` set (vals (chains v i))"
  have d: "dup_free (\<lambda>j. vals (chains v j))" using live by (simp add: live_def)
  have u: "(\<lambda>j. if j \<in> {i} then f (g j) else g j) = g(i := f (g i))" for f g by auto
  obtain s' where s': "Unsubscribe (int i) x s = okR (if ?in then 0 else -1, s')"
      "mq_rep s' (\<lambda>j. if j \<in> {i} then filter (\<lambda>y. raw (snd y) \<noteq> raw x) (chains v j) else chains v j) (letters v)"
      "keeps_others s s'" "length (pool s') = length (pool s) + (if ?in then 1 else 0)"
    using Unsubscribe_frees [OF live_rep [OF live] i, of x] filter_drop_first [OF d i]
    unfolding u [of "filter (\<lambda>y. raw (snd y) \<noteq> raw x)"] by auto
  note s = sim_filter [OF live s'(2,3)]
  let ?v = "v\<lparr>chains := \<lambda>j. if j \<in> {i} then filter (\<lambda>y. raw (snd y) \<noteq> raw x) (chains v j) else chains v j\<rparr>"
  have abs: "abs_kernel s' ?v = (abs_kernel s v)\<lparr>room := length (pool s'),
      subscribers := (\<lambda>j. vals (chains v j))(i := filter (\<lambda>y. raw y \<noteq> raw x) (vals (chains v i)))\<rparr>"
    unfolding s(3) by (simp add: fun_upd_def cong: if_cong)
  have "filter (\<lambda>y. raw y \<noteq> raw x) (vals (chains v i)) = vals (chains v i)" if "\<not> ?in"
    using that by (intro filter_True ballI notI) (metis imageI)
  then have "ref_call (KUnsubscribe i x) (abs_kernel s v) = (if ?in then 0 else -1, abs_kernel s' ?v)"
    unfolding abs using s'(4) by (cases ?in) (simp_all add: abs_kernel_def fun_upd_idem)
  moreover have "(\<lambda>j. if j \<in> {i} then [raw x] else []) = (\<lambda>j. drops j (KUnsubscribe i x))" by auto
  ultimately show ?thesis using s'(1) s(1,2) by (intro call_simI) auto
qed

lemma call_sim_unsubscribe_all:
  assumes live: "live s F v"
  shows "call_sim (KUnsubscribeAll r) s F v"
proof -
  have d: "dup_free (\<lambda>j. vals (chains v j))" using live by (simp add: live_def)
  have e: "(\<lambda>i. if i < 26 then drop_first (\<lambda>y. raw (snd y) = r) (chains v i) else chains v i) =
      (\<lambda>i. if i \<in> {..<26} then filter (\<lambda>y. raw (snd y) \<noteq> r) (chains v i) else chains v i)"
    using filter_drop_first [OF d] by auto
  obtain s' where s': "UnsubscribeAllIDs r s = okR s'" "keeps_others s s'"
      "mq_rep s' (\<lambda>i. if i \<in> {..<26} then filter (\<lambda>y. raw (snd y) \<noteq> r) (chains v i) else chains v i) (letters v)"
      "length (pool s') = length (pool s) + length (filter (\<lambda>i. r \<in> raw ` set (vals (chains v i))) [0..<26])"
    using UnsubscribeAllIDs_frees [OF live_rep [OF live], of r] unfolding e by blast
  note s = sim_filter [OF live s'(3,2)]
  have "carried (\<lambda>i. drops i (KUnsubscribeAll r)) s v s'
      (v\<lparr>chains := \<lambda>i. if i \<in> {..<26} then filter (\<lambda>y. raw (snd y) \<noteq> r) (chains v i) else chains v i\<rparr>)"
    using s(2) unfolding carried_def by auto
  moreover have "ref_call (KUnsubscribeAll r) (abs_kernel s v) = (0, abs_kernel s'
      (v\<lparr>chains := \<lambda>i. if i \<in> {..<26} then filter (\<lambda>y. raw (snd y) \<noteq> r) (chains v i) else chains v i\<rparr>))"
    unfolding s(3) using s'(4) by (simp add: abs_kernel_def cong: if_cong)
  ultimately show ?thesis using s'(1) s(1) by (intro call_simI) auto
qed

lemma sim_post:
  assumes live: "live s F v" and mid: "0 \<le> mid" "mid < 26"
  shows "\<exists>rc s' v'. Post mid ctx MQ_OWNER_CALLER ic s = okR (rc, s') \<and> live s' F v' \<and>
     ref_post mid ctx (abs_kernel s v) = (rc, abs_kernel s' v') \<and> carried (\<lambda>i. []) s v s' v'"
proof -
  have l: "mq_inv s (chains v) F (letters v)" "ring_at s (ring v) (place v)" using live by (simp_all add: live_def)
  obtain rc s' N where s': "Post mid ctx MQ_OWNER_CALLER ic s = okR (rc, s')" "mq_inv s' (chains v) F (letters v @ N)"
      "set (addrs N) \<inter> dom (cells s) = {}" "keeps_cells (set (addrs (letters v))) s s'" "mq.more s' = mq.more s"
      "if pool s = [] then rc = -1 \<and> N = [] else rc = 0 \<and> vals N = [(mid, ctx, MQ_OWNER_CALLER)]"
      "length (pool s') = length (pool s) - 1"
    using mq_inv_post [OF l(1) mid, of ctx MQ_OWNER_CALLER ic] by auto
  let ?v = "v\<lparr>letters := letters v @ N\<rparr>"
  note m = more_fields [OF s'(5)]
  have "ring_at s' (ring v) (place v)"
    by (rule ring_at_frame [OF l(2) mq_inv_heap [OF s'(2)]])
      (use m keeps_cellsD [OF s'(4)] mq_inv_waiting [OF l(1)] in fastforce)+
  with live s'(2) have "live s' F ?v" by (simp add: live_def)
  moreover have "ref_post mid ctx (abs_kernel s v) = (rc, abs_kernel s' ?v)"
    using s'(6,7) m by (auto simp: ref_post_def abs_kernel_def split: if_splits)
  moreover have "carried (\<lambda>i. []) s v s' ?v"
    using keeps_cellsD [OF s'(4)] s'(3) by (fastforce simp: carried_def)
  ultimately show ?thesis using s'(1) by blast
qed

lemma call_sim_register:
  assumes live: "live s F v"
  shows "call_sim (KRegister j) s F v"
proof (cases "pool s = [] \<or> job_ptr j = NULL")
  case True
  from Register_rejected [OF True] True live show ?thesis
    by (intro call_simI [of _ _ "-1" s _ v]) (auto intro: carried_refl)
next
  case False
  have l: "mq_inv s (chains v) F (letters v)" "ring_at s (ring v) (place v)" "ring_rep s (ring v)"
    using live by (simp_all add: live_def ring_at_def)
  obtain p ps where pool: "pool s = p # ps" using False by (cases "pool s") auto
  have p: "p \<noteq> NULL" "cells s p = None" using mq_inv_heap [OF l(1)] pool by (auto simp: heap_wf_def)
  let ?s = "s\<lparr>cells := (cells s)(p \<mapsto> CTask (task_cell j (pHead s))), pool := ps, pHead := p\<rparr>"
    and ?v = "v\<lparr>ring := (p, j) # ring v, place := Suc (place v)\<rparr>"
  have r: "Register j s = okR (0, ?s)" using Register_accepted [OF pool _ p(1)] False by simp
  have "ring_rep ?s ((p, j) # ring v)" using Register_ring [OF l(3) pool, of j] False r by auto
  then have "ring_at ?s ([(p, j)] @ ring v) (length [(p, j)] + place v)" by (intro ring_at_grow [OF l(2)]) simp_all
  moreover have "mq_inv ?s (chains v) F (letters v)" using mq_inv_alloc [OF l(1) pool] by simp
  ultimately have "live ?s F ?v" using live by (simp add: live_def)
  moreover have "ref_call (KRegister j) (abs_kernel s v) = (0, abs_kernel ?s ?v)"
    using False pool by (simp add: abs_kernel_def)
  moreover have "carried (\<lambda>i. []) s v ?s ?v" using p(2) by (auto simp: carried_def)
  ultimately show ?thesis using r by (intro call_simI) simp_all
qed

lemma do_call_sim:
  assumes "live s F v" and "valid_kcall c"
  shows "call_sim c s F v"
proof (cases c)
  case (KPost mid ctx)
  with sim_post [OF assms(1), of mid ctx MQ_CONTEXT_TASK] assms(2) show ?thesis by (auto simp: call_sim_def)
qed (use assms call_sim_subscribe call_sim_unsubscribe call_sim_unsubscribe_all call_sim_register in auto)

lemma run_script_sim:
  "live s F v \<Longrightarrow> list_all valid_kcall cs \<Longrightarrow> \<exists>s' v'. run_script cs s = okR s' \<and> live s' F v' \<and>
     ref_script cs (abs_kernel s v) = abs_kernel s' v' \<and> carried (\<lambda>i. dropped i cs) s v s' v'"
proof (induction cs arbitrary: s v)
  case Nil
  then show ?case using carried_refl by fastforce
next
  case (Cons c cs)
  obtain rc s1 v1 where 1: "do_call c s = okR (rc, s1)" "live s1 F v1"
      "ref_call c (abs_kernel s v) = (rc, abs_kernel s1 v1)" "carried (\<lambda>i. drops i c) s v s1 v1"
    using do_call_sim [OF Cons.prems(1), of c] Cons.prems(2) by (auto simp: call_sim_def)
  obtain s2 v2 where 2: "run_script cs (observe (Returned rc) s1) = okR s2" "live s2 F v2"
      "ref_script cs (abs_kernel (observe (Returned rc) s1) v1) = abs_kernel s2 v2"
      "carried (\<lambda>i. dropped i cs) s1 v1 s2 v2"
    using Cons.IH [of "observe (Returned rc) s1" v1] 1(2) Cons.prems(2) by auto
  from carried_trans [OF 1(4) 2(4)] 1 2 show ?case by auto
qed

section \<open>The iterations\<close>

lemma call_prog:
  "call_sub (prog_fn P) (prog_recv P) x mid ctx s =
     run_script (on_message P (taskring.more s) (delivery_of mid ctx x)) (observe (Delivered (delivery_of mid ctx x)) s)"
  by (cases x) (simp_all add: prog_fn_def prog_recv_def)

lemma run_job_prog:
  "run_job (prog_task_fn P) (prog_task P) j s = run_script (on_turn P (taskring.more s) j) (observe (Ran j) s)"
  by (cases j) (simp_all add: prog_task_fn_def prog_task_def)

text \<open>A node of a list of the table and its successor.\<close>

lemma live_node:
  assumes "live s F v" and "i < 26" and "chains v i = pre @ n # xs"
  obtains h where "cells s (fst n) = Some (CHandler h)" "subscriber_of h = snd n" "fst n \<noteq> NULL"
    "pNextHandler h = first_of xs"
proof -
  have "lchain (hnode (cells s)) (QueueBlock s ! i) (pre @ n # xs)"
    using assms mq_inv_chain [of s "chains v" F "letters v" i] by (simp add: live_def)
  then obtain h where h: "cells s (fst n) = Some (CHandler h)" "subscriber_of h = snd n" "fst n \<noteq> NULL"
      "lchain (hnode (cells s)) (pNextHandler h) xs"
    by (auto simp: lseg_append split: option.splits dest!: hcell_SomeD)
  have "pNextHandler h = first_of xs" using h(4) by (cases xs) auto
  with h that show thesis by blast
qed

lemma dispatch_sim:
  assumes P: "valid_program P" and i: "nat (fst l) < 26" and m: "letter_of m = l"
  shows "live s F v \<Longrightarrow> chains v (nat (fst l)) = pre @ xs \<Longrightarrow> cells s msg = Some (CMessage m) \<Longrightarrow>
    msg \<notin> set (addrs (letters v)) \<Longrightarrow> ref_dispatch P l (vals xs) (abs_kernel s v) = Some a \<Longrightarrow>
    \<exists>s' v'. dispatch (prog_fn P) (prog_recv P) msg (first_of xs) s = okR s' \<and> live s' F v' \<and> abs_kernel s' v' = a \<and>
      cells s' msg = Some (CMessage m) \<and> msg \<notin> set (addrs (letters v'))"
proof (induction "length xs" arbitrary: xs s v pre rule: less_induct)
  case less
  show ?case
  proof (cases xs)
    case Nil
    with less.prems show ?thesis by (intro exI [of _ s] exI [of _ v]) (simp add: dispatch.simps)
  next
    case (Cons n ys)
    let ?d = "delivery_of (fst l) (fst (snd l)) (snd n)"
    let ?cs = "on_message P (taskring.more s) ?d"
    let ?zs = "filter (\<lambda>y. raw (snd y) \<notin> set (dropped (nat (fst l)) ?cs)) ys"
    have l: "msgid m = fst l" "msg_context m = fst (snd l)" using m by (auto simp: letter_of_def)
    obtain h where h: "cells s (fst n) = Some (CHandler h)" "subscriber_of h = snd n" "fst n \<noteq> NULL"
      using live_node [OF less.prems(1) i, of pre n ys] less.prems(2) Cons by metis
    have own: "raw (snd n) \<notin> set (dropped (nat (fst l)) ?cs)"
      and ref: "ref_dispatch P l (vals ?zs) (ref_script ?cs (abs_kernel (observe (Delivered ?d) s) v)) = Some a"
      using less.prems(5) Cons by (auto simp: Let_def filter_map comp_def simp del: set_concat split: if_splits)
    obtain s1 v1 where 1: "run_script ?cs (observe (Delivered ?d) s) = okR s1" "live s1 F v1"
        "ref_script ?cs (abs_kernel (observe (Delivered ?d) s) v) = abs_kernel s1 v1"
        "carried (\<lambda>i. dropped i ?cs) s v s1 v1"
      using run_script_sim [of "observe (Delivered ?d) s" F v ?cs] less.prems(1) P by (auto simp: valid_program_def)
    obtain pre1 where zs: "chains v1 (nat (fst l)) = pre1 @ n # ?zs"
      using carried_list [OF 1(4) i, of pre n ys] less.prems(2) Cons own by auto
    obtain h1 where h1: "cells s1 (fst n) = Some (CHandler h1)" "subscriber_of h1 = snd n" "fst n \<noteq> NULL"
        "pNextHandler h1 = first_of ?zs"
      by (rule live_node [OF 1(2) i zs])
    have "call_sub (prog_fn P) (prog_recv P) (subscriber_of h) (msgid m) (msg_context m) s = okR s1"
      using 1(1) by (simp add: call_prog l h(2))
    then have step: "dispatch (prog_fn P) (prog_recv P) msg (fst n) s = dispatch (prog_fn P) (prog_recv P) msg (first_of ?zs) s1"
      using dispatch_step [OF h(1,3) less.prems(3) _ h1(1)] h1(4) by simp
    have zs': "length ?zs < length xs" "chains v1 (nat (fst l)) = (pre1 @ [n]) @ ?zs" using Cons zs by (simp_all add: le_imp_less_Suc)
    from less.hyps [OF zs'(1) 1(2) zs'(2) carried_message [OF 1(4) less.prems(3,4)] ref [unfolded 1(3)]]
    show ?thesis unfolding step [symmetric] Cons by simp
  qed
qed

text \<open>Taking a message off the queue, and releasing it after its delivery.\<close>

lemma live_pop:
  assumes live: "live s [] v" and M: "letters v = (p, l) # M"
  obtains s1 m where "pop_message s = okR (p, s1)" "p \<noteq> NULL" "cells s1 p = Some (CMessage m)" "letter_of m = l"
    "p \<notin> set (addrs M)" "live s1 [l] (v\<lparr>letters := M\<rparr>)"
    "abs_kernel s1 (v\<lparr>letters := M\<rparr>) = (abs_kernel s v)\<lparr>waiting := vals M\<rparr>"
proof -
  have inv: "mq_inv s (chains v) [] ((p, l) # M)" "ring_at s (ring v) (place v)" "dup_free (\<lambda>i. vals (chains v i))"
    using live M by (simp_all add: live_def)
  obtain s1 m where s1: "pop_message s = okR (p, s1)" "mq_inv s1 (chains v) [l] M" "p \<noteq> NULL"
      "cells s1 p = Some (CMessage m)" "letter_of m = l" "p \<notin> set (addrs M)" "mq.more s1 = mq.more s"
      "cells s1 = cells s" "pool s1 = pool s"
    using mq_inv_pop [OF inv(1)] by blast
  note mf = more_fields [OF s1(7)]
  have "ring_at s1 (ring v) (place v)"
    by (rule ring_at_frame [OF inv(2) mq_inv_heap [OF s1(2)]]) (use mf s1(8) in auto)
  then have "live s1 [l] (v\<lparr>letters := M\<rparr>)" using s1(2) inv(3) by (simp add: live_def)
  moreover have "abs_kernel s1 (v\<lparr>letters := M\<rparr>) = (abs_kernel s v)\<lparr>waiting := vals M\<rparr>" using mf s1(9) by (simp add: abs_kernel_def)
  ultimately show thesis using s1 that by blast
qed

lemma live_free:
  assumes live: "live s [l] v" and msg: "cells s p = Some (CMessage m)" "letter_of m = l" "p \<notin> set (addrs (letters v))"
  obtains s' where "free_message p s = okR s'" "live s' [] v"
    "abs_kernel s' v = (abs_kernel s v)\<lparr>room := length (pool s) + Suc (length (owned_ctx l))\<rparr>"
proof -
  have inv: "mq_inv s (chains v) [l] (letters v)" "ring_at s (ring v) (place v)" using live by (simp_all add: live_def)
  obtain s' where s': "free_message p s = okR s'" "mq_inv s' (chains v) [] (letters v)" "mq.more s' = mq.more s"
      "cells s' = (\<lambda>q. if q = p \<or> q \<in> set (owned_ctx l) then None else cells s q)"
      "length (pool s') = length (pool s) + Suc (length (owned_ctx l))"
    using free_message_inv [OF inv(1) msg] by blast
  note mf = more_fields [OF s'(3)]
  have "cells s' q = Some (CTask t)" if "cells s q = Some (CTask t)" for q t
    using that s'(4) msg(1) mq_inv_owned [OF inv(1), of q] by auto
  with ring_at_frame [OF inv(2) mq_inv_heap [OF s'(2)]] mf have "ring_at s' (ring v) (place v)" by blast
  then have "live s' [] v" using s'(2) live by (simp add: live_def)
  moreover have "abs_kernel s' v = (abs_kernel s v)\<lparr>room := length (pool s) + Suc (length (owned_ctx l))\<rparr>"
    using s'(5) mf by (simp add: abs_kernel_def)
  ultimately show thesis using s'(1) that by blast
qed

lemma deliver_sim:
  assumes P: "valid_program P" and live: "live s [] v" and ref: "ref_deliver P (abs_kernel s v) = Some a"
  shows "\<exists>s' v'. Loop_body (prog_fn P) (prog_recv P) s = okR s' \<and> live s' [] v' \<and> abs_kernel s' v' = a"
proof (cases "letters v")
  case Nil
  then have "Loop_body (prog_fn P) (prog_recv P) s = okR (s\<lparr>sreg_i := True\<rparr>)"
    using live Loop_body_idle(1) [of s "chains v" "[]"] by (simp add: live_def)
  moreover have "live (s\<lparr>sreg_i := True\<rparr>) [] v" using live
    by (simp add: live_def mq_inv_def mq_rep_def heap_wf_def subs_rep_def queue_rep_def ring_at_def ring_rep_def)
  moreover have "abs_kernel (s\<lparr>sreg_i := True\<rparr>) v = a" using ref Nil by (simp add: ref_deliver_def abs_kernel_def)
  ultimately show ?thesis by blast
next
  case (Cons x M)
  obtain p l where x: "x = (p, l)" by (cases x)
  let ?v = "v\<lparr>letters := M\<rparr>"
  obtain s1 m where s1: "pop_message s = okR (p, s1)" "p \<noteq> NULL" "cells s1 p = Some (CMessage m)" "letter_of m = l"
      "p \<notin> set (addrs M)" "live s1 [l] ?v" "abs_kernel s1 ?v = (abs_kernel s v)\<lparr>waiting := vals M\<rparr>"
    using live_pop [OF live Cons [unfolded x]] by blast
  have inv1: "mq_inv s1 (chains v) [l] M" using s1(6) by (simp add: live_def)
  have l: "msgid m = fst l" using s1(4) by (auto simp: letter_of_def)
  have i: "nat (fst l) < 26" "0 \<le> fst l" "fst l < 26" using inv1 by (auto simp: mq_inv_def valid_letter_def)
  obtain b where b: "ref_dispatch P l (vals (chains ?v (nat (fst l)))) (abs_kernel s1 ?v) = Some b"
      "a = b\<lparr>room := room b + Suc (length (owned_ctx l))\<rparr>"
    using ref Cons x s1(7) by (auto simp: ref_deliver_def)
  have first: "QueueBlock s1 ! nat (fst l) = first_of (chains ?v (nat (fst l)))"
    using mq_inv_chain [OF inv1 i(1)] by (cases "chains v (nat (fst l))") auto
  obtain s2 v2 where s2: "dispatch (prog_fn P) (prog_recv P) p (first_of (chains ?v (nat (fst l)))) s1 = okR s2" "live s2 [l] v2"
      "abs_kernel s2 v2 = b" "cells s2 p = Some (CMessage m)" "p \<notin> set (addrs (letters v2))"
    using dispatch_sim [OF P i(1) s1(4,6), of "[]" _ p b] s1(3,5) b(1) by auto
  obtain s' where s': "free_message p s2 = okR s'" "live s' [] v2"
      "abs_kernel s' v2 = (abs_kernel s2 v2)\<lparr>room := length (pool s2) + Suc (length (owned_ctx l))\<rparr>"
    using live_free [OF s2(2,4) s1(4) s2(5)] by blast
  have "abs_kernel s' v2 = a" using b(2) s2(3) s'(3) by auto
  moreover have "Loop_body (prog_fn P) (prog_recv P) s = okR s'"
    using s1 i l s2(1) s'(1) first by (simp add: Loop_body_def get_message_def read_block_def)
  ultimately show ?thesis using s'(2) by blast
qed

lemma turn_sim:
  assumes P: "valid_program P" and live: "live s [] v"
  shows "\<exists>s' v'. TaskRing_Loop (prog_task_fn P) (prog_task P) s = okR s' \<and> live s' [] v' \<and>
    abs_kernel s' v' = ref_turn P (abs_kernel s v)"
proof (cases "ring v = []")
  case True
  let ?s = "s\<lparr>pCur := pHead s\<rparr>"
  have at: "ring_at s [] 0" "place v = 0" using live True by (auto simp: live_def ring_at_def)
  then have "TaskRing_Loop (prog_task_fn P) (prog_task P) s = okR ?s" "ring_at ?s [] 0"
    by (auto simp: TaskRing_Loop_def ring_at_def ring_rep_def heap_wf_def)
  moreover have "abs_kernel ?s v = ref_turn P (abs_kernel s v)" using True by (simp add: abs_kernel_def ref_turn_def)
  ultimately show ?thesis using live True at(2) by (intro exI [of _ ?s] exI [of _ v]) (simp add: live_def)
next
  case False
  have at: "ring_at s (ring v) (place v)" using live by (simp add: live_def)
  define k where "k = (if place v = length (ring v) then 0 else place v)"
  define s0 where "s0 = (if pCur s = NULL then s\<lparr>pCur := pHead s\<rparr> else s)"
  note w = wrap_cursor [OF at False, folded k_def s0_def]
  let ?j = "snd (ring v ! k)" and ?v0 = "v\<lparr>place := k\<rparr>"
  let ?s1 = "observe (Ran ?j) s0"
  have "ring_at s0 (ring v) k" using w by (auto simp: ring_at_def)
  then have live0: "live s0 [] ?v0" using live by (auto simp: live_def s0_def)
  obtain s1 v1 where 1: "run_script (on_turn P (taskring.more s) ?j) ?s1 = okR s1" "live s1 [] v1"
      "ref_script (on_turn P (taskring.more s) ?j) (abs_kernel ?s1 ?v0) = abs_kernel s1 v1"
      "carried (\<lambda>i. dropped i (on_turn P (taskring.more s) ?j)) s0 ?v0 s1 v1"
    using run_script_sim [of ?s1 "[]" ?v0 "on_turn P (taskring.more s) ?j"] live0 P by (auto simp: valid_program_def)
  obtain R where R: "ring v1 = R @ ring v" "place v1 = length R + k" using carried_ring [OF 1(4)] by auto
  have r1: "ring_at s1 (R @ ring v) (length R + k)" using 1(2) R by (simp add: live_def)
  have c: "pCur s1 = pCur s0" using r1 w(1,2) by (simp add: ring_at_def nth_append)
  have run: "run_job (prog_task_fn P) (prog_task P) ?j s0 = okR s1" using 1(1) w(5) by (simp add: run_job_prog)
  have rr: "ring_rep s1 (R @ ring v)" using r1 by (simp add: ring_at_def)
  obtain q where q: "TaskRing_Loop (prog_task_fn P) (prog_task P) s = okR (s1\<lparr>pCur := q\<rparr>)"
      "ring_at (s1\<lparr>pCur := q\<rparr>) (R @ ring v) (length R + Suc k)"
    using TaskRing_Loop_turn [OF at False, folded k_def s0_def, OF run rr c] by blast
  let ?v1 = "v1\<lparr>place := Suc (place v1)\<rparr>"
  have "live (s1\<lparr>pCur := q\<rparr>) [] ?v1" using 1(2) q(2) R by (simp add: live_def)
  moreover have eq: "(abs_kernel s v)\<lparr>cursor := k, history := taskring.more s @ [Ran ?j]\<rparr> = abs_kernel ?s1 ?v0"
    by (simp add: abs_kernel_def s0_def)
  have k: "(if cursor (abs_kernel s v) = length (jobs (abs_kernel s v)) then 0 else cursor (abs_kernel s v)) = k"
      "jobs (abs_kernel s v) ! k = ?j" "(jobs (abs_kernel s v) = []) = False"
    using w(1) False by (simp_all add: k_def)
  have "abs_kernel (s1\<lparr>pCur := q\<rparr>) ?v1 = ref_turn P (abs_kernel s v)"
    unfolding ref_turn_def k Let_def if_False abs_kernel_simps(6) eq 1(3) by (simp add: abs_kernel_def)
  ultimately show ?thesis using q(1) by blast
qed

lemma loop_sim:
  assumes P: "valid_program P" and live: "live s [] v" and ref: "ref_loop P (abs_kernel s v) = Some a"
  shows "\<exists>s' v'. loop (prog_fn P) (prog_recv P) (prog_task_fn P) (prog_task P) s = okR s' \<and> live s' [] v' \<and>
    abs_kernel s' v' = a"
proof -
  obtain a1 a2 where r: "ref_deliver P (abs_kernel s v) = Some a1" "ref_deliver P a1 = Some a2" "a = ref_turn P a2"
    using ref by (auto simp: ref_loop_def bind_eq_Some_conv)
  obtain s1 v1 where 1: "Loop_body (prog_fn P) (prog_recv P) s = okR s1" "live s1 [] v1" "abs_kernel s1 v1 = a1"
    using deliver_sim [OF P live r(1)] by blast
  obtain s2 v2 where 2: "Loop_body (prog_fn P) (prog_recv P) s1 = okR s2" "live s2 [] v2" "abs_kernel s2 v2 = a2"
    using deliver_sim [OF P 1(2)] 1(3) r(2) by blast
  have "MQ_Loop (prog_fn P) (prog_recv P) (int (Suc (Suc 0))) s = okR s2"
    unfolding MQ_Loop_Suc using 1(1) 2(1) by (simp add: MQ_Loop_0)
  then have "MQ_Loop (prog_fn P) (prog_recv P) 2 s = okR s2" by simp
  with turn_sim [OF P 2(2)] 2(3) r(3) show ?thesis by (simp add: loop_def)
qed

lemma run_system_sim:
  assumes P: "valid_program P"
  shows "live s [] v \<Longrightarrow> list_all valid_input xs \<Longrightarrow> ref_run P xs (abs_kernel s v) = Some a \<Longrightarrow>
    \<exists>s' v'. run_system P xs s = okR s' \<and> live s' [] v' \<and> abs_kernel s' v' = a"
proof (induction xs arbitrary: s v)
  case (Cons x xs)
  show ?case
  proof (cases x)
    case Iteration
    then obtain b where b: "ref_loop P (abs_kernel s v) = Some b" "ref_run P xs b = Some a"
      using Cons.prems(3) by (auto simp: bind_eq_Some_conv)
    from loop_sim [OF P Cons.prems(1) b(1)] Cons.IH [of _ _] Cons.prems(2) b(2) Iteration show ?thesis by fastforce
  next
    case (Arrival mid ctx)
    then have mid: "0 \<le> mid" "mid < 26" using Cons.prems(2) by auto
    obtain rc s1 v1 where 1: "Post mid ctx MQ_OWNER_CALLER MQ_CONTEXT_INTERRUPT s = okR (rc, s1)" "live s1 [] v1"
        "ref_post mid ctx (abs_kernel s v) = (rc, abs_kernel s1 v1)"
      using sim_post [OF Cons.prems(1) mid] by blast
    with Cons.IH [OF 1(2)] Cons.prems(2,3) Arrival show ?thesis by simp
  qed
qed auto

section \<open>The kernel from its start\<close>

definition ref_start :: "nat \<Rightarrow> event list \<Rightarrow> reference" where
  "ref_start n h = \<lparr>subscribers = (\<lambda>_. []), waiting = [], jobs = [], cursor = 0, room = n, history = h\<rparr>"

text \<open>The kernel after its construction, the calls that set the application up, and a run.\<close>

definition start_and_run :: "program \<Rightarrow> kcall list \<Rightarrow> input list \<Rightarrow> (event list) taskring_scheme \<Rightarrow>
    ((event list) taskring_scheme) res" where
  "start_and_run P cs xs s = bindR (run_script cs (MQClass_init (TaskRing_init s))) (run_system P xs)"

definition ref_start_and_run :: "program \<Rightarrow> kcall list \<Rightarrow> input list \<Rightarrow> nat \<Rightarrow> event list \<Rightarrow> reference option" where
  "ref_start_and_run P cs xs n h = ref_run P xs (ref_script cs (ref_start n h))"

lemma start_live:
  assumes "heap_wf s"
  defines "v \<equiv> \<lparr>chains = (\<lambda>_. []), letters = [], ring = [], place = 0\<rparr>"
  shows "live (MQClass_init (TaskRing_init s)) [] v"
    and "abs_kernel (MQClass_init (TaskRing_init s)) v = ref_start (length (pool s)) (taskring.more s)"
proof -
  show "live (MQClass_init (TaskRing_init s)) [] v"
    using kernel_start [OF assms(1)] by (simp add: live_def kernel_inv_def v_def dup_free_def)
  show "abs_kernel (MQClass_init (TaskRing_init s)) v = ref_start (length (pool s)) (taskring.more s)"
    by (simp add: abs_kernel_def ref_start_def v_def MQClass_init_def TaskRing_init_def)
qed

lemma start_and_run_sim:
  assumes "heap_wf s" and P: "valid_program P" and "list_all valid_kcall cs" and "list_all valid_input xs"
    and ref: "ref_start_and_run P cs xs (length (pool s)) (taskring.more s) = Some a"
  shows "\<exists>s' v. start_and_run P cs xs s = okR s' \<and> live s' [] v \<and> abs_kernel s' v = a"
proof -
  note b = start_live [OF assms(1)]
  obtain s1 v1 where 1: "run_script cs (MQClass_init (TaskRing_init s)) = okR s1" "live s1 [] v1"
      "ref_script cs (ref_start (length (pool s)) (taskring.more s)) = abs_kernel s1 v1"
    using run_script_sim [OF b(1) assms(3)] unfolding b(2) by blast
  from run_system_sim [OF P 1(2) assms(4)] ref 1(3) have
    "\<exists>s' v'. run_system P xs s1 = okR s' \<and> live s' [] v' \<and> abs_kernel s' v' = a" by (simp add: ref_start_and_run_def)
  with 1(1) show ?thesis by (simp add: start_and_run_def)
qed


text \<open>
  A small application: a task that posts the message 3 at every turn, two subscribers to it, of
  which one answers with the message 4 and the other one unsubscribes the subscriber of that answer.
\<close>

fun demo_on_message :: "event list \<Rightarrow> delivery \<Rightarrow> kcall list" where
  "demo_on_message h (CalledFn f ctx) = (if f = 100 then [KPost 4 ctx] else [])"
| "demo_on_message h (CalledRecv r mid ctx) = [KUnsubscribe 4 (Fn 200)]"

definition demo_program :: program where
  "demo_program = \<lparr>on_message = demo_on_message, on_turn = (\<lambda>h j. [KPost 3 (of_nat (length h))])\<rparr>"

definition demo_setup :: "kcall list" where
  "demo_setup = [KRegister (ClassJob 300), KSubscribe 3 (Recv 512), KSubscribe 3 (Fn 100), KSubscribe 4 (Fn 200),
     KSubscribe 4 (Fn 100)]"

lemma demo_program_valid: "valid_program demo_program"
proof -
  have "list_all valid_kcall (demo_on_message h d)" for h d by (cases d) auto
  then show ?thesis by (simp add: valid_program_def demo_program_def)
qed

definition demo_boot :: "(event list) taskring_scheme" where
  "demo_boot = (demo_kernel [])\<lparr>cells := Map.empty, pool := [16, 32, 48, 64, 80, 96, 112, 128]\<rparr>"

definition demo_inputs :: "input list" where "demo_inputs = [Iteration, Arrival 4 9, Iteration, Iteration]"

definition demo_events :: "event list" where
  "demo_events = [Returned 0, Returned 0, Returned 0, Returned 0, Returned 0, Ran (ClassJob 300), Returned 0,
     Delivered (CalledFn 100 5), Returned 0, Delivered (CalledRecv 512 3 5), Returned 0, Delivered (CalledFn 100 9),
     Returned 0, Ran (ClassJob 300), Returned 0, Delivered (CalledFn 100 5), Returned 0, Delivered (CalledFn 100 9),
     Returned 0, Ran (ClassJob 300), Returned 0]"

lemma demo_boot_simps: "length (pool demo_boot) = 8" "taskring.more demo_boot = []" "heap_wf demo_boot"
  by (simp_all add: demo_boot_def demo_kernel_def heap_wf_def)

lemma demo_calls_valid: "list_all valid_kcall demo_setup" "list_all valid_input demo_inputs"
  by (simp_all add: demo_setup_def demo_inputs_def)

lemma demo_reference:
  obtains a where
    "ref_start_and_run demo_program demo_setup demo_inputs (length (pool demo_boot)) (taskring.more demo_boot) = Some a"
    "history a = demo_events" "room a = 0"
proof -
  have "map_option (\<lambda>a. (history a, room a)) (ref_start_and_run demo_program demo_setup demo_inputs 8 []) = Some (demo_events, 0)"
    by code_simp
  with that show thesis unfolding demo_boot_simps by auto
qed


end
