(* ===== verification/Interrupts.thy ===== *)
theory Interrupts
  imports Message_Delivery
begin

text \<open>
  Interrupts between the statements of the main program. A function of the kernel is given as
  a machine with one program point per statement; \<open>irun\<close> are its runs with interrupts, and
  the locale \<open>interruptible\<close> is what such a machine has to show to refine a specification.
  The interrupt routines are those that post a message (\<open>isr_post\<close>).
\<close>

section \<open>Running a machine with interrupts\<close>

text \<open>
  A run of a machine: \<open>k\<close> statements of the main program, and between them any number of
  interrupts, each only while \<open>enabled\<close> holds.
\<close>

inductive irun :: "('pc \<Rightarrow> 's \<Rightarrow> ('pc \<times> 's) res) \<Rightarrow> ('pc \<Rightarrow> bool) \<Rightarrow> ('s \<Rightarrow> bool) \<Rightarrow> ('s \<Rightarrow> 's \<Rightarrow> bool) \<Rightarrow>
    nat \<Rightarrow> 'pc \<times> 's \<Rightarrow> 'pc \<times> 's \<Rightarrow> bool"
  for step final enabled isr where
  start: "irun step final enabled isr 0 c c"
| main: "irun step final enabled isr k c (pc, s) \<Longrightarrow> \<not> final pc \<Longrightarrow> step pc s = okR c' \<Longrightarrow>
    irun step final enabled isr (Suc k) c c'"
| irq: "irun step final enabled isr k c (pc, s) \<Longrightarrow> enabled s \<Longrightarrow> isr s s' \<Longrightarrow>
    irun step final enabled isr k c (pc, s')"

lemma irun_front:
  "irun step final enabled isr k c c' \<Longrightarrow> \<not> final pc \<Longrightarrow> step pc s = okR c \<Longrightarrow>
     irun step final enabled isr (Suc k) (pc, s) c'"
  by (induction rule: irun.induct) (auto intro: irun.intros)

lemma irun_trans:
  "irun step final enabled isr j c' c'' \<Longrightarrow> irun step final enabled isr k c c' \<Longrightarrow>
     irun step final enabled isr (k + j) c c''"
proof (induction rule: irun.induct)
  case (main j c' pc s c'')
  then show ?case using irun.main [of step final enabled isr "k + j"] by simp
qed (auto intro: irun.irq)

text \<open>
  Without interrupts a machine computes its function, if \<open>rest\<close> is what remains to be computed at a program point.
\<close>

lemma irun_rest:
  assumes "\<And>pc s. rest pc s = bindR (step pc s) (\<lambda>(pc', s'). rest pc' s')"
    and "irun step final enabled (\<lambda>_ _. False) k c c'"
  shows "rest (fst c) (snd c) = rest (fst c') (snd c')"
  using assms(2)
proof (induction rule: irun.induct)
  case (main k c pc s c')
  then show ?case using assms(1) [of pc s] by (simp add: split_beta)
qed auto

lemma eq_closure: "(=)\<^sup>*\<^sup>* a b \<Longrightarrow> b = a"
  by (induction rule: rtranclp_induct) auto

text \<open>
  What an interrupt routine does to the kernel: it posts, with a context of its own or with a
  block it allocates for the queue to free. The processor clears the interrupt flag on
  entry and sets it on return, so the routine runs as a whole and the flag is as before.
\<close>

inductive isr_post :: "'a mq_scheme \<Rightarrow> 'a mq_scheme \<Rightarrow> bool" where
  caller: "0 \<le> mid \<Longrightarrow> mid < 26 \<Longrightarrow>
    Post mid ctx MQ_OWNER_CALLER MQ_CONTEXT_INTERRUPT s = okR (rc, s') \<Longrightarrow> isr_post s s'"
| block: "0 \<le> mid \<Longrightarrow> mid < 26 \<Longrightarrow> new_cell CBlock s = (p, s1) \<Longrightarrow> p \<noteq> NULL \<Longrightarrow>
    Post mid p MQ_OWNER_MQ MQ_CONTEXT_INTERRUPT s1 = okR (rc, s') \<Longrightarrow> isr_post s s'"

text \<open>
  The interface of a machine that tolerates interrupts: \<open>sim e pc s g\<close> relates a program
  point and a state to a state \<open>g\<close> of a specification; statements and interrupts are
  matched by steps of the specification, no statement faults, and \<open>rank\<close> counts the
  statements that are left.
\<close>

locale interruptible =
  fixes step :: "'e \<Rightarrow> 'pc \<Rightarrow> 's \<Rightarrow> ('pc \<times> 's) res"
    and final :: "'pc \<Rightarrow> bool"
    and enabled :: "'s \<Rightarrow> bool"
    and isr :: "'s \<Rightarrow> 's \<Rightarrow> bool"
    and spec :: "'e \<Rightarrow> 'g \<Rightarrow> 'g \<Rightarrow> bool"
    and sim :: "'e \<Rightarrow> 'pc \<Rightarrow> 's \<Rightarrow> 'g \<Rightarrow> bool"
    and rank :: "'e \<Rightarrow> 'pc \<Rightarrow> 'g \<Rightarrow> nat"
  assumes main_law: "sim e pc s g \<Longrightarrow> \<not> final pc \<Longrightarrow>
      \<exists>pc' s' g'. step e pc s = okR (pc', s') \<and> (spec e)\<^sup>*\<^sup>* g g' \<and> sim e pc' s' g' \<and> rank e pc' g' < rank e pc g"
    and isr_law: "sim e pc s g \<Longrightarrow> enabled s \<Longrightarrow> isr s s' \<Longrightarrow>
      \<exists>g'. (spec e)\<^sup>*\<^sup>* g g' \<and> sim e pc s' g' \<and> rank e pc g' = rank e pc g"
begin

lemma run_sim:
  assumes "irun (step e) final enabled isr k c c'" and "sim e (fst c) (snd c) g"
  shows "\<exists>g'. (spec e)\<^sup>*\<^sup>* g g' \<and> sim e (fst c') (snd c') g' \<and> k + rank e (fst c') g' \<le> rank e (fst c) g"
  using assms
proof (induction rule: irun.induct)
  case (start c)
  then show ?case by auto
next
  case (main k c pc s c')
  obtain pc' s' where c': "c' = (pc', s')" by (cases c')
  from main obtain g1 where g1: "(spec e)\<^sup>*\<^sup>* g g1" "sim e pc s g1" "k + rank e pc g1 \<le> rank e (fst c) g" by auto
  from main_law [OF g1(2) main(2)] main(3) c' obtain g2 where
    "(spec e)\<^sup>*\<^sup>* g1 g2" "sim e pc' s' g2" "rank e pc' g2 < rank e pc g1" by auto
  with g1 c' show ?case by (intro exI [of _ g2]) auto
next
  case (irq k c pc s s')
  from irq obtain g1 where g1: "(spec e)\<^sup>*\<^sup>* g g1" "sim e pc s g1" "k + rank e pc g1 \<le> rank e (fst c) g" by auto
  from isr_law [OF g1(2) irq(2,3)] obtain g2 where
    "(spec e)\<^sup>*\<^sup>* g1 g2" "sim e pc s' g2" "rank e pc g2 = rank e pc g1" by auto
  with g1 show ?case by (intro exI [of _ g2]) auto
qed

text \<open>No statement faults or hangs, whatever interrupts came before.\<close>

lemma run_safe:
  assumes "irun (step e) final enabled isr k c (pc', s')" and "sim e (fst c) (snd c) g" and "\<not> final pc'"
  shows "\<exists>c. step e pc' s' = okR c"
  using run_sim [OF assms(1,2)] main_law [OF _ assms(3)] by fastforce

text \<open>From every point of a run the program can finish.\<close>

lemma run_finishes:
  "sim e pc s g \<Longrightarrow> \<exists>k pc' s'. irun (step e) final enabled isr k (pc, s) (pc', s') \<and> final pc'"
proof (induction "rank e pc g" arbitrary: pc s g rule: less_induct)
  case less
  show ?case
  proof (cases "final pc")
    case False
    from main_law [OF less.prems this] obtain pc1 s1 g1 where 1: "step e pc s = okR (pc1, s1)"
        "sim e pc1 s1 g1" "rank e pc1 g1 < rank e pc g" by blast
    from less.hyps [OF 1(3,2)] obtain k pc2 s2 where 2: "irun (step e) final enabled isr k (pc1, s1) (pc2, s2)" "final pc2"
      by blast
    from irun_front [OF 2(1) False 1(1)] 2(2) show ?thesis by blast
  qed (use irun.start in blast)
qed

end

section \<open>What a posting interrupt keeps\<close>

lemma isr_mq_inv:
  assumes "isr_post s s'" and "mq_inv s H F M"
  shows "\<exists>N. mq_inv s' H F (M @ N) \<and> set (addrs N) \<inter> dom (cells s) = {} \<and> keeps_cells (set (addrs M)) s s' \<and>
    mq.more s' = mq.more s \<and> sreg_i s' = sreg_i s"
  using assms
proof (induction rule: isr_post.induct)
  case (caller mid ctx s rc s')
  from mq_inv_post [OF caller(4,1,2), of ctx MQ_OWNER_CALLER MQ_CONTEXT_INTERRUPT] caller(3) show ?case
    by (auto simp: after_post_def)
next
  case (block mid s p s1 rc s')
  have c: "cells s p = None" "cells s1 = (cells s)(p \<mapsto> CBlock)"
    using heap.alloc_content [OF _ block(3,4)] mq_inv_rep [OF block(6)] by (auto simp: mq_rep_def)
  obtain ps where pool: "pool s = p # ps" and s1: "s1 = s\<lparr>cells := (cells s)(p \<mapsto> CBlock), pool := ps\<rparr>"
    using block(3,4) by (auto simp: new_cell_def split: list.splits)
  have inv: "mq_inv s1 H F M" using mq_inv_alloc [OF block(6) pool] s1 by simp
  have "p \<notin> set (owned (F @ vals M))" using mq_inv_owned [OF block(6), of p] c(1) by auto
  with mq_inv_post [OF inv block(1,2), of p MQ_OWNER_MQ MQ_CONTEXT_INTERRUPT] block(5) c(2) obtain N where
    N: "mq_inv s' H F (M @ N)" "set (addrs N) \<inter> dom (cells s1) = {}" "keeps_cells (set (addrs M)) s1 s'"
      "mq.more s' = mq.more s1" "sreg_i s' = sreg_i s1"
    by (auto simp: after_post_def)
  have "keeps_cells (set (addrs M)) s s'" using N(3) c unfolding keeps_cells_def by (metis fun_upd_apply option.distinct(1))
  with N s1 show ?case by auto
qed

lemma demo_isr: "\<exists>s1. isr_post (demo_mq x) s1"
  using Post_accepted [OF demo_rep [of x], of 7 96 "[112]" 0 MQ_OWNER_CALLER MQ_CONTEXT_INTERRUPT]
    isr_post.caller [of 7 0 "demo_mq x"] by auto

lemma demo_enabled: "sreg_i (demo_mq x)"
  by (simp add: demo_mq_def)

lemma demo_interrupted:
  assumes "isr_post (demo_mq x) s1"
  shows "irun step final sreg_i isr_post 0 (pc, demo_mq x) (pc, s1)"
  by (rule irun.irq [where s = "demo_mq x"]) (rule irun.start demo_enabled assms)+

end
