(* ===== verification/Post_Steps.thy ===== *)
theory Post_Steps
  imports Interrupts
begin

text \<open>
  \<open>MQClass::Post\<close> from task context, statement by statement, with posting interrupts in
  between: the post is atomic.
\<close>

section \<open>The statements of \<open>MQClass::Post\<close>\<close>

text \<open>
  A post from task context, statement by statement. Between the instructions that disable and
  enable interrupts the queue is not well formed: the new message is allocated before it
  is linked, and it is linked before \<open>MsgQueueLast\<close> points to it.
\<close>

datatype post_pc =
    PDisable          \<comment> \<open>\<open>INTDisableMasterInterrupts()\<close>\<close>
  | PCheck            \<comment> \<open>\<open>if(msgid<MSG_MAX_MSG_IDS && (msgid!=MSG_ID_NOMESSAGE))\<close>\<close>
  | PNew              \<comment> \<open>\<open>newMessage=new MESSAGE(msgid,context,CallerOwns); if(newMessage)\<close>\<close>
  | PFirst ptr        \<comment> \<open>\<open>if(MsgQueueFirst==NULL) MsgQueueFirst=MsgQueueLast=newMessage\<close>\<close>
  | PLink ptr         \<comment> \<open>\<open>MsgQueueLast->pNextMsg=newMessage\<close>\<close>
  | PLast ptr         \<comment> \<open>\<open>MsgQueueLast=newMessage\<close>\<close>
  | PEnable int       \<comment> \<open>\<open>INTEnableMasterInterrupts()\<close>\<close>
  | PDone int         \<comment> \<open>\<open>return rc\<close>\<close>

fun post_step :: "letter \<Rightarrow> post_pc \<Rightarrow> 'a mq_scheme \<Rightarrow> (post_pc \<times> 'a mq_scheme) res" where
  "post_step l PDisable s = okR (PCheck, INTDisableMasterInterrupts s)"
| "post_step (mid, ctx, ow) PCheck s =
     okR (if mid < MSG_MAX_MSG_IDS \<and> mid \<noteq> MSG_ID_NOMESSAGE then PNew else PEnable (-1), s)"
| "post_step (mid, ctx, ow) PNew s =
     (let (newMessage, s1) = new_cell (CMessage \<lparr>msgid = mid, msg_context = ctx, CallerOwns = ow, pNextMsg = NULL\<rparr>) s in
      okR (if newMessage \<noteq> NULL then PFirst newMessage else PEnable (-1), s1))"
| "post_step l (PFirst p) s =
     (if MsgQueueFirst s = NULL then okR (PEnable 0, s\<lparr>MsgQueueFirst := p, MsgQueueLast := p\<rparr>) else okR (PLink p, s))"
| "post_step l (PLink p) s =
     bindR (get_message (MsgQueueLast s) s) (\<lambda>m.
     okR (PLast p, put_cell (MsgQueueLast s) (CMessage (m\<lparr>pNextMsg := p\<rparr>)) s))"
| "post_step l (PLast p) s = okR (PEnable 0, s\<lparr>MsgQueueLast := p\<rparr>)"
| "post_step l (PEnable rc) s = okR (PDone rc, INTEnableMasterInterrupts s)"
| "post_step l (PDone rc) s = okR (PDone rc, s)"

fun post_done :: "post_pc \<Rightarrow> bool" where
  "post_done (PDone rc) = True"
| "post_done _ = False"

text \<open>What the rest of \<open>Post\<close> computes from a program point on.\<close>

definition rest_link :: "ptr \<Rightarrow> 'a mq_scheme \<Rightarrow> (int \<times> 'a mq_scheme) res" where
  "rest_link p s = bindR (get_message (MsgQueueLast s) s) (\<lambda>m. okR (0, INTEnableMasterInterrupts
     ((put_cell (MsgQueueLast s) (CMessage (m\<lparr>pNextMsg := p\<rparr>)) s)\<lparr>MsgQueueLast := p\<rparr>)))"

definition rest_first :: "ptr \<Rightarrow> 'a mq_scheme \<Rightarrow> (int \<times> 'a mq_scheme) res" where
  "rest_first p s =
     (if MsgQueueFirst s = NULL then okR (0, INTEnableMasterInterrupts (s\<lparr>MsgQueueFirst := p, MsgQueueLast := p\<rparr>))
      else rest_link p s)"

fun rest_of_post :: "letter \<Rightarrow> post_pc \<Rightarrow> 'a mq_scheme \<Rightarrow> (int \<times> 'a mq_scheme) res" where
  "rest_of_post l PDisable s = Post_letter MQ_CONTEXT_TASK l s"
| "rest_of_post l PCheck s = Post_letter MQ_CONTEXT_TASK l s"
| "rest_of_post (mid, ctx, ow) PNew s =
     (let (p, s1) = new_cell (CMessage \<lparr>msgid = mid, msg_context = ctx, CallerOwns = ow, pNextMsg = NULL\<rparr>) s in
      if p \<noteq> NULL then rest_first p s1 else okR (-1, INTEnableMasterInterrupts s1))"
| "rest_of_post l (PFirst p) s = rest_first p s"
| "rest_of_post l (PLink p) s = rest_link p s"
| "rest_of_post l (PLast p) s = okR (0, INTEnableMasterInterrupts (s\<lparr>MsgQueueLast := p\<rparr>))"
| "rest_of_post l (PEnable rc) s = okR (rc, INTEnableMasterInterrupts s)"
| "rest_of_post l (PDone rc) s = okR (rc, s)"

lemma post_step_rest:
  assumes "pc \<noteq> PCheck \<or> \<not> sreg_i s"
  shows "rest_of_post l pc s = bindR (post_step l pc s) (\<lambda>(pc', s'). rest_of_post l pc' s')"
proof -
  obtain mid ctx ow where l: "l = (mid, ctx, ow)" by (cases l)
  have c: "s\<lparr>sreg_i := False\<rparr> = s" if "\<not> sreg_i s" using that by (cases s) simp
  show ?thesis
  proof (cases pc)
    case PDisable
    then show ?thesis by (simp add: l Post_letter_def Post_def kernel_defs)
  next
    case PCheck
    then show ?thesis using assms
      by (auto simp: l Post_letter_def Post_def kernel_defs Let_def c rest_first_def rest_link_def
          split: prod.splits intro!: bindR_cong)
  qed (auto simp: l put_cell_def bindR_assoc rest_first_def rest_link_def split: prod.splits intro!: bindR_cong)
qed

text \<open>
  The post is atomic: in the critical section it is committed to the result it had in the
  state \<open>s1\<close> in which interrupts were disabled.
\<close>

fun post_sim :: "letter \<Rightarrow> post_pc \<Rightarrow> 'a mq_scheme \<Rightarrow> 'a mq_scheme \<Rightarrow> bool" where
  "post_sim l PDisable s s0 \<longleftrightarrow> isr_post\<^sup>*\<^sup>* s0 s \<and> (\<exists>H F M. mq_inv s H F M)"
| "post_sim l (PDone rc) s s0 \<longleftrightarrow>
     (\<exists>s1 s2. isr_post\<^sup>*\<^sup>* s0 s1 \<and> Post_letter MQ_CONTEXT_TASK l s1 = okR (rc, s2) \<and> isr_post\<^sup>*\<^sup>* s2 s)"
| "post_sim l pc s s0 \<longleftrightarrow> \<not> sreg_i s \<and> (\<exists>s1 r. isr_post\<^sup>*\<^sup>* s0 s1 \<and>
     Post_letter MQ_CONTEXT_TASK l s1 = okR r \<and> rest_of_post l pc s = okR r)"

fun post_rank :: "post_pc \<Rightarrow> nat" where
  "post_rank PDisable = 7"
| "post_rank PCheck = 6"
| "post_rank PNew = 5"
| "post_rank (PFirst p) = 4"
| "post_rank (PLink p) = 3"
| "post_rank (PLast p) = 2"
| "post_rank (PEnable rc) = 1"
| "post_rank (PDone rc) = 0"

lemma post_step_progress:
  assumes "post_step l pc s = okR (pc', s')" and "\<not> post_done pc"
  shows "post_rank pc' < post_rank pc" and "pc' \<noteq> PDisable"
    and "pc \<noteq> PDisable \<Longrightarrow> \<not> post_done pc' \<Longrightarrow> sreg_i s' = sreg_i s"
    and "post_done pc' \<longleftrightarrow> (\<exists>rc. pc = PEnable rc)"
  using assms
  by (induction l pc s rule: post_step.induct)
    (auto simp: new_cell_def put_cell_def bindR_ok_iff Let_def split: if_splits list.splits)

lemma Post_letter_returns:
  assumes "mq_inv s H F M"
  shows "\<exists>r. Post_letter ic l s = okR r"
  using mq_fifo.enq_law [of s "vals M" ic l] mq_inv_rep [OF assms] by (auto simp: mq_waiting_def)

lemma post_sim_inside:
  "pc \<noteq> PDisable \<Longrightarrow> \<not> post_done pc \<Longrightarrow> post_sim l pc s s0 \<longleftrightarrow> \<not> sreg_i s \<and> (\<exists>s1 r. isr_post\<^sup>*\<^sup>* s0 s1 \<and>
     Post_letter MQ_CONTEXT_TASK l s1 = okR r \<and> rest_of_post l pc s = okR r)"
  by (cases pc) auto

interpretation post_isr: interruptible post_step post_done sreg_i isr_post "\<lambda>_. (=)" post_sim "\<lambda>_ pc _. post_rank pc"
proof
  fix l pc and s s0 :: "'a mq_scheme"
  assume sim: "post_sim l pc s s0" and nd: "\<not> post_done pc"
  show "\<exists>pc' s' g'. post_step l pc s = okR (pc', s') \<and> (=)\<^sup>*\<^sup>* s0 g' \<and> post_sim l pc' s' g' \<and> post_rank pc' < post_rank pc"
  proof (cases "pc = PDisable")
    case True
    then obtain H F M where "mq_inv s H F M" using sim by auto
    from Post_letter_returns [OF this] obtain r where "Post_letter MQ_CONTEXT_TASK l s = okR r" by blast
    moreover have "Post_letter MQ_CONTEXT_TASK l (INTDisableMasterInterrupts s) = Post_letter MQ_CONTEXT_TASK l s"
      by (cases l) (simp add: Post_letter_def Post_def kernel_defs)
    ultimately have "post_sim l PCheck (INTDisableMasterInterrupts s) s0"
      using True sim by (auto simp: kernel_defs simp del: split_paired_Ex)
    with True show ?thesis by auto
  next
    case False
    then obtain s1 r where 1: "\<not> sreg_i s" "isr_post\<^sup>*\<^sup>* s0 s1" "Post_letter MQ_CONTEXT_TASK l s1 = okR r"
        "rest_of_post l pc s = okR r"
      using sim post_sim_inside [OF False nd] by blast
    then obtain pc' s' where st: "post_step l pc s = okR (pc', s')" "rest_of_post l pc' s' = okR r"
      using post_step_rest [of pc s l] by (auto simp: bindR_ok_iff)
    note pr = post_step_progress [OF st(1) nd]
    have "post_sim l pc' s' s0"
    proof (cases "post_done pc'")
      case True
      then show ?thesis using 1(2,3) st(2) by (cases pc') auto
    next
      case inside: False
      with 1(1) pr(3) [OF False] have "\<not> sreg_i s'" by simp
      with 1(2,3) st(2) show ?thesis unfolding post_sim_inside [OF pr(2) inside] by blast
    qed
    with st(1) pr(1) show ?thesis by auto
  qed
next
  fix l pc and s s0 s' :: "'a mq_scheme"
  assume sim: "post_sim l pc s s0" and isr: "sreg_i s" "isr_post s s'"
  have "\<exists>H F M. mq_inv s' H F M" if "\<exists>H F M. mq_inv s H F M" using that isr_mq_inv [OF isr(2)] by blast
  with sim isr have "post_sim l pc s' s0"
    by (cases pc) (auto intro: rtranclp.rtrancl_into_rtrancl simp del: split_paired_Ex)
  then show "\<exists>g'. (=)\<^sup>*\<^sup>* s0 g' \<and> post_sim l pc s' g' \<and> post_rank pc = post_rank pc" by auto
qed

section \<open>Atomicity\<close>

text \<open>
  Property C17. A post from task context is atomic: however interrupt routines that post run
  between its statements, no statement faults, and when it has returned, the state is the one after
  some of these interrupts, then the whole \<open>Post\<close>, then the others, with the result of
  that \<open>Post\<close>.
\<close>

theorem Post_atomic:
  assumes "mq_inv s H F M" and "irun (post_step l) post_done sreg_i isr_post k (PDisable, s) (pc, s')"
  shows "case pc of
      PDone rc \<Rightarrow> \<exists>s1 s2. isr_post\<^sup>*\<^sup>* s s1 \<and> Post_letter MQ_CONTEXT_TASK l s1 = okR (rc, s2) \<and> isr_post\<^sup>*\<^sup>* s2 s'
    | _ \<Rightarrow> \<exists>c. post_step l pc s' = okR c"
proof -
  have sim: "post_sim l PDisable s s" using assms(1) by auto
  obtain g where g: "(=)\<^sup>*\<^sup>* s g" "post_sim l pc s' g" using post_isr.run_sim [OF assms(2)] sim by auto
  have "post_sim l pc s' s" using g(2) eq_closure [OF g(1)] by simp
  moreover have "\<exists>c. post_step l pc s' = okR c" if "\<not> post_done pc"
    using post_isr.run_safe [OF assms(2) _ that] sim by auto
  ultimately show ?thesis by (cases pc) auto
qed

theorem Post_atomic_witness:
  "\<exists>s1 k rc s' t u. isr_post (demo_mq ()) s1 \<and>
     irun (post_step (9, 0, MQ_OWNER_CALLER)) post_done sreg_i isr_post k (PDisable, demo_mq ()) (PDone rc, s') \<and>
     isr_post\<^sup>*\<^sup>* (demo_mq ()) t \<and> Post 9 0 MQ_OWNER_CALLER MQ_CONTEXT_TASK t = okR (rc, u) \<and> isr_post\<^sup>*\<^sup>* u s'"
proof -
  obtain s1 where s1: "isr_post (demo_mq ()) s1" using demo_isr [of "()"] ..
  have "post_sim (9, 0, MQ_OWNER_CALLER) PDisable s1 s1" using isr_mq_inv [OF s1 demo_inv] by auto
  from post_isr.run_finishes [OF this] obtain k rc s' where
    "irun (post_step (9, 0, MQ_OWNER_CALLER)) post_done sreg_i isr_post k (PDisable, s1) (PDone rc, s')"
    by (metis post_done.elims(2))
  from irun_trans [OF this demo_interrupted [OF s1]] have
    run: "irun (post_step (9, 0, MQ_OWNER_CALLER)) post_done sreg_i isr_post k (PDisable, demo_mq ()) (PDone rc, s')"
    by simp
  from Post_atomic [OF demo_inv run] s1 run show ?thesis by (simp add: Post_letter_def) blast
qed

end
