(* ===== verification/Subscription_Steps.thy ===== *)
theory Subscription_Steps
  imports Interrupts Live_Subscriptions
begin

text \<open>
  \<open>MQClass::Subscribe\<close> and \<open>MQClass::Unsubscribe\<close> statement by statement, with posting interrupts
  in between. Neither function disables interrupts: a list of the table is walked, extended and
  unlinked while interrupt routines allocate messages from the same heap.
\<close>

section \<open>The statements of \<open>MQClass::Subscribe\<close>\<close>

datatype subscribe_pc =
    SCheck            \<comment> \<open>\<open>if((msgid<MSG_MAX_MSG_IDS) && (handler!=NULL))\<close>\<close>
  | SHead             \<comment> \<open>\<open>pHead=pInternals->QueueBlock[msgid]\<close>\<close>
  | SWhile ptr        \<comment> \<open>\<open>while(pHead) if(pHead->checkHandler(handler)) break; pHead=pHead->pNextHandler\<close>\<close>
  | SNew              \<comment> \<open>\<open>if(!pHead) pHead=new MHFUNCTION(handler,pInternals->QueueBlock[msgid])\<close>\<close>
  | SWrite ptr        \<comment> \<open>\<open>if(pHead) pInternals->QueueBlock[msgid]=pHead; rc=0\<close>\<close>
  | SDone int         \<comment> \<open>\<open>return rc\<close>\<close>

fun subscribe_step :: "nat \<times> subscriber \<Rightarrow> subscribe_pc \<Rightarrow> 'a mq_scheme \<Rightarrow> (subscribe_pc \<times> 'a mq_scheme) res" where
  "subscribe_step (i, x) SCheck s = okR (if int i < MSG_MAX_MSG_IDS \<and> raw x \<noteq> NULL then SHead else SDone (-1), s)"
| "subscribe_step (i, x) SHead s = bindR (read_block (int i) s) (\<lambda>p. okR (SWhile p, s))"
| "subscribe_step (i, x) (SWhile p) s =
     (if p = NULL then okR (SNew, s)
      else bindR (get_handler p s) (\<lambda>h. okR (if checkHandler h (raw x) then SDone (-1) else SWhile (pNextHandler h), s)))"
| "subscribe_step (i, x) SNew s = bindR (read_block (int i) s) (\<lambda>first.
     let (p, s1) = new_cell (CHandler (handler_cell x first)) s in okR (if p \<noteq> NULL then SWrite p else SDone (-1), s1))"
| "subscribe_step (i, x) (SWrite p) s = bindR (write_block (int i) p s) (\<lambda>s1. okR (SDone 0, s1))"
| "subscribe_step e (SDone rc) s = okR (SDone rc, s)"

fun subscribe_done :: "subscribe_pc \<Rightarrow> bool" where
  "subscribe_done (SDone rc) = True"
| "subscribe_done _ = False"

text \<open>What the rest of \<open>Subscribe\<close> computes from a program point on.\<close>

definition rest_new :: "nat \<Rightarrow> subscriber \<Rightarrow> ptr \<Rightarrow> 'a mq_scheme \<Rightarrow> (int \<times> 'a mq_scheme) res" where
  "rest_new i x p s = (if p = NULL then bindR (read_block (int i) s) (\<lambda>first.
       let (pNew, s1) = new_cell (CHandler (handler_cell x first)) s in
       if pNew \<noteq> NULL then bindR (write_block (int i) pNew s1) (\<lambda>s2. okR (0, s2)) else okR (-1, s1))
     else okR (-1, s))"

fun rest_of_subscribe :: "nat \<times> subscriber \<Rightarrow> subscribe_pc \<Rightarrow> 'a mq_scheme \<Rightarrow> (int \<times> 'a mq_scheme) res" where
  "rest_of_subscribe (i, x) SCheck s = Subscribe (int i) x s"
| "rest_of_subscribe (i, x) SHead s = bindR (read_block (int i) s) (\<lambda>p.
     bindR (scan_handlers (raw x) p s) (\<lambda>q. rest_new i x q s))"
| "rest_of_subscribe (i, x) (SWhile p) s = bindR (scan_handlers (raw x) p s) (\<lambda>q. rest_new i x q s)"
| "rest_of_subscribe (i, x) SNew s = rest_new i x NULL s"
| "rest_of_subscribe (i, x) (SWrite p) s = bindR (write_block (int i) p s) (\<lambda>s2. okR (0, s2))"
| "rest_of_subscribe e (SDone rc) s = okR (rc, s)"

lemma subscribe_step_rest:
  "rest_of_subscribe e pc s = bindR (subscribe_step e pc s) (\<lambda>(pc', s'). rest_of_subscribe e pc' s')"
proof -
  obtain i x where e: "e = (i, x)" by (cases e)
  show ?thesis
  proof (cases pc)
    case SCheck
    then show ?thesis
      by (auto simp: e Subscribe_unfold rest_new_def bindR_def split: Option.bind_splits outcome.splits)
  next
    case (SWhile p)
    then show ?thesis by (subst e, subst SWhile, subst rest_of_subscribe.simps, subst scan_handlers.simps)
      (auto simp: e SWhile rest_new_def bindR_assoc intro!: bindR_cong)
  qed (auto simp: e rest_new_def bindR_assoc Let_def split: prod.splits intro!: bindR_cong)
qed

text \<open>Without interrupts the statements compute \<open>Subscribe\<close>.\<close>

lemma subscribe_statements:
  assumes "irun (subscribe_step e) subscribe_done sreg_i (\<lambda>_ _. False) k (pc, s) (SDone rc, s')"
  shows "rest_of_subscribe e pc s = okR (rc, s')"
  using irun_rest [of "rest_of_subscribe e", OF subscribe_step_rest assms] by (cases e) simp

section \<open>Posts during a call\<close>

text \<open>The state while a call runs: the lists of the table are known, and interrupts have posted.\<close>

definition posted :: "'a mq_scheme \<Rightarrow> (nat \<Rightarrow> (ptr \<times> subscriber) list) \<Rightarrow> letter list \<Rightarrow> (ptr \<times> letter) list \<Rightarrow> bool" where
  "posted s H F M \<longleftrightarrow> (\<exists>N. mq_inv s H F (M @ N))"

lemma posted_start: "mq_inv s H F M \<Longrightarrow> posted s H F M"
  unfolding posted_def by (metis append_Nil2)

lemma posted_isr: "posted s H F M \<Longrightarrow> isr_post s s' \<Longrightarrow> posted s' H F M"
  unfolding posted_def using isr_mq_inv by (metis append_assoc)

lemma posted_subs:
  assumes "posted s H F M" and "\<And>M'. mq_rep s H M' \<Longrightarrow> mq_rep s' H' M'" and "keeps_others s s'"
  shows "posted s' H' F M"
  using assms mq_inv_subs [OF _ _ assms(3)] mq_inv_rep unfolding posted_def by blast

text \<open>A subscription that is not yet, or no longer, in a list stays as it is.\<close>

lemma isr_keeps_handler:
  assumes "posted s H F M" and "isr_post s s'" and "cells s p = Some (CHandler h)"
  shows "cells s' p = Some (CHandler h)"
proof -
  obtain N where N: "mq_inv s H F (M @ N)" using assms(1) by (auto simp: posted_def)
  then have "p \<notin> set (addrs (M @ N))" using mq_inv_waiting [OF N, of p] assms(3) by auto
  with isr_mq_inv [OF assms(2) N] keeps_cellsD assms(3) show ?thesis by blast
qed

lemma posted_rep:
  assumes "posted s H F M"
  obtains M' where "mq_rep s H M'" "heap_wf s" "subs_rep s H"
  using assms by (auto simp: posted_def mq_inv_def mq_rep_def)

lemma posted_head:
  assumes "posted s H F M" and "i < 26"
  shows "read_block (int i) s = okR (first_of (H i))"
proof -
  obtain M' where "subs_rep s H" using posted_rep [OF assms(1)] by blast
  from subs_rep_chain [OF this assms(2)] assms(2) show ?thesis by (cases "H i") (auto simp: read_block_def)
qed

lemma posted_node:
  assumes "posted s H F M" and "i < 26" and "H i = pre @ n # xs"
  obtains h where "cells s (fst n) = Some (CHandler h)" "subscriber_of h = snd n" "fst n \<noteq> NULL" "pNextHandler h = first_of xs"
proof -
  obtain M' where "subs_rep s H" using posted_rep [OF assms(1)] by blast
  from subs_rep_chain [OF this assms(2)] assms(3)
  have "lchain (hnode (cells s)) (QueueBlock s ! i) (pre @ n # xs)" by simp
  then obtain h where h: "cells s (fst n) = Some (CHandler h)" "subscriber_of h = snd n" "fst n \<noteq> NULL"
      "lchain (hnode (cells s)) (pNextHandler h) xs"
    by (auto simp: lseg_append split: option.splits dest!: hcell_SomeD)
  have "pNextHandler h = first_of xs" using h(4) by (cases xs) auto
  with h that show thesis by blast
qed

text \<open>The nodes left to visit, from the pointer.\<close>

definition nodes_from :: "ptr \<Rightarrow> (ptr \<times> subscriber) list \<Rightarrow> nat" where
  "nodes_from p xs = length (dropWhile (\<lambda>n. fst n \<noteq> p) xs)"

lemma posted_nodes_from:
  assumes "posted s H F M" and "i < 26" and "H i = pre @ xs"
  shows "nodes_from (first_of xs) (H i) = length xs"
proof -
  obtain M' where sub: "subs_rep s H" and wf: "heap_wf s" using posted_rep [OF assms(1)] by blast
  have "distinct (addrs (pre @ xs))" using lchain_distinct [OF subs_rep_chain [OF sub assms(2)]] assms(3) by simp
  moreover have "NULL \<notin> set (addrs (pre @ xs))"
    using subs_rep_node [OF sub assms(2), of NULL] wf assms(3) by (auto simp: heap_wf_def)
  ultimately have "fst n \<noteq> first_of xs" if "n \<in> set pre" for n using that by (cases xs) force+
  then have "dropWhile (\<lambda>n. fst n \<noteq> first_of xs) (pre @ xs) = dropWhile (\<lambda>n. fst n \<noteq> first_of xs) xs"
    by (intro dropWhile_append2) auto
  then show ?thesis unfolding nodes_from_def assms(3) by (cases xs) auto
qed

section \<open>\<open>Subscribe\<close> under interrupts\<close>

type_synonym lists_at = "(nat \<Rightarrow> (ptr \<times> subscriber) list) \<times> letter list \<times> (ptr \<times> letter) list"

fun subscribe_sim :: "nat \<times> subscriber \<Rightarrow> subscribe_pc \<Rightarrow> 'a mq_scheme \<Rightarrow> lists_at \<Rightarrow> bool" where
  "subscribe_sim (i, x) SCheck s (H, F, M) \<longleftrightarrow> i < 26 \<and> posted s H F M"
| "subscribe_sim (i, x) SHead s (H, F, M) \<longleftrightarrow> i < 26 \<and> raw x \<noteq> NULL \<and> posted s H F M"
| "subscribe_sim (i, x) (SWhile p) s (H, F, M) \<longleftrightarrow> i < 26 \<and> raw x \<noteq> NULL \<and> posted s H F M \<and>
     (\<exists>pre xs. H i = pre @ xs \<and> p = first_of xs \<and> raw x \<notin> raw ` set (vals pre))"
| "subscribe_sim (i, x) SNew s (H, F, M) \<longleftrightarrow> i < 26 \<and> raw x \<noteq> NULL \<and> posted s H F M \<and> raw x \<notin> raw ` set (vals (H i))"
| "subscribe_sim (i, x) (SWrite p) s (H, F, M) \<longleftrightarrow> i < 26 \<and> raw x \<noteq> NULL \<and> posted s H F M \<and>
     raw x \<notin> raw ` set (vals (H i)) \<and> p \<noteq> NULL \<and> cells s p = Some (CHandler (handler_cell x (first_of (H i)))) \<and>
     (\<forall>j<26. p \<notin> set (addrs (H j)))"
| "subscribe_sim (i, x) (SDone rc) s (H, F, M) \<longleftrightarrow>
     rc = 0 \<and> raw x \<noteq> NULL \<and> raw x \<notin> raw ` set (vals (H i)) \<and> (\<exists>p. posted s (H(i := (p, x) # H i)) F M) \<or>
     rc = -1 \<and> posted s H F M"

fun subscribe_rank :: "nat \<times> subscriber \<Rightarrow> subscribe_pc \<Rightarrow> lists_at \<Rightarrow> nat" where
  "subscribe_rank (i, x) SCheck (H, F, M) = length (H i) + 5"
| "subscribe_rank (i, x) SHead (H, F, M) = length (H i) + 4"
| "subscribe_rank (i, x) (SWhile p) (H, F, M) = nodes_from p (H i) + 3"
| "subscribe_rank e SNew g = 2"
| "subscribe_rank e (SWrite p) g = 1"
| "subscribe_rank e (SDone rc) g = 0"

lemma subscribe_links:
  assumes i: "i < 26" and post: "posted s H F M" and p: "p \<noteq> NULL" "cells s p = Some (CHandler (handler_cell x (first_of (H i))))"
    and out: "\<forall>j<26. p \<notin> set (addrs (H j))"
  shows "posted (s\<lparr>QueueBlock := (QueueBlock s)[i := p]\<rparr>) (H(i := (p, x) # H i)) F M"
proof (rule posted_subs [OF post])
  let ?s = "s\<lparr>QueueBlock := (QueueBlock s)[i := p]\<rparr>"
  show k: "keeps_others s ?s" by (simp add: keeps_others_def)
  fix M' assume rep: "mq_rep s H M'"
  then have sub: "subs_rep s H" and wf: "heap_wf s" by (auto simp: mq_rep_def)
  have "QueueBlock s ! i = first_of (H i)" using posted_head [OF post i] i by (simp add: read_block_def)
  then have "lchain (hnode (cells s)) (first_of (H i)) (H i)" using subs_rep_chain [OF sub i] by simp
  then have "lchain (hnode (cells ?s)) p ((p, x) # H i)" using p by simp
  then have "subs_rep ?s (H(i := (p, x) # H i))"
  proof (rule subs_rep_update [OF sub i, rotated])
    fix j a assume ja: "j < 26" "j \<noteq> i" "a \<in> set (addrs (H j))"
    from subs_rep_disjoint [OF sub ja(1) i ja(2,3)] out ja(1,3)
    show "a \<notin> set (addrs ((p, x) # H i)) \<and> hcell (cells ?s a) = hcell (cells s a)" by auto
  qed simp
  moreover have "heap_wf ?s" using wf by (simp add: heap_wf_def)
  ultimately show "mq_rep ?s (H(i := (p, x) # H i)) M'" using mq_repI [OF _ _ k rep] by blast
qed

lemma posted_alloc:
  assumes post: "posted s H F M" and pool: "pool s = p # ps"
  shows "posted (s\<lparr>cells := (cells s)(p \<mapsto> c), pool := ps\<rparr>) H F M" and "p \<noteq> NULL" and "\<forall>j<26. p \<notin> set (addrs (H j))"
proof -
  show "posted (s\<lparr>cells := (cells s)(p \<mapsto> c), pool := ps\<rparr>) H F M"
    using post mq_inv_alloc [OF _ pool] unfolding posted_def by blast
  obtain M' where sub: "subs_rep s H" and wf: "heap_wf s" using posted_rep [OF post] by blast
  then have p: "p \<noteq> NULL" "cells s p = None" using pool by (auto simp: heap_wf_def)
  then show "p \<noteq> NULL" "\<forall>j<26. p \<notin> set (addrs (H j))" using subs_rep_node [OF sub] by fastforce+
qed

text \<open>Every statement of \<open>Subscribe\<close> succeeds and keeps the relation.\<close>

lemma subscribe_while:
  assumes sim: "subscribe_sim (i, x) (SWhile p) s (H, F, M)"
  shows "\<exists>pc'. subscribe_step (i, x) (SWhile p) s = okR (pc', s) \<and> subscribe_sim (i, x) pc' s (H, F, M) \<and>
    subscribe_rank (i, x) pc' (H, F, M) < subscribe_rank (i, x) (SWhile p) (H, F, M)"
proof -
  obtain pre xs where a: "i < 26" "raw x \<noteq> NULL" "posted s H F M" "H i = pre @ xs" "p = first_of xs"
      "raw x \<notin> raw ` set (vals pre)"
    using sim by auto
  show ?thesis
  proof (cases xs)
    case Nil
    with a show ?thesis by simp
  next
    case (Cons n ys)
    have Hi: "H i = pre @ n # ys" "H i = (pre @ [n]) @ ys" using a(4) Cons by simp_all
    obtain h where h: "cells s (fst n) = Some (CHandler h)" "subscriber_of h = snd n" "fst n \<noteq> NULL" "pNextHandler h = first_of ys"
      by (rule posted_node [OF a(3,1) Hi(1)])
    have r: "nodes_from p (H i) = Suc (length ys)" "nodes_from (first_of ys) (H i) = length ys"
      using posted_nodes_from [OF a(3,1,4)] posted_nodes_from [OF a(3,1) Hi(2)] a(5) Cons by simp_all
    have p: "p = fst n" using a(5) Cons by simp
    show ?thesis
    proof (cases "checkHandler h (raw x)")
      case True
      with a(3) h p show ?thesis by (simp add: get_handler_def)
    next
      case False
      then have "raw x \<notin> raw ` set (vals (pre @ [n]))" using a(6) h(2) by (auto simp: checkHandler_raw)
      then have "subscribe_sim (i, x) (SWhile (first_of ys)) s (H, F, M)"
        unfolding subscribe_sim.simps using a(1-3) Hi(2) by blast
      with False h p r show ?thesis by (simp add: get_handler_def del: subscribe_sim.simps)
    qed
  qed
qed

lemma subscribe_main:
  assumes sim: "subscribe_sim e pc s g" and nd: "\<not> subscribe_done pc"
  shows "\<exists>pc' s'. subscribe_step e pc s = okR (pc', s') \<and> subscribe_sim e pc' s' g \<and> subscribe_rank e pc' g < subscribe_rank e pc g"
proof -
  obtain i x H F M where e: "e = (i, x)" "g = (H, F, M)" by (cases e; cases g) auto
  show ?thesis
  proof (cases pc)
    case SCheck
    with sim show ?thesis by (auto simp: e)
  next
    case SHead
    then have a: "i < 26" "raw x \<noteq> NULL" "posted s H F M" using sim by (simp_all add: e)
    have "subscribe_sim (i, x) (SWhile (first_of (H i))) s (H, F, M)" using a by (auto intro: exI [of _ "[]"])
    moreover have "nodes_from (first_of (H i)) (H i) = length (H i)" using posted_nodes_from [OF a(3,1), of "[]"] by simp
    ultimately show ?thesis using posted_head [OF a(3,1)] SHead by (simp add: e del: subscribe_sim.simps)
  next
    case (SWhile p)
    with subscribe_while [of i x p s H F M] sim show ?thesis unfolding e by blast
  next
    case SNew
    then have a: "i < 26" "raw x \<noteq> NULL" "posted s H F M" "raw x \<notin> raw ` set (vals (H i))" using sim by (simp_all add: e)
    show ?thesis
    proof (cases "pool s")
      case Nil
      with SNew a posted_head [OF a(3,1)] show ?thesis by (simp add: e new_cell_def)
    next
      case (Cons p ps)
      note al = posted_alloc [OF a(3) Cons]
      from SNew a Cons posted_head [OF a(3,1)] al show ?thesis by (simp add: e new_cell_def)
    qed
  next
    case (SWrite p)
    then have a: "i < 26" "raw x \<noteq> NULL" "posted s H F M" "raw x \<notin> raw ` set (vals (H i))" "p \<noteq> NULL"
        "cells s p = Some (CHandler (handler_cell x (first_of (H i))))" "\<forall>j<26. p \<notin> set (addrs (H j))"
      using sim by (simp_all add: e)
    from subscribe_links [OF a(1,3,5,6,7)] a(1,2,4) SWrite show ?thesis
      by (simp add: e write_block_def del: fun_upd_apply) blast
  qed (use nd in simp)
qed

lemma subscribe_irq:
  assumes "subscribe_sim e pc s g" and "isr_post s s'"
  shows "subscribe_sim e pc s' g"
proof -
  obtain i x H F M where e: "e = (i, x)" "g = (H, F, M)" by (cases e; cases g) auto
  from assms posted_isr [OF _ assms(2)] isr_keeps_handler [OF _ assms(2)] show ?thesis
    by (cases pc) (auto simp: e simp del: fun_upd_apply)
qed

interpretation subscribe_isr: interruptible subscribe_step subscribe_done sreg_i isr_post "\<lambda>_. (=)" subscribe_sim subscribe_rank
proof
  fix e pc g and s :: "'a mq_scheme"
  assume "subscribe_sim e pc s g" "\<not> subscribe_done pc"
  from subscribe_main [OF this] show "\<exists>pc' s' g'. subscribe_step e pc s = okR (pc', s') \<and> (=)\<^sup>*\<^sup>* g g' \<and>
    subscribe_sim e pc' s' g' \<and> subscribe_rank e pc' g' < subscribe_rank e pc g" by blast
next
  fix e pc g and s s' :: "'a mq_scheme"
  assume "subscribe_sim e pc s g" "isr_post s s'"
  from subscribe_irq [OF this] show "\<exists>g'. (=)\<^sup>*\<^sup>* g g' \<and> subscribe_sim e pc s' g' \<and> subscribe_rank e pc g' = subscribe_rank e pc g"
    by blast
qed



section \<open>The statements of \<open>MQClass::Unsubscribe\<close>\<close>

datatype unsubscribe_pc =
    UCheck            \<comment> \<open>\<open>if(msgid<MSG_MAX_MSG_IDS)\<close>\<close>
  | UHead             \<comment> \<open>\<open>pHead=pInternals->QueueBlock[msgid]; pPrev=NULL\<close>\<close>
  | UWhile ptr ptr    \<comment> \<open>\<open>while(pHead) if(pHead->checkHandler(handler))\<close> ... \<open>pPrev=pHead; pHead=pHead->pNextHandler\<close>\<close>
  | UUnlink ptr ptr   \<comment> \<open>the write of \<open>QueueBlock[msgid]\<close> or of \<open>pPrev->pNextHandler\<close>\<close>
  | UDelete ptr       \<comment> \<open>\<open>delete pHead; rc=0; break\<close>\<close>
  | UDone int         \<comment> \<open>\<open>return rc\<close>\<close>

fun unsubscribe_step :: "nat \<times> subscriber \<Rightarrow> unsubscribe_pc \<Rightarrow> 'a mq_scheme \<Rightarrow> (unsubscribe_pc \<times> 'a mq_scheme) res" where
  "unsubscribe_step (i, x) UCheck s = okR (if int i < MSG_MAX_MSG_IDS then UHead else UDone (-1), s)"
| "unsubscribe_step (i, x) UHead s = bindR (read_block (int i) s) (\<lambda>p. okR (UWhile p NULL, s))"
| "unsubscribe_step (i, x) (UWhile p q) s =
     (if p = NULL then okR (UDone (-1), s)
      else bindR (get_handler p s) (\<lambda>h. okR (if checkHandler h (raw x) then UUnlink p q else UWhile (pNextHandler h) p, s)))"
| "unsubscribe_step (i, x) (UUnlink p q) s = bindR (get_handler p s) (\<lambda>h.
     bindR (unlink_write (int i) h q s) (\<lambda>s1. okR (UDelete p, s1)))"
| "unsubscribe_step (i, x) (UDelete p) s = bindR (delete_cell p s) (\<lambda>s1. okR (UDone 0, s1))"
| "unsubscribe_step e (UDone rc) s = okR (UDone rc, s)"

fun unsubscribe_done :: "unsubscribe_pc \<Rightarrow> bool" where
  "unsubscribe_done (UDone rc) = True"
| "unsubscribe_done _ = False"

fun rest_of_unsubscribe :: "nat \<times> subscriber \<Rightarrow> unsubscribe_pc \<Rightarrow> 'a mq_scheme \<Rightarrow> (int \<times> 'a mq_scheme) res" where
  "rest_of_unsubscribe (i, x) UCheck s = Unsubscribe (int i) x s"
| "rest_of_unsubscribe (i, x) UHead s = bindR (read_block (int i) s) (\<lambda>p. unlink_handler (int i) (raw x) p NULL s)"
| "rest_of_unsubscribe (i, x) (UWhile p q) s = unlink_handler (int i) (raw x) p q s"
| "rest_of_unsubscribe (i, x) (UUnlink p q) s = bindR (get_handler p s) (\<lambda>h.
     bindR (unlink_write (int i) h q s) (\<lambda>s1. bindR (delete_cell p s1) (\<lambda>s2. okR (0, s2))))"
| "rest_of_unsubscribe (i, x) (UDelete p) s = bindR (delete_cell p s) (\<lambda>s2. okR (0, s2))"
| "rest_of_unsubscribe e (UDone rc) s = okR (rc, s)"

lemma unsubscribe_step_rest:
  "rest_of_unsubscribe e pc s = bindR (unsubscribe_step e pc s) (\<lambda>(pc', s'). rest_of_unsubscribe e pc' s')"
proof -
  obtain i x where e: "e = (i, x)" by (cases e)
  show ?thesis
  proof (cases pc)
    case UCheck
    then show ?thesis by (simp add: e Unsubscribe_unfold)
  next
    case (UWhile p q)
    then show ?thesis by (subst e, subst UWhile, subst rest_of_unsubscribe.simps, subst unlink_handler.simps)
      (auto simp: e UWhile bindR_assoc unlink_write_def intro!: bindR_cong)
  qed (auto simp: e bindR_assoc intro!: bindR_cong)
qed

text \<open>Without interrupts the statements compute \<open>Unsubscribe\<close>.\<close>

lemma unsubscribe_statements:
  assumes "irun (unsubscribe_step e) unsubscribe_done sreg_i (\<lambda>_ _. False) k (pc, s) (UDone rc, s')"
  shows "rest_of_unsubscribe e pc s = okR (rc, s')"
  using irun_rest [of "rest_of_unsubscribe e", OF unsubscribe_step_rest assms] by (cases e) simp

section \<open>\<open>Unsubscribe\<close> under interrupts\<close>

abbreviation prev_of :: "(ptr \<times> subscriber) list \<Rightarrow> ptr" where
  "prev_of pre \<equiv> (if pre = [] then NULL else fst (last pre))"

abbreviation without :: "subscriber \<Rightarrow> (ptr \<times> subscriber) list \<Rightarrow> (ptr \<times> subscriber) list" where
  "without x xs \<equiv> drop_first (\<lambda>y. raw (snd y) = raw x) xs"

fun unsubscribe_sim :: "nat \<times> subscriber \<Rightarrow> unsubscribe_pc \<Rightarrow> 'a mq_scheme \<Rightarrow> lists_at \<Rightarrow> bool" where
  "unsubscribe_sim (i, x) UCheck s (H, F, M) \<longleftrightarrow> i < 26 \<and> posted s H F M"
| "unsubscribe_sim (i, x) UHead s (H, F, M) \<longleftrightarrow> i < 26 \<and> posted s H F M"
| "unsubscribe_sim (i, x) (UWhile p q) s (H, F, M) \<longleftrightarrow> i < 26 \<and> posted s H F M \<and>
     (\<exists>pre xs. H i = pre @ xs \<and> p = first_of xs \<and> q = prev_of pre \<and> raw x \<notin> raw ` set (vals pre))"
| "unsubscribe_sim (i, x) (UUnlink p q) s (H, F, M) \<longleftrightarrow> i < 26 \<and> posted s H F M \<and>
     (\<exists>pre v ws. H i = pre @ (p, v) # ws \<and> q = prev_of pre \<and> raw v = raw x \<and> raw x \<notin> raw ` set (vals pre))"
| "unsubscribe_sim (i, x) (UDelete p) s (H, F, M) \<longleftrightarrow> i < 26 \<and> posted s (H(i := without x (H i))) F M \<and>
     raw x \<in> raw ` set (vals (H i)) \<and> (\<exists>h. cells s p = Some (CHandler h)) \<and>
     (\<forall>j<26. p \<notin> set (addrs ((H(i := without x (H i))) j)))"
| "unsubscribe_sim (i, x) (UDone rc) s (H, F, M) \<longleftrightarrow>
     rc = (if raw x \<in> raw ` set (vals (H i)) then 0 else -1) \<and> posted s (H(i := without x (H i))) F M"

fun unsubscribe_rank :: "nat \<times> subscriber \<Rightarrow> unsubscribe_pc \<Rightarrow> lists_at \<Rightarrow> nat" where
  "unsubscribe_rank (i, x) UCheck (H, F, M) = length (H i) + 5"
| "unsubscribe_rank (i, x) UHead (H, F, M) = length (H i) + 4"
| "unsubscribe_rank (i, x) (UWhile p q) (H, F, M) = nodes_from p (H i) + 3"
| "unsubscribe_rank e (UUnlink p q) g = 2"
| "unsubscribe_rank e (UDelete p) g = 1"
| "unsubscribe_rank e (UDone rc) g = 0"

lemma drop_first_append: "list_all (\<lambda>y. \<not> P y) pre \<Longrightarrow> drop_first P (pre @ xs) = pre @ drop_first P xs"
  by (induction pre) auto

lemma without_append:
  "raw x \<notin> raw ` set (vals pre) \<Longrightarrow> without x (pre @ xs) = pre @ without x xs"
  by (rule drop_first_append) (auto simp: list_all_iff image_image intro: rev_image_eqI)

lemma unsubscribe_while:
  assumes sim: "unsubscribe_sim (i, x) (UWhile p q) s (H, F, M)"
  shows "\<exists>pc'. unsubscribe_step (i, x) (UWhile p q) s = okR (pc', s) \<and> unsubscribe_sim (i, x) pc' s (H, F, M) \<and>
    unsubscribe_rank (i, x) pc' (H, F, M) < unsubscribe_rank (i, x) (UWhile p q) (H, F, M)"
proof -
  obtain pre xs where a: "i < 26" "posted s H F M" "H i = pre @ xs" "p = first_of xs" "q = prev_of pre"
      "raw x \<notin> raw ` set (vals pre)"
    using sim by auto
  show ?thesis
  proof (cases xs)
    case Nil
    have "H(i := without x (H i)) = H" using a(3,6) Nil without_append [of x pre "[]"] by (intro ext) auto
    with a Nil show ?thesis by (simp del: fun_upd_apply)
  next
    case (Cons n ys)
    have Hi: "H i = pre @ n # ys" "H i = (pre @ [n]) @ ys" using a(3) Cons by simp_all
    obtain h where h: "cells s (fst n) = Some (CHandler h)" "subscriber_of h = snd n" "fst n \<noteq> NULL" "pNextHandler h = first_of ys"
      by (rule posted_node [OF a(2,1) Hi(1)])
    have r: "nodes_from p (H i) = Suc (length ys)" "nodes_from (first_of ys) (H i) = length ys"
      using posted_nodes_from [OF a(2,1,3)] posted_nodes_from [OF a(2,1) Hi(2)] a(4) Cons by simp_all
    have p: "p = fst n" using a(4) Cons by simp
    show ?thesis
    proof (cases "checkHandler h (raw x)")
      case True
      then have "H i = pre @ (p, snd n) # ys" "raw (snd n) = raw x" using Hi(1) p h(2) by (auto simp: checkHandler_raw)
      then have "unsubscribe_sim (i, x) (UUnlink p q) s (H, F, M)"
        unfolding unsubscribe_sim.simps using a(1,2,5,6) by blast
      with True h p show ?thesis by (simp add: get_handler_def del: unsubscribe_sim.simps)
    next
      case False
      then have "raw x \<notin> raw ` set (vals (pre @ [n]))" "p = prev_of (pre @ [n])" using a(6) h(2) p by (auto simp: checkHandler_raw)
      then have "unsubscribe_sim (i, x) (UWhile (first_of ys) p) s (H, F, M)"
        unfolding unsubscribe_sim.simps using a(1,2) Hi(2) by blast
      with False h p r show ?thesis by (simp add: get_handler_def del: unsubscribe_sim.simps)
    qed
  qed
qed

lemma unsubscribe_unlink:
  assumes sim: "unsubscribe_sim (i, x) (UUnlink p q) s (H, F, M)"
  shows "\<exists>s'. unsubscribe_step (i, x) (UUnlink p q) s = okR (UDelete p, s') \<and> unsubscribe_sim (i, x) (UDelete p) s' (H, F, M)"
proof -
  obtain pre v ws where a: "i < 26" "posted s H F M" "H i = pre @ (p, v) # ws" "q = prev_of pre" "raw v = raw x"
      "raw x \<notin> raw ` set (vals pre)"
    using sim by auto
  have w: "without x (H i) = pre @ ws" unfolding a(3) using without_append [OF a(6)] a(5) by simp
  obtain h where h: "cells s p = Some (CHandler h)" using posted_node [OF a(2,1,3)] by auto
  obtain N where N: "mq_inv s H F (M @ N)" using a(2) by (auto simp: posted_def)
  note rep = mq_inv_rep [OF N]
  have sub: "subs_rep s H" using rep by (simp add: mq_rep_def)
  obtain s1 where s1: "unlink_write (int i) h q s = okR s1" "mq_rep s1 (H(i := pre @ ws)) (M @ N)" "keeps_others s s1"
      "cells s1 p = cells s p"
    using unlink_write_rep [OF rep a(1,3) h a(4)] by blast
  have "posted s1 (H(i := without x (H i))) F M"
    using mq_inv_subs [OF N s1(2,3)] unfolding w posted_def by blast
  moreover have "\<forall>j<26. p \<notin> set (addrs ((H(i := without x (H i))) j))"
    unfolding w using unlinked_outside [OF sub a(1,3)] by blast
  moreover have "raw x \<in> raw ` set (vals (H i))" using a(3,5) by (simp add: image_iff)
  ultimately show ?thesis using a(1) h s1(1,4) by (simp add: get_handler_def del: fun_upd_apply)
qed

lemma unsubscribe_delete:
  assumes sim: "unsubscribe_sim (i, x) (UDelete p) s (H, F, M)"
  shows "\<exists>s'. unsubscribe_step (i, x) (UDelete p) s = okR (UDone 0, s') \<and> unsubscribe_sim (i, x) (UDone 0) s' (H, F, M)"
proof -
  let ?H = "H(i := without x (H i))"
  obtain h where a: "posted s ?H F M" "raw x \<in> raw ` set (vals (H i))" "cells s p = Some (CHandler h)"
      "\<forall>j<26. p \<notin> set (addrs (?H j))"
    using sim by (auto simp del: fun_upd_apply)
  obtain N where N: "mq_inv s ?H F (M @ N)" using a(1) by (auto simp: posted_def)
  obtain s' where s': "delete_cell p s = okR s'" "mq_rep s' ?H (M @ N)" "keeps_others s s'"
    using delete_unlinked [OF mq_inv_rep [OF N] a(3)] a(4) by blast
  have "posted s' ?H F M" using mq_inv_subs [OF N s'(2,3)] unfolding posted_def by blast
  with s'(1) a(2) show ?thesis by (simp del: fun_upd_apply)
qed

lemma unsubscribe_main:
  assumes sim: "unsubscribe_sim e pc s g" and nd: "\<not> unsubscribe_done pc"
  shows "\<exists>pc' s'. unsubscribe_step e pc s = okR (pc', s') \<and> unsubscribe_sim e pc' s' g \<and>
    unsubscribe_rank e pc' g < unsubscribe_rank e pc g"
proof -
  obtain i x H F M where e: "e = (i, x)" "g = (H, F, M)" by (cases e; cases g) auto
  show ?thesis
  proof (cases pc)
    case UCheck
    with sim show ?thesis by (simp add: e)
  next
    case UHead
    then have a: "i < 26" "posted s H F M" using sim by (simp_all add: e)
    have "unsubscribe_sim (i, x) (UWhile (first_of (H i)) NULL) s (H, F, M)" using a by (auto intro: exI [of _ "[]"])
    moreover have "nodes_from (first_of (H i)) (H i) = length (H i)" using posted_nodes_from [OF a(2,1), of "[]"] by simp
    ultimately show ?thesis using posted_head [OF a(2,1)] UHead by (simp add: e del: unsubscribe_sim.simps)
  next
    case (UWhile p q)
    with unsubscribe_while [of i x p q s H F M] sim show ?thesis unfolding e by blast
  next
    case (UUnlink p q)
    with unsubscribe_unlink [of i x p q s H F M] sim show ?thesis unfolding e by fastforce
  next
    case (UDelete p)
    with unsubscribe_delete [of i x p s H F M] sim show ?thesis unfolding e by fastforce
  qed (use nd in simp)
qed

lemma unsubscribe_irq:
  assumes "unsubscribe_sim e pc s g" and "isr_post s s'"
  shows "unsubscribe_sim e pc s' g"
proof -
  obtain i x H F M where e: "e = (i, x)" "g = (H, F, M)" by (cases e; cases g) auto
  from assms posted_isr [OF _ assms(2)] isr_keeps_handler [OF _ assms(2)] show ?thesis
    by (cases pc) (auto simp: e simp del: fun_upd_apply)
qed

interpretation unsubscribe_isr: interruptible unsubscribe_step unsubscribe_done sreg_i isr_post "\<lambda>_. (=)" unsubscribe_sim unsubscribe_rank
proof
  fix e pc g and s :: "'a mq_scheme"
  assume "unsubscribe_sim e pc s g" "\<not> unsubscribe_done pc"
  from unsubscribe_main [OF this] show "\<exists>pc' s' g'. unsubscribe_step e pc s = okR (pc', s') \<and> (=)\<^sup>*\<^sup>* g g' \<and>
    unsubscribe_sim e pc' s' g' \<and> unsubscribe_rank e pc' g' < unsubscribe_rank e pc g" by blast
next
  fix e pc g and s s' :: "'a mq_scheme"
  assume "unsubscribe_sim e pc s g" "isr_post s s'"
  from unsubscribe_irq [OF this] show "\<exists>g'. (=)\<^sup>*\<^sup>* g g' \<and> unsubscribe_sim e pc s' g' \<and> unsubscribe_rank e pc g' = unsubscribe_rank e pc g"
    by blast
qed



end
