(* ===== verification/Register_Steps.thy ===== *)
theory Register_Steps
  imports Subscription_Steps Kernel_Main
begin

text \<open>
  \<open>TaskRing::RegisterTaskHandler\<close> statement by statement, with posting interrupts in between. It
  does not disable interrupts either; the new task is allocated from the heap the interrupt
  routines take their messages from.
\<close>

section \<open>The statements of \<open>TaskRing::RegisterTaskHandler\<close>\<close>

datatype register_pc =
    RCheck            \<comment> \<open>\<open>if(task)\<close>\<close>
  | RNew              \<comment> \<open>\<open>PTASKSTATE pNew = new TASKSTATE_C(task); if(pNew)\<close>\<close>
  | RLink ptr         \<comment> \<open>\<open>pNew->pNext=internal->pHead\<close>\<close>
  | RHead ptr         \<comment> \<open>\<open>internal->pHead=pNew; rc=0\<close>\<close>
  | RDone int         \<comment> \<open>\<open>return rc\<close>\<close>

fun register_step :: "job \<Rightarrow> register_pc \<Rightarrow> 'a taskring_scheme \<Rightarrow> (register_pc \<times> 'a taskring_scheme) res" where
  "register_step j RCheck s = okR (if job_ptr j \<noteq> NULL then RNew else RDone (-1), s)"
| "register_step j RNew s = (let (pNew, s1) = new_cell (CTask (task_cell j NULL)) s in
     okR (if pNew \<noteq> NULL then RLink pNew else RDone (-1), s1))"
| "register_step j (RLink p) s = bindR (get_task p s) (\<lambda>t. okR (RHead p, put_cell p (CTask (set_pNext (pHead s) t)) s))"
| "register_step j (RHead p) s = okR (RDone 0, s\<lparr>pHead := p\<rparr>)"
| "register_step j (RDone rc) s = okR (RDone rc, s)"

fun register_done :: "register_pc \<Rightarrow> bool" where
  "register_done (RDone rc) = True"
| "register_done _ = False"

fun register_rank :: "register_pc \<Rightarrow> nat" where
  "register_rank RCheck = 4"
| "register_rank RNew = 3"
| "register_rank (RLink p) = 2"
| "register_rank (RHead p) = 1"
| "register_rank (RDone rc) = 0"

fun rest_of_register :: "job \<Rightarrow> register_pc \<Rightarrow> 'a taskring_scheme \<Rightarrow> (int \<times> 'a taskring_scheme) res" where
  "rest_of_register j RCheck s = Register j s"
| "rest_of_register j RNew s = (let (pNew, s1) = new_cell (CTask (task_cell j NULL)) s in
     if pNew \<noteq> NULL then bindR (get_task pNew s1) (\<lambda>t.
       okR (0, (put_cell pNew (CTask (set_pNext (pHead s1) t)) s1)\<lparr>pHead := pNew\<rparr>)) else okR (-1, s1))"
| "rest_of_register j (RLink p) s = bindR (get_task p s) (\<lambda>t. okR (0, (put_cell p (CTask (set_pNext (pHead s) t)) s)\<lparr>pHead := p\<rparr>))"
| "rest_of_register j (RHead p) s = okR (0, s\<lparr>pHead := p\<rparr>)"
| "rest_of_register j (RDone rc) s = okR (rc, s)"

lemma register_step_rest:
  "rest_of_register j pc s = bindR (register_step j pc s) (\<lambda>(pc', s'). rest_of_register j pc' s')"
proof (cases pc)
  case RCheck
  then show ?thesis by (cases j) (simp_all add: RegisterTaskHandler_class_def RegisterTaskHandler_fn_def)
qed (auto simp: bindR_assoc Let_def split: prod.splits intro!: bindR_cong)

text \<open>Without interrupts the statements compute \<open>RegisterTaskHandler\<close>.\<close>

lemma register_statements:
  assumes "irun (register_step j) register_done sreg_i (\<lambda>_ _. False) k (pc, s) (RDone rc, s')"
  shows "rest_of_register j pc s = okR (rc, s')"
  using irun_rest [of "rest_of_register j", OF register_step_rest assms] by simp

section \<open>Registration under interrupts\<close>

text \<open>The kernel while a call runs: interrupts have posted, and the ring is as before.\<close>

definition ring_during :: "'a taskring_scheme \<Rightarrow> (nat \<Rightarrow> (ptr \<times> subscriber) list) \<Rightarrow> (ptr \<times> letter) list \<Rightarrow>
    (ptr \<times> job) list \<Rightarrow> nat \<Rightarrow> bool" where
  "ring_during s H M T n \<longleftrightarrow> (\<exists>N. kernel_inv s H (M @ N) T n)"

lemma isr_task:
  assumes "isr_post s s'" and "ring_during s H M T n" and "cells s p = Some (CTask t)"
  shows "cells s' p = Some (CTask t)"
proof -
  obtain N where N: "mq_inv s H [] (M @ N)" using assms(2) by (auto simp: ring_during_def kernel_inv_def)
  have "p \<notin> set (addrs (M @ N))" using mq_inv_waiting [OF N, of p] assms(3) by auto
  with isr_mq_inv [OF assms(1) N] keeps_cellsD assms(3) show ?thesis by blast
qed

lemma isr_fields:
  assumes "isr_post s s'" and "ring_during s H M T n"
  shows "pHead s' = pHead s \<and> pCur s' = pCur s"
proof -
  obtain N where N: "mq_inv s H [] (M @ N)" using assms(2) by (auto simp: ring_during_def kernel_inv_def)
  from isr_mq_inv [OF assms(1) N] have "mq.more s' = mq.more s" by blast
  from more_fields [OF this] show ?thesis by simp
qed

lemma isr_ring_during:
  assumes "isr_post s s'" and "ring_during s H M T n"
  shows "ring_during s' H M T n"
proof -
  obtain N where N: "mq_inv s H [] (M @ N)" "ring_at s T n" using assms(2) by (auto simp: ring_during_def kernel_inv_def)
  obtain N' where N': "mq_inv s' H [] ((M @ N) @ N')" using isr_mq_inv [OF assms(1) N(1)] by blast
  have "ring_at s' T n"
    by (rule ring_at_frame [OF N(2) mq_inv_heap [OF N']]) (use isr_fields [OF assms] isr_task [OF assms] in auto)
  with N' have "kernel_inv s' H (M @ N @ N') T n" by (simp add: kernel_inv_def)
  then show ?thesis unfolding ring_during_def by blast
qed

type_synonym kernel_at = "(nat \<Rightarrow> (ptr \<times> subscriber) list) \<times> (ptr \<times> letter) list \<times> (ptr \<times> job) list \<times> nat"

fun register_sim :: "job \<Rightarrow> register_pc \<Rightarrow> 'a taskring_scheme \<Rightarrow> kernel_at \<Rightarrow> bool" where
  "register_sim j RCheck s (H, M, T, n) \<longleftrightarrow> ring_during s H M T n"
| "register_sim j RNew s (H, M, T, n) \<longleftrightarrow> ring_during s H M T n \<and> job_ptr j \<noteq> NULL"
| "register_sim j (RLink p) s (H, M, T, n) \<longleftrightarrow> ring_during s H M T n \<and> job_ptr j \<noteq> NULL \<and> p \<noteq> NULL \<and>
     p \<notin> set (addrs T) \<and> cells s p = Some (CTask (task_cell j NULL))"
| "register_sim j (RHead p) s (H, M, T, n) \<longleftrightarrow> ring_during s H M T n \<and> job_ptr j \<noteq> NULL \<and> p \<noteq> NULL \<and>
     p \<notin> set (addrs T) \<and> cells s p = Some (CTask (task_cell j (pHead s)))"
| "register_sim j (RDone rc) s (H, M, T, n) \<longleftrightarrow>
     rc = 0 \<and> job_ptr j \<noteq> NULL \<and> (\<exists>p. ring_during s H M ((p, j) # T) (Suc n)) \<or> rc = -1 \<and> ring_during s H M T n"

lemma ring_during_cell:
  assumes "ring_during s H M T n" and "p \<notin> set (addrs T)" and "cells s p = Some (CTask t)"
  shows "ring_during (put_cell p (CTask t') s) H M T n"
proof -
  let ?s = "put_cell p (CTask t') s"
  obtain N where N: "mq_inv s H [] (M @ N)" "ring_at s T n" using assms(1) by (auto simp: ring_during_def kernel_inv_def)
  then have r: "heap_wf s" "subs_rep s H" "queue_rep s (M @ N)" by (auto simp: mq_inv_def mq_rep_def)
  have "heap_wf ?s" using r(1) assms(3) by (auto simp: heap_wf_def put_cell_def list_all_iff)
  moreover have "subs_rep ?s H" by (rule subs_rep_frame [OF r(2)]) (use assms(3) in \<open>auto simp: put_cell_def\<close>)
  moreover have "queue_rep ?s (M @ N)"
    by (rule queue_rep_frame [OF r(3)]) (use queue_rep_node [OF r(3), of p] assms(3) in \<open>auto simp: put_cell_def\<close>)
  moreover have "cells ?s c = Some CBlock" if "c \<in> set (owned ([] @ vals (M @ N)))" for c
    using mq_inv_owned [OF N(1) that] assms(3) by (auto simp: put_cell_def)
  then have "list_all (\<lambda>c. cells ?s c = Some CBlock) (owned ([] @ vals (M @ N)))" unfolding list_all_iff by blast
  ultimately have "mq_inv ?s H [] (M @ N)" using N(1) by (simp add: mq_inv_def mq_rep_def)
  moreover have "ring_at ?s T n" using N(2) \<open>heap_wf ?s\<close> assms(2) by (auto simp: ring_at_def ring_rep_def put_cell_def)
  ultimately show ?thesis unfolding ring_during_def kernel_inv_def by blast
qed

lemma ring_during_new:
  assumes "ring_during s H M T n" and "pool s = p # ps"
  shows "ring_during (s\<lparr>cells := (cells s)(p \<mapsto> CTask t), pool := ps\<rparr>) H M T n" and "p \<noteq> NULL" and "p \<notin> set (addrs T)"
proof -
  let ?s = "s\<lparr>cells := (cells s)(p \<mapsto> CTask t), pool := ps\<rparr>"
  obtain N where N: "mq_inv s H [] (M @ N)" "ring_at s T n" using assms(1) by (auto simp: ring_during_def kernel_inv_def)
  have p: "p \<noteq> NULL" "cells s p = None" using mq_inv_heap [OF N(1)] assms(2) by (auto simp: heap_wf_def)
  have m: "mq_inv ?s H [] (M @ N)" by (rule mq_inv_alloc [OF N(1) assms(2)])
  have "ring_at ?s T n" by (rule ring_at_frame [OF N(2) mq_inv_heap [OF m]]) (use p in auto)
  with m show "ring_during ?s H M T n" unfolding ring_during_def kernel_inv_def by blast
  show "p \<noteq> NULL" by (fact p(1))
  show "p \<notin> set (addrs T)"
    using N(2) p(2) lseg_node [of "tnode (cells s)" "pHead s" T NULL p] by (auto simp: ring_at_def ring_rep_def)
qed

lemma ring_during_head:
  assumes "ring_during s H M T n" and "p \<noteq> NULL" and "p \<notin> set (addrs T)" and "cells s p = Some (CTask (task_cell j (pHead s)))"
  shows "ring_during (s\<lparr>pHead := p\<rparr>) H M ((p, j) # T) (Suc n)"
proof -
  obtain N where N: "mq_inv s H [] (M @ N)" "ring_at s T n" using assms(1) by (auto simp: ring_during_def kernel_inv_def)
  have "ring_rep (s\<lparr>pHead := p\<rparr>) ([(p, j)] @ T)" using N(2) assms(2,4) by (auto simp: ring_at_def ring_rep_def heap_wf_def)
  from ring_at_grow [OF N(2) this] N(1) show ?thesis by (auto simp: ring_during_def kernel_inv_def)
qed

lemma register_main:
  assumes sim: "register_sim j pc s g" and nd: "\<not> register_done pc"
  shows "\<exists>pc' s'. register_step j pc s = okR (pc', s') \<and> register_sim j pc' s' g \<and> register_rank pc' < register_rank pc"
proof -
  obtain H M T n where g: "g = (H, M, T, n)" by (cases g)
  show ?thesis
  proof (cases pc)
    case RCheck
    with sim show ?thesis by (simp add: g)
  next
    case RNew
    then have a: "ring_during s H M T n" "job_ptr j \<noteq> NULL" using sim by (simp_all add: g)
    show ?thesis
    proof (cases "pool s")
      case (Cons p ps)
      with RNew a ring_during_new [OF a(1) Cons] show ?thesis by (simp add: g new_cell_def)
    qed (use RNew a in \<open>simp add: g new_cell_def\<close>)
  next
    case (RLink p)
    then have a: "ring_during s H M T n" "job_ptr j \<noteq> NULL" "p \<noteq> NULL" "p \<notin> set (addrs T)" "cells s p = Some (CTask (task_cell j NULL))"
      using sim by (simp_all add: g)
    from ring_during_cell [OF a(1,4,5), of "task_cell j (pHead s)"] a RLink show ?thesis by (simp add: g get_task_def) (simp add: put_cell_def)
  next
    case (RHead p)
    then show ?thesis using sim ring_during_head [of s H M T n p j] by (auto simp: g)
  qed (use nd in simp)
qed

lemma register_irq:
  assumes "register_sim j pc s g" and "isr_post s s'"
  shows "register_sim j pc s' g"
proof -
  obtain H M T n where g: "g = (H, M, T, n)" by (cases g)
  show ?thesis
  proof (cases pc)
    case (RDone rc)
    with assms(1) isr_ring_during [OF assms(2)] show ?thesis by (simp add: g) blast
  qed (use assms(1) isr_ring_during [OF assms(2)] isr_task [OF assms(2)] isr_fields [OF assms(2)] in \<open>auto simp: g\<close>)
qed

interpretation register_isr: interruptible register_step register_done sreg_i isr_post "\<lambda>_. (=)" register_sim "\<lambda>_ pc _. register_rank pc"
proof
  fix j pc g and s :: "'a taskring_scheme"
  assume "register_sim j pc s g" "\<not> register_done pc"
  from register_main [OF this] show "\<exists>pc' s' g'. register_step j pc s = okR (pc', s') \<and> (=)\<^sup>*\<^sup>* g g' \<and>
    register_sim j pc' s' g' \<and> register_rank pc' < register_rank pc" by blast
next
  fix j pc g and s s' :: "'a taskring_scheme"
  assume "register_sim j pc s g" "isr_post s s'"
  from register_irq [OF this] show "\<exists>g'. (=)\<^sup>*\<^sup>* g g' \<and> register_sim j pc s' g' \<and> register_rank pc = register_rank pc" by blast
qed



end
