(* ===== verification/Loop_Steps.thy ===== *)
theory Loop_Steps
  imports Interrupts
begin

text \<open>
  \<open>MQClass::Loop\<close>, statement by statement, and its equality with the function
  \<open>MQ_Loop\<close> of \<open>Message_Queue\<close> when no interrupt occurs.
\<close>

section \<open>The statements of \<open>MQClass::Loop\<close>\<close>

text \<open>
  A program point carries the values of the local variables that are still needed:
  \<open>MaxMessages\<close>, \<open>msg\<close> and \<open>curHandler\<close>.
\<close>

datatype loop_pc =
    LTest int            \<comment> \<open>\<open>while(MaxMessages)\<close>\<close>
  | LDisable int         \<comment> \<open>\<open>INTDisableMasterInterrupts()\<close>\<close>
  | LFirst int           \<comment> \<open>\<open>msg=MsgQueueFirst; if(msg)\<close>\<close>
  | LAdvance int ptr     \<comment> \<open>\<open>MsgQueueFirst=msg->pNextMsg\<close>\<close>
  | LLast int ptr        \<comment> \<open>\<open>if(MsgQueueFirst==NULL) MsgQueueLast=NULL\<close>\<close>
  | LEnable int ptr      \<comment> \<open>\<open>INTEnableMasterInterrupts()\<close>\<close>
  | LLookup int ptr      \<comment> \<open>\<open>if(msg) curHandler=QueueBlock[msg->msgid]\<close>\<close>
  | LCall int ptr ptr    \<comment> \<open>\<open>while(curHandler) curHandler->Call(msg->msgid,msg->context)\<close>\<close>
  | LNext int ptr ptr    \<comment> \<open>\<open>curHandler=curHandler->pNextHandler\<close>\<close>
  | LOwner int ptr       \<comment> \<open>\<open>if(msg->CallerOwns!=MQ_OWNER_CALLER) ... delete msg->context\<close>\<close>
  | LFree int ptr        \<comment> \<open>\<open>delete msg\<close>\<close>
  | LCount int           \<comment> \<open>\<open>MaxMessages--\<close>\<close>
  | LDone

fun loop_step :: "('a mq_scheme) fn_bodies \<Rightarrow> ('a mq_scheme) recv_bodies \<Rightarrow> loop_pc \<Rightarrow> 'a mq_scheme \<Rightarrow>
    (loop_pc \<times> 'a mq_scheme) res" where
  "loop_step fb rb (LTest n) s = okR (if n \<noteq> 0 then LDisable n else LDone, s)"
| "loop_step fb rb (LDisable n) s = okR (LFirst n, INTDisableMasterInterrupts s)"
| "loop_step fb rb (LFirst n) s =
     (let msg = MsgQueueFirst s in okR (if msg \<noteq> NULL then LAdvance n msg else LEnable n msg, s))"
| "loop_step fb rb (LAdvance n msg) s =
     bindR (get_message msg s) (\<lambda>m. okR (LLast n msg, s\<lparr>MsgQueueFirst := pNextMsg m\<rparr>))"
| "loop_step fb rb (LLast n msg) s =
     okR (LEnable n msg, if MsgQueueFirst s = NULL then s\<lparr>MsgQueueLast := NULL\<rparr> else s)"
| "loop_step fb rb (LEnable n msg) s = okR (LLookup n msg, INTEnableMasterInterrupts s)"
| "loop_step fb rb (LLookup n msg) s =
     (if msg \<noteq> NULL then
        bindR (get_message msg s) (\<lambda>m. bindR (read_block (msgid m) s) (\<lambda>c. okR (LCall n msg c, s)))
      else okR (LCount n, s))"
| "loop_step fb rb (LCall n msg c) s =
     (if c \<noteq> NULL then
        bindR (get_handler c s) (\<lambda>h. bindR (get_message msg s) (\<lambda>m.
        bindR (Call fb rb h (msgid m) (msg_context m) s) (\<lambda>s1. okR (LNext n msg c, s1))))
      else okR (LOwner n msg, s))"
| "loop_step fb rb (LNext n msg c) s =
     bindR (get_handler c s) (\<lambda>h. okR (LCall n msg (pNextHandler h), s))"
| "loop_step fb rb (LOwner n msg) s =
     bindR (get_message msg s) (\<lambda>m.
     bindR (if CallerOwns m \<noteq> MQ_OWNER_CALLER \<and> msg_context m \<noteq> NULL
            then delete_cell (msg_context m) s else okR s) (\<lambda>s1. okR (LFree n msg, s1)))"
| "loop_step fb rb (LFree n msg) s = bindR (delete_cell msg s) (\<lambda>s1. okR (LCount n, s1))"
| "loop_step fb rb (LCount n) s =
     (if n = INT_MIN then failR SignedOverflow else okR (LTest (n - 1), s))"
| "loop_step fb rb LDone s = okR (LDone, s)"

section \<open>The statements and the function\<close>

text \<open>
  What the rest of \<open>Loop\<close> computes from a program point on when no interrupt occurs,
  written with the functions of \<open>Message_Queue\<close>.
\<close>

definition rest_count :: "('a mq_scheme) fn_bodies \<Rightarrow> ('a mq_scheme) recv_bodies \<Rightarrow> int \<Rightarrow> 'a mq_scheme \<Rightarrow>
    ('a mq_scheme) res" where
  "rest_count fb rb n s = (if n = INT_MIN then failR SignedOverflow else MQ_Loop fb rb (n - 1) s)"

definition rest_lookup :: "('a mq_scheme) fn_bodies \<Rightarrow> ('a mq_scheme) recv_bodies \<Rightarrow> int \<Rightarrow> ptr \<Rightarrow>
    'a mq_scheme \<Rightarrow> ('a mq_scheme) res" where
  "rest_lookup fb rb n msg s =
     (if msg \<noteq> NULL then
        bindR (get_message msg s) (\<lambda>m. bindR (read_block (msgid m) s) (\<lambda>c.
        bindR (bindR (dispatch fb rb msg c s) (free_message msg)) (rest_count fb rb n)))
      else rest_count fb rb n s)"

fun rest_of_loop :: "('a mq_scheme) fn_bodies \<Rightarrow> ('a mq_scheme) recv_bodies \<Rightarrow> loop_pc \<Rightarrow> 'a mq_scheme \<Rightarrow>
    ('a mq_scheme) res" where
  "rest_of_loop fb rb (LTest n) s = MQ_Loop fb rb n s"
| "rest_of_loop fb rb (LDisable n) s = bindR (Loop_body fb rb s) (rest_count fb rb n)"
| "rest_of_loop fb rb (LFirst n) s = bindR (Loop_body fb rb s) (rest_count fb rb n)"
| "rest_of_loop fb rb (LAdvance n msg) s =
     bindR (get_message msg s) (\<lambda>m. rest_lookup fb rb n msg
       (INTEnableMasterInterrupts (let s1 = s\<lparr>MsgQueueFirst := pNextMsg m\<rparr> in
          if MsgQueueFirst s1 = NULL then s1\<lparr>MsgQueueLast := NULL\<rparr> else s1)))"
| "rest_of_loop fb rb (LLast n msg) s = rest_lookup fb rb n msg
     (INTEnableMasterInterrupts (if MsgQueueFirst s = NULL then s\<lparr>MsgQueueLast := NULL\<rparr> else s))"
| "rest_of_loop fb rb (LEnable n msg) s = rest_lookup fb rb n msg (INTEnableMasterInterrupts s)"
| "rest_of_loop fb rb (LLookup n msg) s = rest_lookup fb rb n msg s"
| "rest_of_loop fb rb (LCall n msg c) s =
     bindR (bindR (dispatch fb rb msg c s) (free_message msg)) (rest_count fb rb n)"
| "rest_of_loop fb rb (LNext n msg c) s =
     bindR (get_handler c s) (\<lambda>h.
     bindR (bindR (dispatch fb rb msg (pNextHandler h) s) (free_message msg)) (rest_count fb rb n))"
| "rest_of_loop fb rb (LOwner n msg) s = bindR (free_message msg s) (rest_count fb rb n)"
| "rest_of_loop fb rb (LFree n msg) s = bindR (delete_cell msg s) (rest_count fb rb n)"
| "rest_of_loop fb rb (LCount n) s = rest_count fb rb n s"
| "rest_of_loop fb rb LDone s = okR s"

lemma Loop_body_lookup:
  "bindR (Loop_body fb rb s) (rest_count fb rb n) =
     bindR (pop_message s) (\<lambda>(msg, s1). rest_lookup fb rb n msg s1)"
  by (auto simp: Loop_body_def rest_lookup_def bindR_assoc split_def intro!: bindR_cong)

text \<open>One statement leaves the result of the rest as it is, faults included.\<close>

lemma loop_step_rest:
  assumes "pc \<noteq> LDone"
  shows "rest_of_loop fb rb pc s = bindR (loop_step fb rb pc s) (\<lambda>(pc', s'). rest_of_loop fb rb pc' s')"
proof (cases pc)
  case (LTest n)
  show ?thesis unfolding LTest rest_of_loop.simps(1)
    by (subst MQ_Loop.simps) (simp add: rest_count_def [abs_def])
next
  case (LDisable n)
  then show ?thesis by (simp add: Loop_body_lookup pop_message_def kernel_defs)
next
  case (LFirst n)
  then show ?thesis
    by (auto simp: Loop_body_lookup pop_message_def kernel_defs Let_def bindR_assoc get_message_def intro!: bindR_cong)
next
  case (LCall n msg c)
  show ?thesis unfolding LCall rest_of_loop.simps(8)
    by (subst dispatch.simps) (auto simp: bindR_assoc intro!: bindR_cong)
qed (use assms in \<open>auto simp: rest_lookup_def rest_count_def free_message_def bindR_assoc intro!: bindR_cong\<close>)

text \<open>Runs without interrupts.\<close>

definition plain_run :: "('a mq_scheme) fn_bodies \<Rightarrow> ('a mq_scheme) recv_bodies \<Rightarrow>
    loop_pc \<times> 'a mq_scheme \<Rightarrow> loop_pc \<times> 'a mq_scheme \<Rightarrow> bool" where
  "plain_run fb rb c c' \<longleftrightarrow>
     (\<exists>k. irun (loop_step fb rb) (\<lambda>pc. pc = LDone) (\<lambda>_. False) isr_post k c c')"

lemma plain_refl [simp]: "plain_run fb rb c c"
  unfolding plain_run_def by (blast intro: irun.start)

lemma plain_trans: "plain_run fb rb c c' \<Longrightarrow> plain_run fb rb c' c'' \<Longrightarrow> plain_run fb rb c c''"
  unfolding plain_run_def by (blast intro: irun_trans)

lemma plain_step:
  assumes "\<exists>c. loop_step fb rb pc s = okR c \<and> plain_run fb rb c c'" and "pc \<noteq> LDone"
  shows "plain_run fb rb (pc, s) c'"
  using assms unfolding plain_run_def by (fast intro: irun_front)

lemma plain_rest:
  assumes "plain_run fb rb c c'"
  shows "rest_of_loop fb rb (fst c) (snd c) = rest_of_loop fb rb (fst c') (snd c')"
proof -
  obtain k where "irun (loop_step fb rb) (\<lambda>pc. pc = LDone) (\<lambda>_. False) isr_post k c c'"
    using assms by (auto simp: plain_run_def)
  then show ?thesis
  proof (induction rule: irun.induct)
    case (main k c pc s c')
    then show ?case using loop_step_rest [of pc fb rb s] by (simp add: split_def)
  qed auto
qed

lemma dispatch_runs:
  assumes "dispatch fb rb msg c s = okR s1"
  shows "plain_run fb rb (LCall n msg c, s) (LOwner n msg, s1)"
  using assms
proof (induction fb rb msg c s "Ok s1" rule: dispatch.raw_induct [rotated, consumes 1, case_names 1])
  case (1 disp fb rb msg c s)
  show ?case
  proof (cases "c = NULL")
    case True
    with 1(2) show ?thesis by (intro plain_step) simp_all
  next
    case False
    with 1(2) obtain h m t h1 where r: "get_handler c s = okR h" "get_message msg s = okR m"
        "Call fb rb h (msgid m) (msg_context m) s = okR t" "get_handler c t = okR h1"
        "disp fb rb msg (pNextHandler h1) t = okR s1"
      by (auto simp: bindR_ok_iff)
    have "plain_run fb rb (LNext n msg c, t) (LOwner n msg, s1)"
      by (rule plain_step) (use r(4) 1(1) [OF r(5)] in simp_all)
    with r(1-3) False show ?thesis by (intro plain_step) simp_all
  qed
qed

lemma free_message_runs:
  assumes "free_message msg s = okR s1"
  shows "plain_run fb rb (LOwner n msg, s) (LCount n, s1)"
proof -
  obtain m t where r: "get_message msg s = okR m" "(if CallerOwns m \<noteq> MQ_OWNER_CALLER \<and> msg_context m \<noteq> NULL
      then delete_cell (msg_context m) s else okR s) = okR t" "delete_cell msg t = okR s1"
    using assms by (auto simp: free_message_def bindR_ok_iff)
  have "plain_run fb rb (LFree n msg, t) (LCount n, s1)" by (rule plain_step) (simp_all add: r(3))
  then show ?thesis by (intro plain_step) (simp_all add: r(1) r(2) del: if_split)
qed

lemma pop_message_runs:
  assumes "pop_message s = okR (msg, t)"
  shows "plain_run fb rb (LDisable n, s) (LLookup n msg, t)"
proof -
  let ?s = "INTDisableMasterInterrupts s"
  have en: "plain_run fb rb (LEnable n msg, u) (LLookup n msg, INTEnableMasterInterrupts u)" for u
    by (rule plain_step) simp_all
  have "plain_run fb rb (LFirst n, ?s) (LLookup n msg, t)"
  proof (cases "MsgQueueFirst ?s = NULL")
    case True
    with assms have "msg = NULL" "t = INTEnableMasterInterrupts ?s" by (auto simp: pop_message_def)
    with en [of ?s] True show ?thesis by (intro plain_step) simp_all
  next
    case False
    with assms obtain m where m: "msg = MsgQueueFirst ?s" "get_message msg ?s = okR m"
        "t = INTEnableMasterInterrupts (let u = ?s\<lparr>MsgQueueFirst := pNextMsg m\<rparr> in
           if MsgQueueFirst u = NULL then u\<lparr>MsgQueueLast := NULL\<rparr> else u)"
      by (auto simp: pop_message_def Let_def bindR_ok_iff)
    have "plain_run fb rb (LLast n msg, ?s\<lparr>MsgQueueFirst := pNextMsg m\<rparr>) (LLookup n msg, t)"
      by (rule plain_step) (use en m(3) in \<open>simp_all add: Let_def\<close>)
    then have "plain_run fb rb (LAdvance n msg, ?s) (LLookup n msg, t)"
      by (intro plain_step) (simp_all add: m(2))
    with False m(1) show ?thesis by (intro plain_step) simp_all
  qed
  then show ?thesis by (intro plain_step) simp_all
qed

lemma Loop_body_runs:
  assumes "Loop_body fb rb s = okR s1"
  shows "plain_run fb rb (LDisable n, s) (LCount n, s1)"
proof -
  obtain msg t where pop: "pop_message s = okR (msg, t)" and rest: "if msg \<noteq> NULL then
      bindR (get_message msg t) (\<lambda>m. bindR (read_block (msgid m) t) (\<lambda>c.
      bindR (dispatch fb rb msg c t) (free_message msg))) = okR s1 else s1 = t"
    using assms by (auto simp: Loop_body_def bindR_ok_iff split: if_splits)
  have "plain_run fb rb (LLookup n msg, t) (LCount n, s1)"
  proof (cases "msg = NULL")
    case False
    with rest obtain m c u where r: "get_message msg t = okR m" "read_block (msgid m) t = okR c"
        "dispatch fb rb msg c t = okR u" "free_message msg u = okR s1"
      by (auto simp: bindR_ok_iff)
    from plain_trans [OF dispatch_runs [OF r(3)] free_message_runs [OF r(4)]]
    have "plain_run fb rb (LCall n msg c, t) (LCount n, s1)" .
    with r(1,2) False show ?thesis by (intro plain_step) simp_all
  next
    case True
    with rest show ?thesis by (intro plain_step) simp_all
  qed
  with pop_message_runs [OF pop] show ?thesis by (rule plain_trans)
qed

lemma MQ_Loop_runs:
  assumes "MQ_Loop fb rb n s = okR s1"
  shows "plain_run fb rb (LTest n, s) (LDone, s1)"
  using assms
proof (induction fb rb n s "Ok s1" rule: MQ_Loop.raw_induct [rotated, consumes 1, case_names 1])
  case (1 loop fb rb n s)
  show ?case
  proof (cases "n = 0")
    case False
    with 1(2) obtain t where t: "Loop_body fb rb s = okR t" "n \<noteq> INT_MIN" "loop fb rb (n - 1) t = okR s1"
      by (auto simp: bindR_ok_iff split: if_splits)
    have "plain_run fb rb (LCount n, t) (LDone, s1)"
      by (rule plain_step) (use 1(1) [OF t(3)] t(2) in simp_all)
    with Loop_body_runs [OF t(1)] have "plain_run fb rb (LDisable n, s) (LDone, s1)" by (rule plain_trans)
    with False show ?thesis by (intro plain_step) simp_all
  next
    case True
    with 1(2) show ?thesis by (intro plain_step) simp_all
  qed
qed

lemma plain_run_fault:
  assumes "plain_run fb rb (LTest n, s) (pc, t)" and "loop_step fb rb pc t = failR e"
  shows "MQ_Loop fb rb n s = failR e"
  using plain_rest [OF assms(1)] loop_step_rest [of pc fb rb t] assms(2) by (cases "pc = LDone") auto


end
