(* ===== verification/Loop_Interrupts.thy ===== *)
theory Loop_Interrupts
  imports Loop_Steps
begin

text \<open>
  \<open>MQClass::Loop\<close> under interrupts: the machine of \<open>Loop_Steps\<close>, with posting interrupts
  between its statements, refines an abstract mailbox in which no letter is lost, duplicated
  or overtaken.
\<close>

section \<open>The abstract mailbox\<close>

text \<open>
  The specification of delivery: letters taken so far, letters waiting, the subscribers of the
  letter taken last that are still to be called, and the calls made. \<open>A\<close> is the table of
  subscribers. Posting, from wherever, appends.
\<close>

record mailbox =
  mtaken :: "letter list"
  mwaiting :: "letter list"
  mpending :: "subscriber list"
  mcalled :: "delivery list"

definition calls_of :: "letter list \<Rightarrow> subscriber list \<Rightarrow> delivery list" where
  "calls_of T xs = map (delivery_of (fst (last T)) (fst (snd (last T)))) xs"

inductive mail_step :: "(nat \<Rightarrow> subscriber list) \<Rightarrow> mailbox \<Rightarrow> mailbox \<Rightarrow> bool" for A where
  take: "mpending b = [] \<Longrightarrow> mwaiting b = l # ls \<Longrightarrow>
    mail_step A b (b\<lparr>mtaken := mtaken b @ [l], mwaiting := ls, mpending := A (nat (fst l))\<rparr>)"
| call: "mpending b = x # xs \<Longrightarrow>
    mail_step A b (b\<lparr>mwaiting := mwaiting b @ N, mpending := xs, mcalled := mcalled b @ calls_of (mtaken b) [x]\<rparr>)"
| post: "mail_step A b (b\<lparr>mwaiting := mwaiting b @ N\<rparr>)"

text \<open>No letter is lost, duplicated or overtaken, and the calls are those of the letters taken.\<close>

definition mail_inv :: "(nat \<Rightarrow> subscriber list) \<Rightarrow> letter list \<Rightarrow> mailbox \<Rightarrow> bool" where
  "mail_inv A M b \<longleftrightarrow> (\<exists>N. mtaken b @ mwaiting b = M @ N) \<and>
     mcalled b @ calls_of (mtaken b) (mpending b) = concat (map (deliveries A) (mtaken b))"

lemma mail_step_inv: "mail_step A b b' \<Longrightarrow> mail_inv A M b \<Longrightarrow> mail_inv A M b'"
proof (induction rule: mail_step.induct)
  case (take b l ls)
  then show ?case by (auto simp: mail_inv_def calls_of_def deliveries_def)
next
  case (call b x xs N)
  then show ?case by (auto simp: mail_inv_def calls_of_def) (metis append_assoc)
next
  case (post b N)
  then show ?case by (auto simp: mail_inv_def) (metis append_assoc)
qed

lemma mail_steps_inv: "(mail_step A)\<^sup>*\<^sup>* b b' \<Longrightarrow> mail_inv A M b \<Longrightarrow> mail_inv A M b'"
  by (induction rule: rtranclp_induct) (auto intro: mail_step_inv)

section \<open>Delivery refines the mailbox\<close>

text \<open>
  The state between statements. \<open>at_rest\<close>: no message in hand. \<open>in_hand p\<close>: the message
  at \<open>p\<close> has been taken off the queue and not yet freed.
\<close>

type_synonym subs_table = "nat \<Rightarrow> (ptr \<times> subscriber) list"

definition at_rest :: "subs_table \<Rightarrow> 'a mq_scheme \<Rightarrow> mailbox \<Rightarrow> bool" where
  "at_rest H s b \<longleftrightarrow> mpending b = [] \<and> (\<exists>M. mq_inv s H [] M \<and> vals M = mwaiting b)"

definition in_hand :: "subs_table \<Rightarrow> ptr \<Rightarrow> 'a mq_scheme \<Rightarrow> mailbox \<Rightarrow> bool" where
  "in_hand H p s b \<longleftrightarrow> p \<noteq> NULL \<and> mtaken b \<noteq> [] \<and> (\<exists>M m. mq_inv s H [last (mtaken b)] M \<and>
     vals M = mwaiting b \<and> cells s p = Some (CMessage m) \<and> letter_of m = last (mtaken b) \<and> p \<notin> set (addrs M))"

abbreviation subs_of :: "subs_table \<Rightarrow> mailbox \<Rightarrow> (ptr \<times> subscriber) list" where
  "subs_of H b \<equiv> H (nat (fst (last (mtaken b))))"

fun loop_at :: "subs_table \<Rightarrow> loop_pc \<Rightarrow> 'a mq_scheme \<Rightarrow> mailbox \<Rightarrow> bool" where
  "loop_at H (LTest n) s b \<longleftrightarrow> 0 \<le> n \<and> at_rest H s b"
| "loop_at H (LDisable n) s b \<longleftrightarrow> 0 < n \<and> at_rest H s b"
| "loop_at H (LFirst n) s b \<longleftrightarrow> 0 < n \<and> at_rest H s b \<and> \<not> sreg_i s"
| "loop_at H (LAdvance n p) s b \<longleftrightarrow> 0 < n \<and> \<not> sreg_i s \<and> mpending b = [] \<and>
     (\<exists>l M. mq_inv s H [] ((p, l) # M) \<and> mwaiting b = l # vals M)"
| "loop_at H (LLast n p) s b \<longleftrightarrow> 0 < n \<and> \<not> sreg_i s \<and>
     in_hand H p (if MsgQueueFirst s = NULL then s\<lparr>MsgQueueLast := NULL\<rparr> else s) b \<and> mpending b = vals (subs_of H b)"
| "loop_at H (LEnable n p) s b \<longleftrightarrow> 0 < n \<and> \<not> sreg_i s \<and>
     (if p = NULL then at_rest H s b else in_hand H p s b \<and> mpending b = vals (subs_of H b))"
| "loop_at H (LLookup n p) s b \<longleftrightarrow> 0 < n \<and>
     (if p = NULL then at_rest H s b else in_hand H p s b \<and> mpending b = vals (subs_of H b))"
| "loop_at H (LCall n p c) s b \<longleftrightarrow> 0 < n \<and> in_hand H p s b \<and>
     (\<exists>pre xs. subs_of H b = pre @ xs \<and> mpending b = vals xs \<and> c = (case xs of [] \<Rightarrow> NULL | x # _ \<Rightarrow> fst x))"
| "loop_at H (LNext n p c) s b \<longleftrightarrow> 0 < n \<and> in_hand H p s b \<and>
     (\<exists>pre x xs. subs_of H b = pre @ x # xs \<and> mpending b = vals xs \<and> c = fst x)"
| "loop_at H (LOwner n p) s b \<longleftrightarrow> 0 < n \<and> in_hand H p s b \<and> mpending b = []"
| "loop_at H (LFree n p) s b \<longleftrightarrow> 0 < n \<and> at_rest H s b \<and>
     (\<exists>M m. mq_inv s H [] M \<and> cells s p = Some (CMessage m) \<and> p \<notin> set (addrs M))"
| "loop_at H (LCount n) s b \<longleftrightarrow> 0 < n \<and> at_rest H s b"
| "loop_at H LDone s b \<longleftrightarrow> at_rest H s b"

text \<open>How many messages may still be taken, and how many statements are left at most.\<close>

fun takes_left :: "loop_pc \<Rightarrow> nat" where
  "takes_left (LTest n) = nat n"
| "takes_left (LDisable n) = nat n"
| "takes_left (LFirst n) = nat n"
| "takes_left (LAdvance n p) = nat n"
| "takes_left (LLast n p) = nat n - 1"
| "takes_left (LEnable n p) = nat n - 1"
| "takes_left (LLookup n p) = nat n - 1"
| "takes_left (LCall n p c) = nat n - 1"
| "takes_left (LNext n p c) = nat n - 1"
| "takes_left (LOwner n p) = nat n - 1"
| "takes_left (LFree n p) = nat n - 1"
| "takes_left (LCount n) = nat n - 1"
| "takes_left LDone = 0"

fun statements_left :: "nat \<Rightarrow> loop_pc \<Rightarrow> nat \<Rightarrow> nat" where
  "statements_left K (LTest n) q = nat n * (11 + 2 * K) + 1"
| "statements_left K (LDisable n) q = (nat n - 1) * (11 + 2 * K) + 11 + 2 * K"
| "statements_left K (LFirst n) q = (nat n - 1) * (11 + 2 * K) + 10 + 2 * K"
| "statements_left K (LAdvance n p) q = (nat n - 1) * (11 + 2 * K) + 9 + 2 * K"
| "statements_left K (LLast n p) q = (nat n - 1) * (11 + 2 * K) + 8 + 2 * q"
| "statements_left K (LEnable n p) q = (nat n - 1) * (11 + 2 * K) + 7 + 2 * q"
| "statements_left K (LLookup n p) q = (nat n - 1) * (11 + 2 * K) + 6 + 2 * q"
| "statements_left K (LCall n p c) q = (nat n - 1) * (11 + 2 * K) + 5 + 2 * q"
| "statements_left K (LNext n p c) q = (nat n - 1) * (11 + 2 * K) + 6 + 2 * q"
| "statements_left K (LOwner n p) q = (nat n - 1) * (11 + 2 * K) + 4"
| "statements_left K (LFree n p) q = (nat n - 1) * (11 + 2 * K) + 3"
| "statements_left K (LCount n) q = (nat n - 1) * (11 + 2 * K) + 2"
| "statements_left K LDone q = 0"

text \<open>
  One statement of the machine matched by the mailbox: \<open>matched\<close> collects what is shown of
  it. At most one of the messages to be taken is used up, and none without taking one
  unless the queue is empty.
\<close>

definition matched :: "('a mq_scheme \<Rightarrow> delivery list) \<Rightarrow> subs_table \<Rightarrow> nat \<Rightarrow> loop_pc \<Rightarrow> 'a mq_scheme \<Rightarrow> mailbox \<Rightarrow>
    loop_pc \<Rightarrow> 'a mq_scheme \<Rightarrow> mailbox \<Rightarrow> bool" where
  "matched lg H K pc s b pc' s' b' \<longleftrightarrow> (mail_step (\<lambda>i. vals (H i)))\<^sup>*\<^sup>* b b' \<and> loop_at H pc' s' b' \<and>
     (\<exists>new. lg s' = lg s @ new \<and> mcalled b' = mcalled b @ new) \<and>
     length (mtaken b) + length (mwaiting b) \<le> length (mtaken b') + length (mwaiting b') \<and>
     (length (mtaken b') + takes_left pc' = length (mtaken b) + takes_left pc \<or>
      mwaiting b = [] \<and> b' = b \<and> Suc (takes_left pc') = takes_left pc) \<and>
     statements_left K pc' (length (mpending b')) < statements_left K pc (length (mpending b))"

lemma recording_more: "recording lg fb rb \<Longrightarrow> mq.more s' = mq.more s \<Longrightarrow> lg s' = lg s"
  unfolding recording_def by blast

lemma recording_call:
  "recording lg fb rb \<Longrightarrow> call_sub fb rb x mid ctx s = okR s' \<Longrightarrow> lg s' = lg s @ [delivery_of mid ctx x]"
  unfolding recording_def by blast

text \<open>A statement that the mailbox does not notice.\<close>

lemma matched_silent:
  assumes "recording lg fb rb" and "mq.more s' = mq.more s" and "loop_at H pc' s' b"
    and "takes_left pc' = takes_left pc \<or> mwaiting b = [] \<and> Suc (takes_left pc') = takes_left pc"
    and "statements_left K pc' (length (mpending b)) < statements_left K pc (length (mpending b))"
  shows "matched lg H K pc s b pc' s' b"
  using recording_more [OF assms(1,2)] assms(3-5) by (auto simp: matched_def)

lemma in_hand_valid: "in_hand H p s b \<Longrightarrow> 0 \<le> fst (last (mtaken b)) \<and> fst (last (mtaken b)) < 26"
  by (auto simp: in_hand_def mq_inv_def valid_letter_def)

lemma in_hand_message:
  assumes "in_hand H p s b"
  obtains m where "get_message p s = okR m" "msgid m = fst (last (mtaken b))"
    "msg_context m = fst (snd (last (mtaken b)))" "letter_of m = last (mtaken b)"
  using assms by (fastforce simp: in_hand_def get_message_def letter_of_def dest: sym)

lemma in_hand_chain:
  assumes "in_hand H p s b"
  shows "lchain (hnode (cells s)) (QueueBlock s ! nat (fst (last (mtaken b)))) (subs_of H b)"
proof -
  obtain M where "mq_inv s H [last (mtaken b)] M" using assms by (auto simp: in_hand_def)
  from mq_inv_chain [OF this, of "nat (fst (last (mtaken b)))"] in_hand_valid [OF assms] show ?thesis by linarith
qed

lemma at_rest_sreg [simp]: "at_rest H (s\<lparr>sreg_i := v\<rparr>) b = at_rest H s b"
  by (simp add: at_rest_def)

lemma in_hand_sreg [simp]: "in_hand H p (s\<lparr>sreg_i := v\<rparr>) b = in_hand H p s b"
  by (simp add: in_hand_def)

text \<open>Taking a message off the queue: the two assignments of the critical section.\<close>

lemma match_advance:
  assumes at: "loop_at H (LAdvance n p) s b" and rc: "recording lg fb rb"
    and K: "\<forall>i<26. length (H i) \<le> K"
  shows "\<exists>s' b'. loop_step fb rb (LAdvance n p) s = okR (LLast n p, s') \<and>
    matched lg H K (LAdvance n p) s b (LLast n p) s' b'"
proof -
  obtain l M where inv: "mq_inv s H [] ((p, l) # M)" and w: "mwaiting b = l # vals M" and n: "0 < n"
      and f: "\<not> sreg_i s" "mpending b = []"
    using at by auto
  obtain s1 m where pop: "pop_message s = okR (p, s1)" "mq_inv s1 H [l] M" "p \<noteq> NULL"
      "cells s1 p = Some (CMessage m)" "letter_of m = l" "p \<notin> set (addrs M)" "cells s1 = cells s"
    using mq_inv_pop [OF inv] by blast
  let ?s = "s\<lparr>MsgQueueFirst := pNextMsg m\<rparr>"
  let ?t = "if MsgQueueFirst ?s = NULL then ?s\<lparr>MsgQueueLast := NULL\<rparr> else ?s"
  let ?b = "b\<lparr>mtaken := mtaken b @ [l], mwaiting := vals M, mpending := vals (H (nat (fst l)))\<rparr>"
  have c: "cells s p = Some (CMessage m)" using pop(4,7) by simp
  have "MsgQueueFirst s = p" using inv by (auto simp: mq_inv_def mq_rep_def queue_rep_def)
  then have "s1 = ?t\<lparr>sreg_i := True\<rparr>"
    using pop(1,3) c by (auto simp: pop_message_def get_message_def kernel_defs Let_def split: if_splits)
  then have inv': "mq_inv ?t H [l] M" using pop(2) by simp
  have "in_hand H p ?t ?b" using inv' pop(3,5,6) c by (auto simp: in_hand_def)
  then have "loop_at H (LLast n p) ?s ?b" using n f by simp
  moreover have "mail_step (\<lambda>i. vals (H i)) b ?b" using mail_step.take [of b l "vals M"] f(2) w by simp
  moreover have "lg ?s = lg s" by (rule recording_more [OF rc]) simp
  moreover have "length (H (nat (fst l))) \<le> K" using K inv by (auto simp: mq_inv_def valid_letter_def)
  ultimately have "matched lg H K (LAdvance n p) s b (LLast n p) ?s ?b"
    using n w by (auto simp: matched_def)
  then show ?thesis using c by (auto simp: get_message_def)
qed

text \<open>Calling one handler.\<close>

lemma match_call:
  assumes at: "loop_at H (LCall n p c) s b" and wb: "well_behaved fb rb" and rc: "recording lg fb rb" and c: "c \<noteq> NULL"
  shows "\<exists>s' b'. loop_step fb rb (LCall n p c) s = okR (LNext n p c, s') \<and>
    matched lg H K (LCall n p c) s b (LNext n p c) s' b'"
proof -
  obtain pre ys where n: "0 < n" and h: "in_hand H p s b" and ys: "subs_of H b = pre @ ys" "mpending b = vals ys"
      "c = (case ys of [] \<Rightarrow> NULL | y # _ \<Rightarrow> fst y)"
    using at by auto
  obtain x xs where "ys = x # xs" using ys(3) c by (cases ys) auto
  with ys have H: "subs_of H b = pre @ x # xs" and pd: "mpending b = vals (x # xs)" and cx: "c = fst x" by simp_all
  obtain M m where inv: "mq_inv s H [last (mtaken b)] M" and M: "vals M = mwaiting b" and
      m: "cells s p = Some (CMessage m)" "letter_of m = last (mtaken b)" and p: "p \<notin> set (addrs M)" "p \<noteq> NULL"
      and t: "mtaken b \<noteq> []"
    using h by (auto simp: in_hand_def)
  have ml: "msgid m = fst (last (mtaken b))" "msg_context m = fst (snd (last (mtaken b)))"
    using m(2) [symmetric] by (auto simp: letter_of_def)
  obtain hd where hd: "cells s c = Some (CHandler hd)" "snd x = subscriber_of hd"
    using in_hand_chain [OF h, unfolded H] cx by (auto simp: lseg_append split: option.splits dest!: hcell_SomeD)
  obtain s1 where s1: "call_sub fb rb (snd x) (msgid m) (msg_context m) s = okR s1" "quiet s s1"
    using wb inv unfolding well_behaved_def by blast
  obtain N where N: "mq_inv s1 H [last (mtaken b)] (M @ N)" "set (addrs N) \<inter> dom (cells s) = {}"
      "keeps_cells (set (addrs M)) s s1"
    using quietE [OF s1(2) inv] .
  have p1: "cells s1 p = Some (CMessage m)" "p \<notin> set (addrs (M @ N))"
    using keeps_cellsD [OF N(3) m(1) p(1)] N(2) m(1) p(1) by auto
  let ?b = "b\<lparr>mwaiting := mwaiting b @ vals N, mpending := vals xs, mcalled := mcalled b @ calls_of (mtaken b) [snd x]\<rparr>"
  have "in_hand H p s1 ?b" using N(1) p1 p(2) M m(2) t unfolding in_hand_def by fastforce
  then have "loop_at H (LNext n p c) s1 ?b" using n H cx by (simp del: split_paired_Ex) blast
  moreover have "mail_step (\<lambda>i. vals (H i)) b ?b" using mail_step.call [of b "snd x" "vals xs"] pd by simp
  moreover have "lg s1 = lg s @ calls_of (mtaken b) [snd x]"
    using recording_call [OF rc s1(1)] ml by (simp add: calls_of_def)
  ultimately have "matched lg H K (LCall n p c) s b (LNext n p c) s1 ?b" using pd by (auto simp: matched_def)
  moreover have "loop_step fb rb (LCall n p c) s = okR (LNext n p c, s1)"
    using c hd m(1) s1(1) by (simp add: get_handler_def get_message_def Call_eq)
  ultimately show ?thesis by blast
qed

text \<open>Releasing the message.\<close>

lemma in_hand_free:
  assumes h: "in_hand H p s b" and pd: "mpending b = []"
  shows "\<exists>s1. loop_step fb rb (LOwner n p) s = okR (LFree n p, s1) \<and> mq.more s1 = mq.more s \<and>
    (0 < n \<longrightarrow> loop_at H (LFree n p) s1 b)"
proof -
  obtain M m where inv: "mq_inv s H [last (mtaken b)] M" and M: "vals M = mwaiting b" and
      m: "cells s p = Some (CMessage m)" "letter_of m = last (mtaken b)" and p: "p \<notin> set (addrs M)"
    using h by (auto simp: in_hand_def)
  obtain mid ctx ow where l: "last (mtaken b) = (mid, ctx, ow)" "msg_context m = ctx" "CallerOwns m = ow"
    using m(2) by (cases "last (mtaken b)") (auto simp: letter_of_def)
  have inv': "mq_inv s H [] M" using mq_inv_drop [OF inv] .
  show ?thesis
  proof (cases "ow \<noteq> MQ_OWNER_CALLER \<and> ctx \<noteq> NULL")
    case True
    then have c: "cells s ctx = Some CBlock" "owned_ctx (last (mtaken b)) = [ctx]"
      using mq_inv_owned [OF inv, of ctx] l by auto
    have "ctx \<notin> set (addrs M)" using mq_inv_waiting [OF inv', of ctx] c(1) by auto
    moreover have "ctx \<notin> set (owned (vals M))" using inv c(2) by (auto simp: mq_inv_def)
    ultimately obtain s1 where s1: "delete_cell ctx s = okR s1" "mq_inv s1 H [] M"
        "cells s1 = (cells s)(ctx := None)" "mq.more s1 = mq.more s"
      using mq_inv_delete [OF inv' c(1)] by auto
    have "cells s1 p = Some (CMessage m)" using s1(3) m(1) c(1) by auto
    with s1 M m(1) l True p pd show ?thesis
      by (auto simp: get_message_def at_rest_def intro!: exI [of _ M])
  next
    case False
    with inv' M m l p pd show ?thesis by (auto simp: get_message_def at_rest_def)
  qed
qed

lemma free_at_rest:
  assumes "loop_at H (LFree n p) s b"
  shows "\<exists>s1. loop_step fb rb (LFree n p) s = okR (LCount n, s1) \<and> mq.more s1 = mq.more s \<and>
    loop_at H (LCount n) s1 b"
proof -
  obtain M m where inv: "mq_inv s H [] M" and m: "cells s p = Some (CMessage m)" and p: "p \<notin> set (addrs M)"
    using assms by auto
  obtain M' where M': "mq_inv s H [] M'" "vals M' = mwaiting b" using assms by (auto simp: at_rest_def)
  have "M' = M" using inv M'(1) by (auto simp: mq_inv_def mq_rep_def queue_rep_def dest: lchain_unique)
  moreover have "p \<notin> set (owned (vals M))" using mq_inv_owned [OF inv, of p] m by auto
  then obtain s1 where "delete_cell p s = okR s1" "mq_inv s1 H [] M" "mq.more s1 = mq.more s"
    using mq_inv_delete [OF inv m] p by auto
  ultimately show ?thesis using assms M'(2) by (auto simp: at_rest_def)
qed

lemma next_handler:
  assumes "loop_at H (LNext n p c) s b"
  shows "\<exists>h. get_handler c s = okR h \<and> loop_at H (LCall n p (pNextHandler h)) s b"
proof -
  obtain pre x xs where n: "0 < n" and h: "in_hand H p s b" and H: "subs_of H b = pre @ x # xs"
      and pd: "mpending b = vals xs" and c: "c = fst x"
    using assms by auto
  obtain hd where hd: "cells s c = Some (CHandler hd)" "lchain (hnode (cells s)) (pNextHandler hd) xs"
    using in_hand_chain [OF h, unfolded H] c by (auto simp: lseg_append split: option.splits dest!: hcell_SomeD)
  have "pNextHandler hd = (case xs of [] \<Rightarrow> NULL | y # _ \<Rightarrow> fst y)" using hd(2) by (cases xs) auto
  moreover have "subs_of H b = (pre @ [x]) @ xs" using H by simp
  ultimately have "loop_at H (LCall n p (pNextHandler hd)) s b" using n h pd unfolding loop_at.simps by blast
  with hd(1) show ?thesis by (simp add: get_handler_def)
qed

lemma first_handler:
  assumes "loop_at H (LLookup n p) s b" and "p \<noteq> NULL"
  shows "\<exists>c. loop_step fb rb (LLookup n p) s = okR (LCall n p c, s) \<and> loop_at H (LCall n p c) s b"
proof -
  have n: "0 < n" and h: "in_hand H p s b" and pd: "mpending b = vals (subs_of H b)" using assms by auto
  note v = in_hand_valid [OF h]
  let ?i = "nat (fst (last (mtaken b)))"
  obtain m where m: "get_message p s = okR m" "msgid m = fst (last (mtaken b))" using in_hand_message [OF h] by blast
  have "QueueBlock s ! ?i = (case H ?i of [] \<Rightarrow> NULL | y # _ \<Rightarrow> fst y)"
    using in_hand_chain [OF h] by (cases "H ?i") auto
  moreover have "subs_of H b = [] @ H ?i" by simp
  ultimately have "loop_at H (LCall n p (QueueBlock s ! ?i)) s b" using n h pd unfolding loop_at.simps by blast
  with m v assms(2) show ?thesis by (simp add: read_block_def)
qed

lemma last_handler:
  assumes "loop_at H (LCall n p NULL) s b"
  shows "loop_at H (LOwner n p) s b"
proof -
  obtain pre xs where xs: "mpending b = vals xs" "NULL = (case xs of [] \<Rightarrow> NULL | x # _ \<Rightarrow> fst x)"
      "subs_of H b = pre @ xs" "in_hand H p s b" "0 < n"
    using assms by auto
  have "xs = []" using in_hand_chain [OF xs(4), unfolded xs(3)] xs(2)
    by (cases xs) (auto simp: lseg_append)
  with xs show ?thesis by simp
qed

text \<open>Every statement is matched: first those around the critical section, then the delivery.\<close>

lemma test_matched:
  assumes rc: "recording lg fb rb" and "0 < n"
  shows "loop_at H (LTest n) s b \<Longrightarrow> matched lg H K (LTest n) s b (LDisable n) s b"
    and "loop_at H (LTest 0) s b \<Longrightarrow> matched lg H K (LTest 0) s b LDone s b"
    and "loop_at H (LDisable n) s b \<Longrightarrow> matched lg H K (LDisable n) s b (LFirst n) (INTDisableMasterInterrupts s) b"
    and "loop_at H (LCount n) s b \<Longrightarrow> matched lg H K (LCount n) s b (LTest (n - 1)) s b"
proof -
  obtain m where n: "nat n = Suc m" using assms(2) by (cases "nat n") auto
  show "loop_at H (LTest n) s b \<Longrightarrow> matched lg H K (LTest n) s b (LDisable n) s b"
    using assms(2) by (intro matched_silent [OF rc]) (auto simp: n)
qed (use assms(2) in \<open>auto simp: kernel_defs nat_diff_distrib intro!: matched_silent [OF rc]\<close>)

lemma first_matched:
  assumes rc: "recording lg fb rb" and at: "loop_at H (LFirst n) s b"
  shows "\<exists>pc'. loop_step fb rb (LFirst n) s = okR (pc', s) \<and> matched lg H K (LFirst n) s b pc' s b"
proof -
  obtain M where M: "mq_inv s H [] M" "vals M = mwaiting b" and n: "0 < n" "\<not> sreg_i s" "mpending b = []"
    using at by (auto simp: at_rest_def)
  have q: "lchain (mnode (cells s)) (MsgQueueFirst s) M" using M(1) by (simp add: mq_inv_def mq_rep_def queue_rep_def)
  show ?thesis
  proof (cases "MsgQueueFirst s = NULL")
    case True
    then have "mwaiting b = []" using q M(2) by simp
    then have "matched lg H K (LFirst n) s b (LEnable n NULL) s b" using at n by (intro matched_silent [OF rc]) auto
    with True show ?thesis by auto
  next
    case False
    then obtain l M' where "M = (MsgQueueFirst s, l) # M'" using q by (auto simp: lchain_non_NULL)
    then have "mq_inv s H [] ((MsgQueueFirst s, l) # M')" "mwaiting b = l # vals M'" using M by auto
    then have "loop_at H (LAdvance n (MsgQueueFirst s)) s b" using n unfolding loop_at.simps by blast
    then have "matched lg H K (LFirst n) s b (LAdvance n (MsgQueueFirst s)) s b"
      by (intro matched_silent [OF rc]) simp_all
    with False show ?thesis by auto
  qed
qed

lemma lookup_matched:
  assumes rc: "recording lg fb rb" and at: "loop_at H (LLookup n p) s b"
  shows "\<exists>pc'. loop_step fb rb (LLookup n p) s = okR (pc', s) \<and> matched lg H K (LLookup n p) s b pc' s b"
proof (cases "p = NULL")
  case True
  then have "matched lg H K (LLookup n p) s b (LCount n) s b" using at by (intro matched_silent [OF rc]) auto
  with True show ?thesis by auto
next
  case False
  obtain c where c: "loop_step fb rb (LLookup n p) s = okR (LCall n p c, s)" "loop_at H (LCall n p c) s b"
    using first_handler [OF at False] by blast
  then have "matched lg H K (LLookup n p) s b (LCall n p c) s b" by (intro matched_silent [OF rc]) auto
  with c(1) show ?thesis by blast
qed

lemma call_matched:
  assumes wb: "well_behaved fb rb" and rc: "recording lg fb rb" and at: "loop_at H (LCall n p c) s b"
  shows "\<exists>pc' s' b'. loop_step fb rb (LCall n p c) s = okR (pc', s') \<and> matched lg H K (LCall n p c) s b pc' s' b'"
proof (cases "c = NULL")
  case True
  then have "loop_at H (LOwner n p) s b" using last_handler at by blast
  then have "matched lg H K (LCall n p c) s b (LOwner n p) s b" by (intro matched_silent [OF rc]) auto
  with True show ?thesis by auto
qed (use match_call [OF at wb rc] in blast)

lemma release_matched:
  assumes rc: "recording lg fb rb"
  shows "loop_at H (LNext n p c) s b \<Longrightarrow>
      \<exists>pc' s'. loop_step fb rb (LNext n p c) s = okR (pc', s') \<and> matched lg H K (LNext n p c) s b pc' s' b"
    and "loop_at H (LOwner n p) s b \<Longrightarrow>
      \<exists>pc' s'. loop_step fb rb (LOwner n p) s = okR (pc', s') \<and> matched lg H K (LOwner n p) s b pc' s' b"
    and "loop_at H (LFree n p) s b \<Longrightarrow>
      \<exists>pc' s'. loop_step fb rb (LFree n p) s = okR (pc', s') \<and> matched lg H K (LFree n p) s b pc' s' b"
proof -
  note silent = matched_silent [OF rc]
  show "\<exists>pc' s'. loop_step fb rb (LNext n p c) s = okR (pc', s') \<and> matched lg H K (LNext n p c) s b pc' s' b"
    if at: "loop_at H (LNext n p c) s b"
  proof -
    obtain h where h: "get_handler c s = okR h" "loop_at H (LCall n p (pNextHandler h)) s b"
      using next_handler [OF at] by blast
    then have "matched lg H K (LNext n p c) s b (LCall n p (pNextHandler h)) s b" by (intro silent) auto
    with h(1) show ?thesis by auto
  qed
  show "\<exists>pc' s'. loop_step fb rb (LOwner n p) s = okR (pc', s') \<and> matched lg H K (LOwner n p) s b pc' s' b"
    if at: "loop_at H (LOwner n p) s b"
  proof -
    obtain s1 where s1: "loop_step fb rb (LOwner n p) s = okR (LFree n p, s1)" "mq.more s1 = mq.more s"
        "loop_at H (LFree n p) s1 b"
      using in_hand_free [of H p s b fb rb n] at by auto
    then have "matched lg H K (LOwner n p) s b (LFree n p) s1 b" by (intro silent) auto
    with s1(1) show ?thesis by blast
  qed
  show "\<exists>pc' s'. loop_step fb rb (LFree n p) s = okR (pc', s') \<and> matched lg H K (LFree n p) s b pc' s' b"
    if at: "loop_at H (LFree n p) s b"
  proof -
    obtain s1 where s1: "loop_step fb rb (LFree n p) s = okR (LCount n, s1)" "mq.more s1 = mq.more s"
        "loop_at H (LCount n) s1 b"
      using free_at_rest [OF at] by blast
    then have "matched lg H K (LFree n p) s b (LCount n) s1 b" by (intro silent) auto
    with s1(1) show ?thesis by blast
  qed
qed

lemma loop_step_matched:
  assumes at: "loop_at H pc s b" and pc: "pc \<noteq> LDone" and wb: "well_behaved fb rb" and rc: "recording lg fb rb"
    and K: "\<forall>i<26. length (H i) \<le> K"
  shows "\<exists>pc' s' b'. loop_step fb rb pc s = okR (pc', s') \<and> matched lg H K pc s b pc' s' b'"
proof (cases pc)
  case (LTest n)
  then consider "0 < n" | "n = 0" using at by force
  then show ?thesis
  proof cases
    case 1
    with LTest at have "matched lg H K pc s b (LDisable n) s b" using test_matched(1) [OF rc 1] by blast
    with LTest 1 show ?thesis by auto
  next
    case 2
    with LTest at have "matched lg H K pc s b LDone s b" using test_matched(2) [OF rc zero_less_one] by blast
    with LTest 2 show ?thesis by auto
  qed
next
  case (LDisable n)
  with at have "matched lg H K pc s b (LFirst n) (INTDisableMasterInterrupts s) b" using test_matched(3) [OF rc] by simp
  with LDisable show ?thesis by auto
next
  case (LFirst n)
  then show ?thesis using first_matched [OF rc] at by blast
next
  case (LAdvance n p)
  then show ?thesis using match_advance [OF _ rc K] at by blast
next
  case (LLast n p)
  then have "matched lg H K pc s b (LEnable n p) (if MsgQueueFirst s = NULL then s\<lparr>MsgQueueLast := NULL\<rparr> else s) b"
    using at by (intro matched_silent [OF rc]) (auto simp: in_hand_def)
  with LLast show ?thesis by auto
next
  case (LEnable n p)
  then have "matched lg H K pc s b (LLookup n p) (INTEnableMasterInterrupts s) b"
    using at by (intro matched_silent [OF rc]) (auto simp: kernel_defs)
  with LEnable show ?thesis by auto
next
  case (LCount n)
  with at have "matched lg H K pc s b (LTest (n - 1)) s b" using test_matched(4) [OF rc] by simp
  with LCount at show ?thesis by auto
next
  case (LLookup n p)
  with lookup_matched [OF rc] at show ?thesis by blast
next
  case (LCall n p c)
  with call_matched [OF wb rc] at show ?thesis by blast
next
  case (LNext n p c)
  with release_matched(1) [OF rc] at show ?thesis by blast
next
  case (LOwner n p)
  with release_matched(2) [OF rc] at show ?thesis by blast
next
  case (LFree n p)
  with release_matched(3) [OF rc] at show ?thesis by blast
qed (use pc in simp)

section \<open>Interrupts during delivery\<close>

text \<open>An interrupt while interrupts are enabled appends to the mailbox, at every program point.\<close>

lemma isr_at_rest:
  assumes "at_rest H s b" and "isr_post s s'"
  shows "\<exists>N. at_rest H s' (b\<lparr>mwaiting := mwaiting b @ N\<rparr>) \<and> mq.more s' = mq.more s"
  using assms isr_mq_inv [OF assms(2)] unfolding at_rest_def by fastforce

lemma isr_in_hand:
  assumes "in_hand H p s b" and "isr_post s s'"
  shows "\<exists>N. in_hand H p s' (b\<lparr>mwaiting := mwaiting b @ N\<rparr>) \<and> mq.more s' = mq.more s"
proof -
  obtain M m where inv: "mq_inv s H [last (mtaken b)] M" and M: "vals M = mwaiting b" and
      m: "cells s p = Some (CMessage m)" "letter_of m = last (mtaken b)" and p: "p \<notin> set (addrs M)"
      and e: "p \<noteq> NULL" "mtaken b \<noteq> []"
    using assms(1) by (auto simp: in_hand_def)
  obtain N where N: "mq_inv s' H [last (mtaken b)] (M @ N)" "set (addrs N) \<inter> dom (cells s) = {}"
      "keeps_cells (set (addrs M)) s s'" "mq.more s' = mq.more s"
    using isr_mq_inv [OF assms(2) inv] by blast
  have "cells s' p = Some (CMessage m)" "p \<notin> set (addrs (M @ N))"
    using keeps_cellsD [OF N(3) m(1) p] N(2) m(1) p by auto
  with N(1) M m(2) e have "in_hand H p s' (b\<lparr>mwaiting := mwaiting b @ vals N\<rparr>)" unfolding in_hand_def by fastforce
  with N(4) show ?thesis by blast
qed

lemma isr_loop_free:
  assumes "loop_at H (LFree n p) s b" and "isr_post s s'"
  shows "\<exists>N. loop_at H (LFree n p) s' (b\<lparr>mwaiting := mwaiting b @ N\<rparr>) \<and> mq.more s' = mq.more s"
proof -
  obtain M m where inv: "mq_inv s H [] M" and m: "cells s p = Some (CMessage m)" and p: "p \<notin> set (addrs M)"
      and n: "0 < n" and b: "mpending b = []"
    using assms(1) by (auto simp: at_rest_def)
  obtain M' where M': "mq_inv s H [] M'" "vals M' = mwaiting b" using assms(1) by (auto simp: at_rest_def)
  have M: "vals M = mwaiting b"
    using inv M' by (auto simp: mq_inv_def mq_rep_def queue_rep_def dest: lchain_unique)
  obtain N where N: "mq_inv s' H [] (M @ N)" "set (addrs N) \<inter> dom (cells s) = {}"
      "keeps_cells (set (addrs M)) s s'" "mq.more s' = mq.more s"
    using isr_mq_inv [OF assms(2) inv] by blast
  have "cells s' p = Some (CMessage m)" "p \<notin> set (addrs (M @ N))"
    using keeps_cellsD [OF N(3) m p] N(2) m p by auto
  with N(1) M n b have "loop_at H (LFree n p) s' (b\<lparr>mwaiting := mwaiting b @ vals N\<rparr>)"
    by (fastforce simp: at_rest_def)
  with N(4) show ?thesis by blast
qed

lemma isr_loop_at:
  assumes at: "loop_at H pc s b" and isr: "isr_post s s'" and en: "sreg_i s"
  shows "\<exists>N. loop_at H pc s' (b\<lparr>mwaiting := mwaiting b @ N\<rparr>) \<and> mq.more s' = mq.more s"
proof -
  have rest: "\<exists>N. at_rest H s' (b\<lparr>mwaiting := mwaiting b @ N\<rparr>) \<and> mq.more s' = mq.more s" if "at_rest H s b"
    using isr_at_rest [OF that isr] .
  have hand: "\<exists>N. in_hand H p s' (b\<lparr>mwaiting := mwaiting b @ N\<rparr>) \<and> mq.more s' = mq.more s" if "in_hand H p s b" for p
    using isr_in_hand [OF that isr] .
  show ?thesis
  proof (cases pc)
    case (LLookup n p)
    with at rest hand [of p] show ?thesis by (cases "p = NULL") auto
  next
    case (LCall n p c)
    with at hand [of p] show ?thesis by (auto simp del: split_paired_Ex)
  next
    case (LNext n p c)
    with at hand [of p] show ?thesis by (auto simp del: split_paired_Ex)
  next
    case (LFree n p)
    with isr_loop_free [OF _ isr] at show ?thesis by blast
  qed (use at rest hand en in auto)
qed

text \<open>What is fixed during one call of \<open>Loop\<close>: handlers, record, table, and where it started.\<close>

record 'a delivery_env =
  de_fn :: "('a mq_scheme) fn_bodies"
  de_recv :: "('a mq_scheme) recv_bodies"
  de_log :: "'a mq_scheme \<Rightarrow> delivery list"
  de_subs :: subs_table
  de_width :: nat
  de_called :: "delivery list"
  de_letters :: nat
  de_max :: nat

definition loop_sim :: "'a delivery_env \<Rightarrow> loop_pc \<Rightarrow> 'a mq_scheme \<Rightarrow> mailbox \<Rightarrow> bool" where
  "loop_sim e pc s b \<longleftrightarrow> well_behaved (de_fn e) (de_recv e) \<and> recording (de_log e) (de_fn e) (de_recv e) \<and>
     (\<forall>i<26. length (de_subs e i) \<le> de_width e) \<and> loop_at (de_subs e) pc s b \<and>
     de_log e s = de_called e @ mcalled b \<and> de_letters e \<le> length (mtaken b) + length (mwaiting b) \<and>
     length (mtaken b) + takes_left pc \<le> de_max e \<and>
     min (de_max e) (de_letters e) \<le> length (mtaken b) + takes_left pc"

interpretation loop_isr: interruptible "\<lambda>e. loop_step (de_fn e) (de_recv e)" "\<lambda>pc. pc = LDone" sreg_i isr_post
  "\<lambda>e. mail_step (\<lambda>i. vals (de_subs e i))" loop_sim
  "\<lambda>e pc b. statements_left (de_width e) pc (length (mpending b))"
proof
  fix e :: "'a delivery_env" and pc s b
  assume sim: "loop_sim e pc s b" and pc: "pc \<noteq> LDone"
  then obtain pc' s' b' where step: "loop_step (de_fn e) (de_recv e) pc s = okR (pc', s')"
      and m: "matched (de_log e) (de_subs e) (de_width e) pc s b pc' s' b'"
    using loop_step_matched [of "de_subs e" pc s b] unfolding loop_sim_def by blast
  have "loop_sim e pc' s' b'" using sim m unfolding loop_sim_def matched_def by auto
  with step m show "\<exists>pc' s' b'. loop_step (de_fn e) (de_recv e) pc s = okR (pc', s') \<and>
      (mail_step (\<lambda>i. vals (de_subs e i)))\<^sup>*\<^sup>* b b' \<and> loop_sim e pc' s' b' \<and>
      statements_left (de_width e) pc' (length (mpending b')) < statements_left (de_width e) pc (length (mpending b))"
    unfolding matched_def by blast
next
  fix e :: "'a delivery_env" and pc s b s'
  assume sim: "loop_sim e pc s b" and "sreg_i s" "isr_post s s'"
  then obtain N where N: "loop_at (de_subs e) pc s' (b\<lparr>mwaiting := mwaiting b @ N\<rparr>)" "mq.more s' = mq.more s"
    using isr_loop_at unfolding loop_sim_def by blast
  have "de_log e s' = de_log e s" using recording_more [OF _ N(2)] sim unfolding loop_sim_def by blast
  with sim N(1) have "loop_sim e pc s' (b\<lparr>mwaiting := mwaiting b @ N\<rparr>)" unfolding loop_sim_def by simp
  with mail_step.post [of "\<lambda>i. vals (de_subs e i)" b N] show "\<exists>b'. (mail_step (\<lambda>i. vals (de_subs e i)))\<^sup>*\<^sup>* b b' \<and>
      loop_sim e pc s' b' \<and> statements_left (de_width e) pc (length (mpending b')) =
        statements_left (de_width e) pc (length (mpending b))"
    by (intro exI [of _ "b\<lparr>mwaiting := mwaiting b @ N\<rparr>"]) auto
qed

lemma loop_sim_start:
  assumes "mq_inv s H [] M" and "well_behaved fb rb" and "recording lg fb rb" and "\<forall>i<26. length (H i) \<le> K"
  shows "loop_sim \<lparr>de_fn = fb, de_recv = rb, de_log = lg, de_subs = H, de_width = K, de_called = lg s,
      de_letters = length M, de_max = n\<rparr> (LTest (int n)) s
    \<lparr>mtaken = [], mwaiting = vals M, mpending = [], mcalled = []\<rparr>"
  using assms by (auto simp: loop_sim_def at_rest_def)

abbreviation loop_run :: "('a mq_scheme) fn_bodies \<Rightarrow> ('a mq_scheme) recv_bodies \<Rightarrow> nat \<Rightarrow>
    loop_pc \<times> 'a mq_scheme \<Rightarrow> loop_pc \<times> 'a mq_scheme \<Rightarrow> bool" where
  "loop_run fb rb \<equiv> irun (loop_step fb rb) (\<lambda>pc. pc = LDone) sreg_i isr_post"

lemma loop_run_matched:
  assumes "mq_inv s H [] M" and "well_behaved fb rb" and "recording lg fb rb" and "\<forall>i<26. length (H i) \<le> K"
    and run: "loop_run fb rb k (LTest (int n), s) (pc, s')"
  obtains b where "mail_inv (\<lambda>i. vals (H i)) (vals M) b" "loop_at H pc s' b" "lg s' = lg s @ mcalled b"
    "length (mtaken b) + takes_left pc \<le> n" "min n (length M) \<le> length (mtaken b) + takes_left pc"
    "k + statements_left K pc (length (mpending b)) \<le> n * (11 + 2 * K) + 1"
proof -
  define e where "e = \<lparr>de_fn = fb, de_recv = rb, de_log = lg, de_subs = H, de_width = K, de_called = lg s,
      de_letters = length M, de_max = n\<rparr>"
  have e: "de_fn e = fb" "de_recv e = rb" "de_log e = lg" "de_subs e = H" "de_width e = K" "de_called e = lg s"
      "de_letters e = length M" "de_max e = n" by (simp_all add: e_def)
  let ?b = "\<lparr>mtaken = [], mwaiting = vals M, mpending = [], mcalled = []\<rparr>"
  have "loop_sim e (LTest (int n)) s ?b" unfolding e_def by (rule loop_sim_start [OF assms(1-4)])
  with loop_isr.run_sim [of e k "(LTest (int n), s)" "(pc, s')" ?b, unfolded e] run obtain b where
    b: "(mail_step (\<lambda>i. vals (H i)))\<^sup>*\<^sup>* ?b b" "loop_sim e pc s' b"
      "k + statements_left K pc (length (mpending b)) \<le> statements_left K (LTest (int n)) 0" by auto
  have "mail_inv (\<lambda>i. vals (H i)) (vals M) b"
    by (rule mail_steps_inv [OF b(1)]) (simp add: mail_inv_def calls_of_def)
  moreover have "loop_at H pc s' b" "lg s' = lg s @ mcalled b"
      "length (mtaken b) + takes_left pc \<le> n" "min n (length M) \<le> length (mtaken b) + takes_left pc"
    using b(2) by (simp_all add: loop_sim_def e)
  ultimately show thesis using that b(3) by simp
qed

text \<open>A call of \<open>Loop\<close> can always be completed.\<close>

lemma loop_completes:
  assumes "mq_inv s H [] M" and "well_behaved fb rb" and "recording lg fb rb"
  shows "\<exists>k s'. loop_run fb rb k (LTest (int n), s) (LDone, s')"
proof -
  have "\<forall>i<26. length (H i) \<le> Max ((\<lambda>i. length (H i)) ` {..<26})" by (auto intro!: Max_ge)
  from loop_isr.run_finishes [OF loop_sim_start [OF assms this, of n]] show ?thesis by auto
qed

lemma demo_width: "\<forall>i<26. length (demo_subs i) \<le> 2"
  by (simp add: demo_subs_def)

section \<open>Properties of delivery under interrupts\<close>

text \<open>
  Property C26. Interrupts cannot make \<open>MQClass::Loop\<close> fault or hang: after any number of its
  statements, with posts from interrupt routines between them wherever interrupts are enabled,
  the next statement does not fault, and the number of statements executed is at most
  \<open>n (2 K + 11) + 1\<close>, where \<open>K\<close> bounds the number of subscribers of an id, however many
  messages the interrupts post.
\<close>

theorem Loop_interrupted_safe:
  assumes "mq_inv s H [] M" and "well_behaved fb rb" and "recording lg fb rb" and "\<forall>i<26. length (H i) \<le> K"
    and "loop_run fb rb k (LTest (int n), s) (pc, s')"
  shows "k \<le> n * (11 + 2 * K) + 1 \<and> (pc = LDone \<or> (\<exists>c. loop_step fb rb pc s' = okR c))"
proof -
  obtain b where "loop_at H pc s' b" "k + statements_left K pc (length (mpending b)) \<le> n * (11 + 2 * K) + 1"
    using loop_run_matched [OF assms] by blast
  with loop_step_matched [OF _ _ assms(2-4)] show ?thesis by (cases "pc = LDone") fastforce+
qed

theorem Loop_interrupted_safe_witness:
  "\<exists>s1. isr_post (demo_mq []) s1 \<and> loop_run rec_fn rec_recv 1 (LTest (int 2), demo_mq []) (LDisable 2, s1) \<and>
     (\<exists>c. loop_step rec_fn rec_recv (LDisable 2) s1 = okR c)"
proof -
  obtain s1 where s1: "isr_post (demo_mq ([] :: delivery list)) s1" using demo_isr [of "[]"] ..
  have run: "loop_run rec_fn rec_recv 1 (LTest (int 2), demo_mq []) (LDisable 2, s1)"
    unfolding One_nat_def by (rule irun.main [OF demo_interrupted [OF s1]]) simp_all
  from Loop_interrupted_safe [OF demo_inv rec_well_behaved rec_recording demo_width run]
  have "\<exists>c. loop_step rec_fn rec_recv (LDisable 2) s1 = okR c" by blast
  with s1 run show ?thesis by blast
qed



end
