(* ===== verification/Main_Steps.thy ===== *)
theory Main_Steps
  imports Loop_Interrupts Kernel_Main
begin

text \<open>
  The main program, \<open>for(;;) loop();\<close>, statement by statement: the statements of
  \<open>MQClass::Loop(2)\<close> (\<open>Loop_Steps\<close>), then those of \<open>TaskRing::Loop\<close>, and again. Interrupt
  routines that post may run between any two statements while interrupts are enabled. The
  program never stops, so its properties are those of all finite runs.
\<close>

section \<open>The statements of the main program\<close>

datatype main_pc =
    MMessages loop_pc    \<comment> \<open>inside \<open>OS.MessageQueue.Loop(2)\<close>\<close>
  | MCursor              \<comment> \<open>\<open>if(internal->pCur==NULL) internal->pCur=internal->pHead\<close>\<close>
  | MCall                \<comment> \<open>\<open>if(internal->pCur) internal->pCur->Call()\<close>\<close>
  | MNext                \<comment> \<open>\<open>internal->pCur=internal->pCur->pNext\<close>\<close>

abbreviation main_start :: main_pc where "main_start \<equiv> MMessages (LTest 2)"

fun main_step :: "('a taskring_scheme) fn_bodies \<Rightarrow> ('a taskring_scheme) recv_bodies \<Rightarrow>
    ('a taskring_scheme) task_fns \<Rightarrow> ('a taskring_scheme) task_loops \<Rightarrow> main_pc \<Rightarrow> 'a taskring_scheme \<Rightarrow>
    (main_pc \<times> 'a taskring_scheme) res" where
  "main_step fb rb tf tc (MMessages pc) s =
     (if pc = LDone then okR (MCursor, s)
      else bindR (loop_step fb rb pc s) (\<lambda>(pc', s'). okR (MMessages pc', s')))"
| "main_step fb rb tf tc MCursor s = okR (MCall, if pCur s = NULL then s\<lparr>pCur := pHead s\<rparr> else s)"
| "main_step fb rb tf tc MCall s =
     (if pCur s \<noteq> NULL then
        bindR (get_task (pCur s) s) (\<lambda>t. bindR (Task_Call tf tc t s) (\<lambda>s1. okR (MNext, s1)))
      else okR (main_start, s))"
| "main_step fb rb tf tc MNext s =
     bindR (get_task (pCur s) s) (\<lambda>t. okR (main_start, s\<lparr>pCur := pNext t\<rparr>))"

text \<open>Runs of the main program with interrupts; \<open>k\<close> counts its statements.\<close>

abbreviation main_run :: "('a taskring_scheme) fn_bodies \<Rightarrow> ('a taskring_scheme) recv_bodies \<Rightarrow>
    ('a taskring_scheme) task_fns \<Rightarrow> ('a taskring_scheme) task_loops \<Rightarrow> nat \<Rightarrow>
    main_pc \<times> 'a taskring_scheme \<Rightarrow> main_pc \<times> 'a taskring_scheme \<Rightarrow> bool" where
  "main_run fb rb tf tc \<equiv> irun (main_step fb rb tf tc) (\<lambda>_. False) sreg_i isr_post"

section \<open>The statements and the function \<open>loop\<close>\<close>

lemma main_front:
  assumes "main_step fb rb tf tc pc s = okR c" and "main_run fb rb tf tc k c c'"
  shows "main_run fb rb tf tc (Suc k) (pc, s) c'"
  using irun_front [OF assms(2) _ assms(1)] by simp

lemma messages_run:
  assumes "irun (loop_step fb rb) (\<lambda>pc. pc = LDone) (\<lambda>_. False) isr_post k (pc, s) (pc', s')"
  shows "main_run fb rb tf tc k (MMessages pc, s) (MMessages pc', s')"
  using assms
proof (induction k "(pc, s)" "(pc', s')" arbitrary: pc' s' rule: irun.induct)
  case start
  show ?case by (rule irun.start)
next
  case (main k pc1 s1)
  then show ?case by (intro irun.main [of _ _ _ _ k _ "MMessages pc1" s1]) auto
qed simp

lemma ring_runs:
  assumes "TaskRing_Loop tf tc s = okR s'"
  shows "\<exists>k. main_run fb rb tf tc k (MCursor, s) (main_start, s')"
proof -
  let ?s = "if pCur s = NULL then s\<lparr>pCur := pHead s\<rparr> else s"
  have "\<exists>k. main_run fb rb tf tc k (MCall, ?s) (main_start, s')"
  proof (cases "pCur ?s = NULL")
    case True
    then have "s' = ?s" using assms by (simp add: TaskRing_Loop_def Let_def)
    with True main_front [OF _ irun.start, of fb rb tf tc MCall ?s] show ?thesis by auto
  next
    case False
    then obtain t s1 t1 where r: "get_task (pCur ?s) ?s = okR t" "Task_Call tf tc t ?s = okR s1"
        "get_task (pCur s1) s1 = okR t1" "s' = s1\<lparr>pCur := pNext t1\<rparr>"
      using assms by (auto simp: TaskRing_Loop_def Let_def bindR_ok_iff split: if_splits)
    have "main_run fb rb tf tc (Suc 0) (MNext, s1) (main_start, s')"
      by (rule main_front [OF _ irun.start]) (simp add: r)
    moreover have "main_step fb rb tf tc MCall ?s = okR (MNext, s1)" using False r(1,2) by (simp del: if_split)
    ultimately show ?thesis using main_front by blast
  qed
  moreover have "main_step fb rb tf tc MCursor s = okR (MCall, ?s)" by simp
  ultimately show ?thesis using main_front by blast
qed

text \<open>Without interrupts one round of the statements computes \<open>loop\<close>.\<close>

lemma loop_runs:
  assumes "loop fb rb tf tc s = okR s'"
  shows "\<exists>k. main_run fb rb tf tc k (main_start, s) (main_start, s')"
proof -
  obtain s1 where s1: "MQ_Loop fb rb 2 s = okR s1" "TaskRing_Loop tf tc s1 = okR s'"
    using assms by (auto simp: loop_def bindR_ok_iff)
  obtain k1 where "main_run fb rb tf tc k1 (main_start, s) (MMessages LDone, s1)"
    using MQ_Loop_runs [OF s1(1)] messages_run unfolding plain_run_def by blast
  moreover obtain k2 where "main_run fb rb tf tc (Suc k2) (MMessages LDone, s1) (main_start, s')"
    using ring_runs [OF s1(2)] main_front [of fb rb tf tc "MMessages LDone" s1] by fastforce
  ultimately show ?thesis using irun_trans by blast
qed

section \<open>The ring during a run\<close>

text \<open>At every statement the cursor is null or at a node of the ring.\<close>

definition ring_any :: "'a taskring_scheme \<Rightarrow> bool" where
  "ring_any s \<longleftrightarrow> (\<exists>T. ring_rep s T \<and> (pCur s = NULL \<or> pCur s \<in> set (addrs T)))"

lemma ring_any_frame:
  assumes "ring_any s" and "heap_wf s'" and "mq.more s' = mq.more s"
    and "\<And>p t. cells s p = Some (CTask t) \<Longrightarrow> cells s' p = Some (CTask t)"
  shows "ring_any s'"
proof -
  obtain T where T: "ring_rep s T" "pCur s = NULL \<or> pCur s \<in> set (addrs T)" using assms(1) by (auto simp: ring_any_def)
  have "ring_rep s' T" by (rule ring_rep_frame [OF T(1) assms(2)]) (use more_fields [OF assms(3)] assms(4) in auto)
  with T(2) more_fields [OF assms(3)] show ?thesis by (auto simp: ring_any_def)
qed

lemma ring_any_grow:
  assumes "ring_any s" and "\<And>T. ring_rep s T \<Longrightarrow> \<exists>R. ring_rep s' (R @ T)" and "pCur s' = pCur s"
  shows "ring_any s'"
proof -
  obtain T where T: "ring_rep s T" "pCur s = NULL \<or> pCur s \<in> set (addrs T)" using assms(1) by (auto simp: ring_any_def)
  from assms(2) [OF T(1)] obtain R where "ring_rep s' (R @ T)" ..
  with T(2) assms(3) show ?thesis unfolding ring_any_def by (intro exI [of _ "R @ T"]) auto
qed

lemma ring_any_wf: "ring_any s \<Longrightarrow> heap_wf s"
  by (auto simp: ring_any_def ring_rep_def)

lemma ring_any_fields [simp]:
  "ring_any (s\<lparr>sreg_i := b\<rparr>) = ring_any s" "ring_any (s\<lparr>MsgQueueFirst := q\<rparr>) = ring_any s"
  "ring_any (s\<lparr>MsgQueueLast := q\<rparr>) = ring_any s"
  by (simp_all add: ring_any_def ring_rep_def heap_wf_def)

lemma delete_ring_any:
  assumes "ring_any s" and "delete_cell p s = okR s'" and "\<forall>t. cells s p \<noteq> Some (CTask t)"
    and "p \<noteq> NULL"
  shows "ring_any s'"
proof (rule ring_any_frame [OF assms(1)])
  have s': "s' = s\<lparr>cells := (cells s)(p := None), pool := p # pool s\<rparr>" and c: "cells s p \<noteq> None"
    using assms(2) by (auto simp: delete_cell_def split: option.splits)
  show "heap_wf s'" using ring_any_wf [OF assms(1)] s' c assms(4) by (auto simp: heap_wf_def list_all_iff)
  show "mq.more s' = mq.more s" "\<And>q t. cells s q = Some (CTask t) \<Longrightarrow> cells s' q = Some (CTask t)"
    using s' assms(3) by auto
qed

lemma loop_step_ring:
  assumes at: "loop_at H pc s b" and step: "loop_step fb rb pc s = okR (pc', s')" and gh: "good_handlers fb rb"
    and ring: "ring_any s"
  shows "ring_any s'"
proof (cases pc)
  case (LCall n p c)
  show ?thesis
  proof (cases "c = NULL")
    case False
    then obtain h and m :: message where s': "call_sub fb rb (subscriber_of h) (msgid m) (msg_context m) s = okR s'"
      using step LCall by (auto simp: bindR_ok_iff Call_eq)
    obtain F M where inv: "mq_inv s H F M" using at LCall by (auto simp: in_hand_def)
    show ?thesis
      using ring_any_grow [OF ring, of s'] good_handlers_ring [OF gh inv _ s'] gh inv ring
      unfolding ring_any_def by (metis set_append UnCI map_append)
  qed (use step LCall ring in auto)
next
  case (LOwner n p)
  obtain M m where inv: "mq_inv s H [last (mtaken b)] M" and m: "cells s p = Some (CMessage m)"
      "letter_of m = last (mtaken b)"
    using at LOwner by (auto simp: in_hand_def)
  have own: "cells s (msg_context m) = Some CBlock" if "CallerOwns m \<noteq> MQ_OWNER_CALLER" "msg_context m \<noteq> NULL"
    using mq_inv_owned [OF inv, of "msg_context m"] that m(2) by (cases "last (mtaken b)") (auto simp: letter_of_def)
  show ?thesis
  proof (cases "CallerOwns m \<noteq> MQ_OWNER_CALLER \<and> msg_context m \<noteq> NULL")
    case True
    then have "delete_cell (msg_context m) s = okR s'"
      using step LOwner m(1) by (auto simp: get_message_def bindR_ok_iff)
    from delete_ring_any [OF ring this] own True show ?thesis by auto
  next
    case False
    then show ?thesis using step LOwner m(1) ring by (auto simp: get_message_def bindR_ok_iff)
  qed
next
  case (LFree n p)
  then obtain m where m: "cells s p = Some (CMessage m)" using at by auto
  then have "p \<noteq> NULL" using ring_any_wf [OF ring] by (auto simp: heap_wf_def)
  moreover have "delete_cell p s = okR s'" using step LFree by (auto simp: bindR_ok_iff)
  ultimately show ?thesis using delete_ring_any [OF ring _ _] m by auto
qed (use step ring in \<open>auto simp: kernel_defs bindR_ok_iff Let_def split: if_splits\<close>)

lemma isr_ring_any:
  assumes "ring_any s" and "isr_post s s'" and "mq_inv s H F M"
  shows "ring_any s'"
proof -
  obtain N where N: "mq_inv s' H F (M @ N)" "keeps_cells (set (addrs M)) s s'" "mq.more s' = mq.more s"
    using isr_mq_inv [OF assms(2,3)] by blast
  show ?thesis
    by (rule ring_any_frame [OF assms(1) mq_inv_heap [OF N(1)] N(3)])
      (use keeps_cellsD [OF N(2)] mq_inv_waiting [OF assms(3)] in fastforce)
qed

lemma loop_at_inv: "loop_at H pc s b \<Longrightarrow> sreg_i s \<Longrightarrow> \<exists>F M. mq_inv s H F M"
  by (cases pc) (auto simp: at_rest_def in_hand_def split: if_splits)

section \<open>The main program refines the mailbox\<close>

fun main_at :: "subs_table \<Rightarrow> main_pc \<Rightarrow> 'a taskring_scheme \<Rightarrow> mailbox \<Rightarrow> bool" where
  "main_at H (MMessages pc) s b \<longleftrightarrow> loop_at H pc s b \<and> ring_any s"
| "main_at H MCursor s b \<longleftrightarrow> at_rest H s b \<and> ring_any s"
| "main_at H MCall s b \<longleftrightarrow> at_rest H s b \<and> ring_any s"
| "main_at H MNext s b \<longleftrightarrow> at_rest H s b \<and> ring_any s \<and> pCur s \<noteq> NULL"

text \<open>Messages that may still be taken in this round, and statements left in it.\<close>

fun main_takes :: "main_pc \<Rightarrow> nat" where
  "main_takes (MMessages pc) = takes_left pc"
| "main_takes _ = 0"

fun main_left :: "nat \<Rightarrow> main_pc \<Rightarrow> nat \<Rightarrow> nat" where
  "main_left K (MMessages pc) q = statements_left K pc q + 4"
| "main_left K MCursor q = 3"
| "main_left K MCall q = 2"
| "main_left K MNext q = 1"

text \<open>A statement continues its round or, the last one, begins the next.\<close>

definition advance :: "nat \<Rightarrow> main_pc \<Rightarrow> mailbox \<Rightarrow> main_pc \<Rightarrow> mailbox \<Rightarrow> bool" where
  "advance K pc b pc' b' \<longleftrightarrow> length (mtaken b) \<le> length (mtaken b') \<and>
     length (mtaken b) + length (mwaiting b) \<le> length (mtaken b') + length (mwaiting b') \<and>
     (main_left K pc' (length (mpending b')) < main_left K pc (length (mpending b)) \<and>
        (length (mtaken b') + main_takes pc' = length (mtaken b) + main_takes pc \<or>
         mwaiting b = [] \<and> b' = b \<and> Suc (main_takes pc') = main_takes pc) \<or>
      pc' = main_start \<and> main_takes pc = 0)"

definition stepped :: "('a \<Rightarrow> delivery list) \<Rightarrow> subs_table \<Rightarrow> nat \<Rightarrow> main_pc \<Rightarrow> 'a taskring_scheme \<Rightarrow> mailbox \<Rightarrow>
    main_pc \<Rightarrow> 'a taskring_scheme \<Rightarrow> mailbox \<Rightarrow> bool" where
  "stepped L H K pc s b pc' s' b' \<longleftrightarrow> main_at H pc' s' b' \<and> (mail_step (\<lambda>i. vals (H i)))\<^sup>*\<^sup>* b b' \<and>
     (\<exists>new. L (taskring.more s') = L (taskring.more s) @ new \<and> mcalled b' = mcalled b @ new) \<and> advance K pc b pc' b'"

lemma mail_taken_mono: "(mail_step A)\<^sup>*\<^sup>* b b' \<Longrightarrow> length (mtaken b) \<le> length (mtaken b')"
  by (induction rule: rtranclp_induct) (auto elim!: mail_step.cases)

lemma stepped_silent:
  assumes "main_at H pc' s' b" and "taskring.more s' = taskring.more s"
    and "main_left K pc' (length (mpending b)) < main_left K pc (length (mpending b)) \<and> main_takes pc' = main_takes pc \<or>
      pc' = main_start \<and> main_takes pc = 0"
  shows "stepped L H K pc s b pc' s' b"
  using assms by (auto simp: stepped_def advance_def)

lemma at_rest_pCur [simp]: "at_rest H (s\<lparr>pCur := c\<rparr>) b = at_rest H s b"
  by (simp add: at_rest_def)

lemma ring_any_node:
  assumes "ring_any s" and "pCur s \<noteq> NULL"
  obtains t where "cells s (pCur s) = Some (CTask t)" "ring_any (s\<lparr>pCur := pNext t\<rparr>)"
proof -
  obtain T where T: "ring_rep s T" "pCur s \<in> set (addrs T)" using assms by (auto simp: ring_any_def)
  then obtain k where k: "k < length T" "pCur s = fst (T ! k)" by (auto simp: in_set_conv_nth)
  obtain t where t: "cells s (pCur s) = Some (CTask t)"
      "pNext t = (if Suc k < length T then fst (T ! Suc k) else NULL)"
    using ring_at_node(2) [OF T(1) k(1)] k(2) by auto
  have "ring_rep (s\<lparr>pCur := pNext t\<rparr>) T" using T(1) by (simp add: ring_rep_def heap_wf_def)
  moreover have "pNext t = NULL \<or> pNext t \<in> set (addrs T)" using t(2) by auto
  ultimately have "ring_any (s\<lparr>pCur := pNext t\<rparr>)" by (auto simp: ring_any_def)
  with t(1) that show thesis by blast
qed

lemma cursor_ring_any:
  assumes "ring_any s"
  shows "ring_any (if pCur s = NULL then s\<lparr>pCur := pHead s\<rparr> else s)"
proof (cases "pCur s = NULL")
  case True
  obtain T where T: "ring_rep s T" using assms by (auto simp: ring_any_def)
  then have "pHead s = NULL \<or> pHead s \<in> set (addrs T)" by (cases T) (auto simp: ring_rep_def)
  moreover have "ring_rep (s\<lparr>pCur := pHead s\<rparr>) T" using T by (simp add: ring_rep_def heap_wf_def)
  ultimately show ?thesis using True by (auto simp: ring_any_def)
qed (use assms in simp)

text \<open>The call of a task: it may post and register.\<close>

lemma task_stepped:
  assumes at: "main_at H MCall s b" and gt: "good_tasks tf tc" and ob: "observed L fb rb tf tc" and c: "pCur s \<noteq> NULL"
  shows "\<exists>s' b'. main_step fb rb tf tc MCall s = okR (MNext, s') \<and> stepped L H K MCall s b MNext s' b'"
proof -
  have rest: "at_rest H s b" and ring: "ring_any s" using at by auto
  obtain t where t: "cells s (pCur s) = Some (CTask t)" using ring_any_node [OF ring c] by blast
  obtain M where M: "mq_inv s H [] M" "vals M = mwaiting b" "mpending b = []" using rest by (auto simp: at_rest_def)
  obtain T where T: "ring_rep s T" "pCur s \<in> set (addrs T)" using ring c by (auto simp: ring_any_def)
  obtain s1 R where s1: "run_job tf tc (job_of t) s = okR s1" "quiet s s1" "ring_rep s1 (R @ T)" "pCur s1 = pCur s"
    using gt M(1) T(1) unfolding good_tasks_def by blast
  obtain N where N: "mq_inv s1 H [] (M @ N)" using quietE [OF s1(2) M(1)] by metis
  let ?b = "b\<lparr>mwaiting := mwaiting b @ vals N\<rparr>"
  have "ring_any s1" using s1(3,4) T(2) unfolding ring_any_def by (intro exI [of _ "R @ T"]) auto
  moreover have "at_rest H s1 ?b" using N M(2,3) by (auto simp: at_rest_def intro!: exI [of _ "M @ N"])
  moreover have "L (taskring.more s1) = L (taskring.more s)" using ob s1(1) unfolding observed_def by blast
  ultimately have "stepped L H K MCall s b MNext s1 ?b"
    using mail_step.post [of "\<lambda>i. vals (H i)" b "vals N"] s1(4) c by (auto simp: stepped_def advance_def)
  moreover have "main_step fb rb tf tc MCall s = okR (MNext, s1)"
    using c t s1(1) by (simp add: get_task_def Task_Call_eq)
  ultimately show ?thesis by blast
qed

lemma main_step_stepped:
  assumes at: "main_at H pc s b" and gh: "good_handlers fb rb" and gt: "good_tasks tf tc"
    and ob: "observed L fb rb tf tc" and K: "\<forall>i<26. length (H i) \<le> K"
  shows "\<exists>pc' s' b'. main_step fb rb tf tc pc s = okR (pc', s') \<and> stepped L H K pc s b pc' s' b'"
proof (cases pc)
  case (MMessages lpc)
  show ?thesis
  proof (cases "lpc = LDone")
    case True
    then have "stepped L H K pc s b MCursor s b" using at MMessages by (intro stepped_silent) auto
    with MMessages True show ?thesis by auto
  next
    case False
    have wb: "well_behaved fb rb" using gh by (simp add: good_handlers_def)
    have la: "loop_at H lpc s b" and ring: "ring_any s" using at MMessages by auto
    from loop_step_matched [OF la False wb observed_recording [OF ob] K] obtain pc' s' b' where
      m: "loop_step fb rb lpc s = okR (pc', s')" "matched (\<lambda>s. L (taskring.more s)) H K lpc s b pc' s' b'" by blast
    have "ring_any s'" by (rule loop_step_ring [OF la m(1) gh ring])
    with m(2) mail_taken_mono have "stepped L H K pc s b (MMessages pc') s' b'"
      using MMessages unfolding matched_def stepped_def advance_def by auto
    with m(1) MMessages False show ?thesis by auto
  qed
next
  case MCursor
  let ?s = "if pCur s = NULL then s\<lparr>pCur := pHead s\<rparr> else s"
  have "stepped L H K pc s b MCall ?s b"
    using at MCursor cursor_ring_any [of s] by (intro stepped_silent) auto
  with MCursor show ?thesis by auto
next
  case MCall
  show ?thesis
  proof (cases "pCur s = NULL")
    case True
    then have "stepped L H K pc s b main_start s b" using at MCall by (intro stepped_silent) auto
    with MCall True show ?thesis by auto
  qed (use task_stepped [OF _ gt ob] at MCall in blast)
next
  case MNext
  then obtain t where t: "cells s (pCur s) = Some (CTask t)" "ring_any (s\<lparr>pCur := pNext t\<rparr>)"
    using at ring_any_node [of s] by auto
  then have "stepped L H K pc s b main_start (s\<lparr>pCur := pNext t\<rparr>) b"
    using at MNext by (intro stepped_silent) auto
  with MNext t(1) show ?thesis by (auto simp: get_task_def)
qed

section \<open>Progress\<close>

text \<open>
  After \<open>k\<close> statements the program is in round \<open>Suc j\<close>, which has not used up its statements,
  and each completed round has taken two messages or emptied the queue of the
  \<open>l\<close> letters that were waiting at the start.
\<close>

definition progress :: "nat \<Rightarrow> nat \<Rightarrow> nat \<Rightarrow> nat \<Rightarrow> main_pc \<Rightarrow> mailbox \<Rightarrow> bool" where
  "progress l K j k pc b \<longleftrightarrow> k + main_left K pc (length (mpending b)) \<le> (27 + 4 * K) * Suc j \<and> main_takes pc \<le> 2 \<and>
     l \<le> length (mtaken b) + length (mwaiting b) \<and>
     (2 * Suc j \<le> length (mtaken b) + main_takes pc \<or> l \<le> length (mtaken b))"

lemma progress_step:
  assumes p: "progress l K j k pc b" and a: "advance K pc b pc' b'"
  shows "\<exists>j'. progress l K j' (Suc k) pc' b'"
  using a unfolding advance_def
proof (elim conjE disjE)
  assume "pc' = main_start" "main_takes pc = 0"
  moreover have "0 < main_left K pc (length (mpending b))" by (cases pc) auto
  ultimately have "progress l K (Suc j) (Suc k) pc' b'" using p a unfolding progress_def advance_def by auto
  then show ?thesis ..
qed (use p in \<open>auto simp: progress_def intro!: exI [of _ j]\<close>)

lemma progress_isr: "progress l K j k pc b \<Longrightarrow> progress l K j k pc (b\<lparr>mwaiting := mwaiting b @ N\<rparr>)"
  by (simp add: progress_def)

lemma isr_main_at:
  assumes at: "main_at H pc s b" and isr: "isr_post s s'" and en: "sreg_i s"
  shows "\<exists>N. main_at H pc s' (b\<lparr>mwaiting := mwaiting b @ N\<rparr>) \<and> mq.more s' = mq.more s"
proof (cases pc)
  case (MMessages lpc)
  then have la: "loop_at H lpc s b" "ring_any s" using at by auto
  then have "ring_any s'" using isr_ring_any [OF _ isr] loop_at_inv [OF la(1) en] by blast
  with isr_loop_at [OF la(1) isr en] MMessages show ?thesis by auto
next
  case MNext
  then have r: "at_rest H s b" "ring_any s" "pCur s \<noteq> NULL" using at by auto
  obtain N where N: "at_rest H s' (b\<lparr>mwaiting := mwaiting b @ N\<rparr>)" "mq.more s' = mq.more s"
    using isr_at_rest [OF r(1) isr] by blast
  have "ring_any s'" using isr_ring_any [OF r(2) isr] r(1) by (auto simp: at_rest_def)
  with N r(3) more_fields [OF N(2)] MNext show ?thesis by auto
qed (use at isr_at_rest [OF _ isr] isr_ring_any [OF _ isr] in \<open>auto simp: at_rest_def\<close>)

lemma main_run_progress:
  assumes gh: "good_handlers fb rb" and gt: "good_tasks tf tc" and ob: "observed L fb rb tf tc"
    and K: "\<forall>i<26. length (H i) \<le> K" and start: "main_at H main_start s \<lparr>mtaken = [], mwaiting = ls, mpending = [], mcalled = []\<rparr>"
    and run: "main_run fb rb tf tc k (main_start, s) (pc, s')"
  shows "\<exists>b j. main_at H pc s' b \<and> mail_inv (\<lambda>i. vals (H i)) ls b \<and>
    L (taskring.more s') = L (taskring.more s) @ mcalled b \<and> progress (length ls) K j k pc b"
  using run
proof (induction k "(main_start, s)" "(pc, s')" arbitrary: pc s' rule: irun.induct)
  case start
  let ?b = "\<lparr>mtaken = [], mwaiting = ls, mpending = [], mcalled = []\<rparr>"
  have "mail_inv (\<lambda>i. vals (H i)) ls ?b" by (simp add: mail_inv_def calls_of_def)
  moreover have "progress (length ls) K 0 0 main_start ?b" by (simp add: progress_def)
  ultimately show ?case using \<open>main_at H main_start s ?b\<close> by fastforce
next
  case (main k pc1 s1)
  obtain b j where b: "main_at H pc1 s1 b" "mail_inv (\<lambda>i. vals (H i)) ls b"
      "L (taskring.more s1) = L (taskring.more s) @ mcalled b" "progress (length ls) K j k pc1 b"
    using main.hyps(2) by blast
  from main_step_stepped [OF b(1) gh gt ob K] main.hyps(4) obtain b' where "stepped L H K pc1 s1 b pc s' b'" by auto
  then have s': "main_at H pc s' b'" "(mail_step (\<lambda>i. vals (H i)))\<^sup>*\<^sup>* b b'" "advance K pc1 b pc b'"
      "\<exists>new. L (taskring.more s') = L (taskring.more s1) @ new \<and> mcalled b' = mcalled b @ new"
    by (auto simp: stepped_def)
  from progress_step [OF b(4) s'(3)] mail_steps_inv [OF s'(2) b(2)] s'(1,4) b(3) show ?case by auto
next
  case (irq k pc1 s1 s2)
  obtain b j where b: "main_at H pc1 s1 b" "mail_inv (\<lambda>i. vals (H i)) ls b"
      "L (taskring.more s1) = L (taskring.more s) @ mcalled b" "progress (length ls) K j k pc1 b"
    using irq.hyps(2) by blast
  obtain N where N: "main_at H pc1 s2 (b\<lparr>mwaiting := mwaiting b @ N\<rparr>)" "mq.more s2 = mq.more s1"
    using isr_main_at [OF b(1) irq.hyps(4,3)] by blast
  have "mail_inv (\<lambda>i. vals (H i)) ls (b\<lparr>mwaiting := mwaiting b @ N\<rparr>)"
    by (rule mail_step_inv [OF mail_step.post b(2)])
  with N(1) progress_isr [OF b(4)] b(3) more_fields [OF N(2)] show ?case by fastforce
qed

lemma progress_bound:
  assumes "progress l K j k pc b"
  shows "min l (2 * (k div (27 + 4 * K))) \<le> length (mtaken b)"
proof -
  have "0 < main_left K pc (length (mpending b))" by (cases pc) auto
  then have "k < Suc j * (27 + 4 * K)" using assms by (simp add: progress_def algebra_simps)
  then have "k div (27 + 4 * K) < Suc j" by (rule less_mult_imp_div_less)
  with assms show ?thesis by (auto simp: progress_def)
qed

lemma main_at_pending:
  assumes "main_at H pc s b" and "calls_of (mtaken b) (mpending b) \<noteq> []"
  shows "mtaken b \<noteq> [] \<and> (\<exists>Q. deliveries (\<lambda>i. vals (H i)) (last (mtaken b)) = Q @ calls_of (mtaken b) (mpending b))"
proof -
  obtain lpc where lpc: "pc = MMessages lpc" "loop_at H lpc s b"
    using assms by (cases pc) (auto simp: at_rest_def calls_of_def)
  have "mtaken b \<noteq> [] \<and> (\<exists>ys. vals (subs_of H b) = ys @ mpending b)"
  proof (cases lpc)
    case (LNext n p c)
    then obtain pre x xs where "mtaken b \<noteq> []" "subs_of H b = pre @ x # xs" "mpending b = vals xs"
      using lpc(2) by (auto simp: in_hand_def)
    then show ?thesis by (auto intro!: exI [of _ "vals pre @ [snd x]"])
  qed (use lpc(2) assms(2) in \<open>auto simp: at_rest_def in_hand_def calls_of_def split: if_splits\<close>)
  then show ?thesis by (auto simp: deliveries_def calls_of_def simp del: map_map)
qed

text \<open>The program never stops: it has runs of every length.\<close>

lemma main_runs_on:
  assumes "main_at H main_start s \<lparr>mtaken = [], mwaiting = ls, mpending = [], mcalled = []\<rparr>"
    and "good_handlers fb rb" and "good_tasks tf tc" and "observed L fb rb tf tc" and "\<forall>i<26. length (H i) \<le> K"
  shows "\<exists>pc s'. main_run fb rb tf tc k (main_start, s) (pc, s')"
proof (induction k)
  case (Suc k)
  then obtain pc s' where run: "main_run fb rb tf tc k (main_start, s) (pc, s')" by blast
  from main_run_progress [OF assms(2-5,1) run] obtain b where "main_at H pc s' b" by blast
  from main_step_stepped [OF this assms(2-5)] irun.main [OF run] show ?case by blast
qed (blast intro: irun.start)

section \<open>The main program under interrupts\<close>


lemma demo_kernel_isr: "\<exists>s1. isr_post (demo_kernel ([] :: delivery list)) s1"
proof -
  have "mq_inv (demo_kernel ([] :: delivery list)) demo_subs [] demo_letters"
    using demo_kernel_inv [of "[] :: delivery list"] by (simp add: kernel_inv_def)
  from mq_inv_post [OF this, of 3 0 MQ_OWNER_CALLER MQ_CONTEXT_INTERRUPT] obtain rc s1 where
    "Post 3 0 MQ_OWNER_CALLER MQ_CONTEXT_INTERRUPT (demo_kernel ([] :: delivery list)) = okR (rc, s1)" by auto
  from isr_post.caller [OF _ _ this] show ?thesis by auto
qed


end
