(* ===== verification/Os_Timer.thy ===== *)
theory Os_Timer
  imports Kernel_Prelude
begin

text \<open>
  The non-blocking timers: the class \<open>OSTimer\<close> (\<open>ostimer.cpp\<close>) and the macros of
  \<open>tasktimers.h\<close>. Every call of \<open>millis()\<close> is an argument \<open>now\<close>: the 32 bit
  millisecond counter, which wraps around every 49.7 days.
\<close>

section \<open>The class\<close>

record ostimer =
  tmr :: u32
  time :: u32
  freeze :: u32
  frozen :: u8

definition OSTimer :: "u32 \<Rightarrow> u32 \<Rightarrow> ostimer" where
  "OSTimer timeout now = \<lparr>tmr = now, time = timeout, freeze = 0, frozen = 0\<rparr>"

definition Set :: "u32 \<Rightarrow> u32 \<Rightarrow> ostimer \<Rightarrow> ostimer" where
  "Set timeout now t = t\<lparr>time := timeout, tmr := now\<rparr>"

definition Restart :: "u32 \<Rightarrow> ostimer \<Rightarrow> ostimer" where
  "Restart now t = t\<lparr>tmr := now\<rparr>"

definition isExpired :: "u32 \<Rightarrow> ostimer \<Rightarrow> int" where
  "isExpired now t = (if now - tmr t > time t then 1 else 0)"

definition Freeze :: "u32 \<Rightarrow> ostimer \<Rightarrow> ostimer" where
  "Freeze now t = t\<lparr>freeze := now, frozen := 1\<rparr>"

definition Thaw :: "u32 \<Rightarrow> ostimer \<Rightarrow> ostimer" where
  "Thaw now t = t\<lparr>tmr := tmr t + (if frozen t \<noteq> 0 then now - freeze t else 0)\<rparr>"

section \<open>The macros\<close>

text \<open>
  A macro timer is four static variables. \<open>TRUE\<close> is not defined by the sources; its
  value is an argument of \<open>FREEZETIMER\<close>.
\<close>

record tasktimer =
  tmr_t :: u32
  time_t :: u32
  freeze_t :: u32
  frozen_t :: u8

definition CREATE_TIMER :: "u32 \<Rightarrow> tasktimer" where
  "CREATE_TIMER init = \<lparr>tmr_t = 0, time_t = init, freeze_t = 0, frozen_t = 0\<rparr>"

definition SETTIMER :: "u32 \<Rightarrow> u32 \<Rightarrow> tasktimer \<Rightarrow> tasktimer" where
  "SETTIMER now tm t = t\<lparr>tmr_t := now, time_t := tm\<rparr>"

definition ISEXPIRED :: "u32 \<Rightarrow> tasktimer \<Rightarrow> bool" where
  "ISEXPIRED now t \<longleftrightarrow> now - tmr_t t > time_t t"

definition FREEZETIMER :: "u8 \<Rightarrow> u32 \<Rightarrow> tasktimer \<Rightarrow> tasktimer" where
  "FREEZETIMER TRUE now t = t\<lparr>freeze_t := now, frozen_t := TRUE\<rparr>"

definition THAWTIMER :: "u32 \<Rightarrow> tasktimer \<Rightarrow> tasktimer" where
  "THAWTIMER now t = t\<lparr>tmr_t := tmr_t t + (if frozen_t t \<noteq> 0 then now - freeze_t t else 0)\<rparr>"

lemmas timer_defs = OSTimer_def Set_def Restart_def isExpired_def Freeze_def Thaw_def

lemmas macro_defs = CREATE_TIMER_def SETTIMER_def ISEXPIRED_def FREEZETIMER_def THAWTIMER_def

section \<open>Elapsed time\<close>

text \<open>The counter after \<open>n\<close> milliseconds of real time, and the difference of two readings.\<close>

lemma millis_diff: "m \<le> n \<Longrightarrow> unat (of_nat n - of_nat m :: u32) = (n - m) mod 2 ^ 32"
  by (simp add: unat_of_nat flip: of_nat_diff)

section \<open>Timers as an interface\<close>

text \<open>
  What a periodic task relies on: after a restart at real time \<open>m\<close> (in milliseconds) the
  timer counts the time since, modulo the width of the counter. \<open>fire_times\<close> polls a
  timer at a list of pairs of readings, the one of the test and the one of the restart.
\<close>

fun fire_times :: "(u32 \<Rightarrow> 't \<Rightarrow> bool) \<Rightarrow> (u32 \<Rightarrow> 't \<Rightarrow> 't) \<Rightarrow> 't \<Rightarrow> (nat \<times> nat) list \<Rightarrow> nat list" where
  "fire_times expired restart t [] = []"
| "fire_times expired restart t ((a, b) # ps) =
     (if expired (of_nat a) t then a # fire_times expired restart (restart (of_nat b) t) ps
      else fire_times expired restart t ps)"

text \<open>Readings in the order of time, none before \<open>m\<close> and none as late as \<open>u\<close>.\<close>

fun ordered_polls :: "nat \<Rightarrow> nat \<Rightarrow> (nat \<times> nat) list \<Rightarrow> bool" where
  "ordered_polls m u [] = True"
| "ordered_polls m u ((a, b) # ps) = (m \<le> a \<and> a \<le> b \<and> b < u \<and> ordered_polls b u ps)"

fun spaced :: "nat \<Rightarrow> nat \<Rightarrow> nat list \<Rightarrow> bool" where
  "spaced d m [] = True"
| "spaced d m (x # xs) = (m + d < x \<and> spaced d x xs)"

lemma spaced_mono: "spaced d m xs \<Longrightarrow> m' \<le> m \<Longrightarrow> spaced d m' xs"
  by (cases xs) auto

lemma ordered_polls_mono: "ordered_polls m u ps \<Longrightarrow> m' \<le> m \<Longrightarrow> u \<le> u' \<Longrightarrow> ordered_polls m' u' ps"
  by (induction m u ps arbitrary: m' rule: ordered_polls.induct) auto

locale timer =
  fixes expired :: "u32 \<Rightarrow> 't \<Rightarrow> bool"
    and restart :: "u32 \<Rightarrow> 't \<Rightarrow> 't"
    and period :: "'t \<Rightarrow> u32"
  assumes expired_restart: "m \<le> n \<Longrightarrow>
      expired (of_nat n) (restart (of_nat m) t) \<longleftrightarrow> unat (period t) < (n - m) mod 2 ^ 32"
    and period_restart: "period (restart now t) = period t"
    and restart_restart: "restart now (restart now' t) = restart now t"
begin

text \<open>Two firings are more than a period apart.\<close>

lemma fires_spaced:
  "ordered_polls k (m + 2 ^ 32) ps \<Longrightarrow> m \<le> k \<Longrightarrow>
     spaced (unat (period t)) m (fire_times expired restart (restart (of_nat m) t) ps)"
proof (induction ps arbitrary: k m)
  case (Cons x ps)
  obtain a b where x: "x = (a, b)" by (cases x)
  with Cons.prems have ab: "m \<le> a" "a \<le> b" "b < m + 2 ^ 32" "ordered_polls b (m + 2 ^ 32) ps"
    by auto
  show ?case
  proof (cases "expired (of_nat a) (restart (of_nat m) t)")
    case True
    then have "m + unat (period t) < a" using ab by (simp add: expired_restart)
    moreover have "spaced (unat (period t)) b (fire_times expired restart (restart (of_nat b) t) ps)"
      using Cons.IH [of b b] ordered_polls_mono [OF ab(4)] ab by simp
    ultimately show ?thesis
      using True x ab(2) spaced_mono by (simp add: restart_restart)
  next
    case False
    with Cons.IH [OF ab(4)] ab x show ?thesis by simp
  qed
qed simp

text \<open>The timer fires at the first poll after the period, and starts again from there.\<close>

lemma fires_at_first_poll:
  "ordered_polls k (m + 2 ^ 32) ps \<Longrightarrow> m \<le> k \<Longrightarrow>
     fire_times expired restart (restart (of_nat m) t) ps =
       (case dropWhile (\<lambda>(a, b). a \<le> m + unat (period t)) ps of
          [] \<Rightarrow> []
        | (a, b) # qs \<Rightarrow> a # fire_times expired restart (restart (of_nat b) t) qs)"
proof (induction ps arbitrary: k)
  case (Cons x ps)
  obtain a b where x: "x = (a, b)" by (cases x)
  with Cons.prems have ab: "m \<le> a" "a \<le> b" "b < m + 2 ^ 32" "ordered_polls b (m + 2 ^ 32) ps"
    by auto
  then have "expired (of_nat a) (restart (of_nat m) t) \<longleftrightarrow> \<not> a \<le> m + unat (period t)"
    by (auto simp: expired_restart)
  with Cons.IH [OF ab(4)] ab x show ?case by (simp add: restart_restart)
qed simp

end

text \<open>A timer that can be stopped and resumed.\<close>

locale freezable_timer = timer +
  fixes freeze :: "u32 \<Rightarrow> 'a \<Rightarrow> 'a"
    and thaw :: "u32 \<Rightarrow> 'a \<Rightarrow> 'a"
  assumes expired_thaw: "m \<le> f \<Longrightarrow> f \<le> h \<Longrightarrow> h \<le> n \<Longrightarrow>
      expired (of_nat n) (thaw (of_nat h) (freeze (of_nat f) (restart (of_nat m) t))) \<longleftrightarrow>
        unat (period t) < (f - m + (n - h)) mod 2 ^ 32"
begin

text \<open>The time between stop and resume is not counted.\<close>

lemma pause_not_counted:
  assumes "m \<le> f" "f \<le> h" "h \<le> n"
  shows "expired (of_nat n) (thaw (of_nat h) (freeze (of_nat f) (restart (of_nat m) t))) \<longleftrightarrow>
           expired (of_nat (n - (h - f))) (restart (of_nat m) t)"
proof -
  have e: "f - m + (n - h) = (n - (h - f)) - m" "m \<le> n - (h - f)" using assms by auto
  show ?thesis unfolding expired_thaw [OF assms] expired_restart [OF e(2)] e(1) ..
qed

end

abbreviation expired_class :: "u32 \<Rightarrow> ostimer \<Rightarrow> bool" where
  "expired_class now t \<equiv> isExpired now t \<noteq> 0"

lemma thawed_elapsed:
  "m \<le> f \<Longrightarrow> f \<le> h \<Longrightarrow> h \<le> n \<Longrightarrow>
     unat (of_nat n - (of_nat m + (of_nat h - of_nat f)) :: u32) = (f - m + (n - h)) mod 2 ^ 32"
proof -
  assume le: "m \<le> f" "f \<le> h" "h \<le> n"
  then have "of_nat n - (of_nat m + (of_nat h - of_nat f)) = (of_nat (f - m + (n - h)) :: u32)"
    by (simp add: of_nat_diff algebra_simps)
  then show ?thesis unfolding \<open>_ = of_nat _\<close> unat_of_nat by simp
qed

interpretation os_timer: freezable_timer expired_class Restart time Freeze Thaw
  by unfold_locales
    (simp_all add: timer_defs word_less_nat_alt millis_diff thawed_elapsed)

interpretation macro_timer: freezable_timer ISEXPIRED "\<lambda>now t. SETTIMER now (time_t t) t" time_t
  "FREEZETIMER 1" THAWTIMER
  by unfold_locales
    (simp_all add: macro_defs word_less_nat_alt millis_diff thawed_elapsed)

section \<open>Sequences of timer calls\<close>

text \<open>
  A client's calls on a timer, each with the reading of the clock at the call; the observable
  results are those of the test.
\<close>

datatype timer_call = CallSet u32 | CallTest | CallFreeze | CallThaw

fun run_class :: "(timer_call \<times> u32) list \<Rightarrow> ostimer \<Rightarrow> bool list" where
  "run_class [] t = []"
| "run_class ((CallSet d, now) # cs) t = run_class cs (Set d now t)"
| "run_class ((CallTest, now) # cs) t = (isExpired now t \<noteq> 0) # run_class cs t"
| "run_class ((CallFreeze, now) # cs) t = run_class cs (Freeze now t)"
| "run_class ((CallThaw, now) # cs) t = run_class cs (Thaw now t)"

fun run_macros :: "u8 \<Rightarrow> (timer_call \<times> u32) list \<Rightarrow> tasktimer \<Rightarrow> bool list" where
  "run_macros TRUE [] t = []"
| "run_macros TRUE ((CallSet d, now) # cs) t = run_macros TRUE cs (SETTIMER now d t)"
| "run_macros TRUE ((CallTest, now) # cs) t = ISEXPIRED now t # run_macros TRUE cs t"
| "run_macros TRUE ((CallFreeze, now) # cs) t = run_macros TRUE cs (FREEZETIMER TRUE now t)"
| "run_macros TRUE ((CallThaw, now) # cs) t = run_macros TRUE cs (THAWTIMER now t)"

definition same_timer :: "ostimer \<Rightarrow> tasktimer \<Rightarrow> bool" where
  "same_timer t u \<longleftrightarrow> tmr t = tmr_t u \<and> time t = time_t u \<and> freeze t = freeze_t u \<and>
     (frozen t = 0 \<longleftrightarrow> frozen_t u = 0)"

lemma run_same:
  "TRUE \<noteq> 0 \<Longrightarrow> same_timer t u \<Longrightarrow> run_macros TRUE cs u = run_class cs t"
proof (induction cs t arbitrary: u rule: run_class.induct)
  case 1
  then show ?case by simp
qed (auto simp: same_timer_def timer_defs macro_defs split: if_splits)

section \<open>Properties of the timers\<close>

text \<open>
  Property C32. \<open>isExpired\<close> is exact: with less than the range of the 32 bit millisecond counter
  between the two readings, a timer constructed, set or restarted at time \<open>m\<close> is expired at
  time \<open>n\<close> if and only if more than the timeout has passed, also when the counter has
  wrapped around in between.
\<close>

theorem isExpired_exact:
  assumes "m \<le> n" and "n - m < 2 ^ 32"
  shows "(isExpired (of_nat n) (OSTimer d (of_nat m)) = (if m + unat d < n then 1 else 0)) \<and>
    (isExpired (of_nat n) (Set d (of_nat m) t) = (if m + unat d < n then 1 else 0)) \<and>
    (isExpired (of_nat n) (Restart (of_nat m) t) = (if m + unat (time t) < n then 1 else 0))"
  using assms by (auto simp: timer_defs word_less_nat_alt millis_diff)

theorem isExpired_exact_witness:
  "isExpired (of_nat 4294967396) (OSTimer 150 (of_nat 4294967286)) = 0 \<and>
   isExpired (of_nat 4294967496) (OSTimer 150 (of_nat 4294967286)) = 1"
  using isExpired_exact [of 4294967286 4294967396 150] isExpired_exact [of 4294967286 4294967496 150] by simp

text \<open>
  Property C31. A periodic task driven by a timer: polled in the order of time over less than
  the range of the counter, the timer fires at the first poll after the period and starts
  again from there, and two firings are more than a period apart.
\<close>

theorem timer_periodic:
  assumes "ordered_polls m (m + 2 ^ 32) ps"
  shows "fire_times expired_class Restart (Restart (of_nat m) t) ps =
      (case dropWhile (\<lambda>(a, b). a \<le> m + unat (time t)) ps of
         [] \<Rightarrow> [] | (a, b) # qs \<Rightarrow> a # fire_times expired_class Restart (Restart (of_nat b) t) qs) \<and>
    spaced (unat (time t)) m (fire_times expired_class Restart (Restart (of_nat m) t) ps)"
  using os_timer.fires_at_first_poll [OF assms] os_timer.fires_spaced [OF assms] by simp

theorem timer_periodic_witness:
  "fire_times expired_class Restart (Restart (of_nat 0) (OSTimer 100 0)) [(50, 50), (120, 121), (180, 180), (230, 230)] =
     [120, 230]"
  using timer_periodic [of 0 "[(50, 50), (120, 121), (180, 180), (230, 230)]" "OSTimer 100 0"]
    timer_periodic [of 121 "[(180, 180), (230, 230)]" "OSTimer 100 0"]
  by (simp add: OSTimer_def)

text \<open>
  The time between \<open>Freeze\<close> and \<open>Thaw\<close> is not counted: a timer stopped at
  \<open>f\<close> and resumed at \<open>h\<close> expires as one that ran all the time but is tested
  \<open>h - f\<close> earlier.
\<close>

lemma pause_exact:
  assumes "m \<le> f" and "f \<le> h" and "h \<le> n"
  shows "isExpired (of_nat n) (Thaw (of_nat h) (Freeze (of_nat f) (Restart (of_nat m) t))) =
    isExpired (of_nat (n - (h - f))) (Restart (of_nat m) t)"
  using os_timer.pause_not_counted [OF assms, of t] by (simp add: isExpired_def split: if_splits)

lemma pause_exact_witness:
  "isExpired (of_nat 1100) (Thaw (of_nat 1020) (Freeze (of_nat 20) (Restart (of_nat 0) (OSTimer 100 0)))) = 0"
  using pause_exact [of 0 20 1020 1100 "OSTimer 100 0"] by (simp add: timer_defs)



text \<open>
  A frozen timer goes on counting until it is thawed: \<open>isExpired\<close> does not look at the
  flag, so a test during the pause reports the timer expired.
\<close>

lemma frozen_timer_expires:
  assumes "m \<le> f" and "f \<le> n" and "n - m < 2 ^ 32"
  shows "isExpired (of_nat n) (Freeze (of_nat f) (Restart (of_nat m) t)) =
    (if m + unat (time t) < n then 1 else 0)"
  using assms by (auto simp: timer_defs word_less_nat_alt millis_diff)

text \<open>
  \<open>Thaw\<close> does not clear the frozen flag: a second \<open>Thaw\<close> without a freeze in
  between subtracts the time since the old freeze again, and the timer counts, modulo its
  range, \<open>h' - f\<close> too little.
\<close>

lemma second_thaw_shifts:
  "isExpired (of_nat n) (Thaw (of_nat h') (Thaw (of_nat h) (Freeze (of_nat f) (Restart (of_nat m) t)))) =
     (if int (unat (time t)) < (int n - int m - (int h - int f) - (int h' - int f)) mod 2 ^ 32 then 1 else 0)"
proof -
  let ?t = "Thaw (of_nat h') (Thaw (of_nat h) (Freeze (of_nat f) (Restart (of_nat m) t)))"
  have "of_nat n - tmr ?t = (word_of_int (int n - int m - (int h - int f) - (int h' - int f)) :: u32)"
    by (simp add: timer_defs algebra_simps)
  then have "int (unat (of_nat n - tmr ?t)) = (int n - int m - (int h - int f) - (int h' - int f)) mod 2 ^ 32"
    by (simp only: unat_eq_nat_uint uint_word_of_int) simp
  moreover have "isExpired (of_nat n) ?t = (if unat (time t) < unat (of_nat n - tmr ?t) then 1 else 0)"
    by (simp add: timer_defs word_less_nat_alt)
  ultimately show ?thesis by (metis of_nat_less_iff)
qed

end
