(* ===== verification/Toggle.thy ===== *)
theory Toggle
  imports Os_Timer Serial_Io
begin

text \<open>
  The blinking tasks of the application (\<open>ToggleTask.cpp\<close>, \<open>ToggleLED.cpp\<close>). The
  hardware they reach is the port B of the microcontroller and the serial line
  (\<open>Serial_Io\<close>).
\<close>

section \<open>State and operations\<close>

record toggletask =
  tm :: ostimer
  toggleflag :: bool

definition ToggleTask :: "u32 \<Rightarrow> u32 \<Rightarrow> toggletask" where
  "ToggleTask timeout now = \<lparr>tm = OSTimer timeout now, toggleflag = False\<rparr>"

text \<open>
  \<open>TaskLoop\<close> calls the virtual \<open>Toggle\<close>, given as \<open>toggle\<close>. It reads the clock twice:
  \<open>now\<close> in \<open>isExpired\<close> and \<open>now'\<close> in \<open>Restart\<close>.
\<close>

definition ToggleTask_TaskLoop ::
  "(bool \<Rightarrow> 'b \<Rightarrow> 'b) \<Rightarrow> u32 \<Rightarrow> u32 \<Rightarrow> 'a toggletask_scheme \<Rightarrow> 'b \<Rightarrow> 'a toggletask_scheme \<times> 'b" where
  "ToggleTask_TaskLoop toggle now now' t b =
     (if isExpired now (tm t) \<noteq> 0 then
        (let b1 = toggle (toggleflag t) b;
             t1 = t\<lparr>toggleflag := (if toggleflag t then False else True)\<rparr> in
         (t1\<lparr>tm := Restart now' (tm t1)\<rparr>, b1))
      else (t, b))"

definition ToggleTask_Toggle :: "bool \<Rightarrow> 'a io_scheme \<Rightarrow> 'a io_scheme" where
  "ToggleTask_Toggle state b =
     serial_println (''base class called: function not implemented'' @ [CHR 0x0A]) b"

record toggleled = toggletask +
  ddrb :: u8

definition ToggleLED :: "u32 \<Rightarrow> u8 \<Rightarrow> u32 \<Rightarrow> 'a io_scheme \<Rightarrow> toggleled \<times> 'a io_scheme" where
  "ToggleLED to port now b =
     (toggletask.extend (ToggleTask to now) \<lparr>ddrb = port\<rparr>, b\<lparr>DDRB := DDRB b OR port\<rparr>)"

definition ToggleLED_Toggle :: "u8 \<Rightarrow> bool \<Rightarrow> 'a io_scheme \<Rightarrow> 'a io_scheme" where
  "ToggleLED_Toggle port state b =
     (let b1 = b\<lparr>PORTB := PORTB b AND NOT port\<rparr> in
      if state then b1\<lparr>PORTB := PORTB b1 OR port\<rparr> else b1)"

text \<open>\<open>TaskLoop\<close> of an LED task: \<open>Toggle\<close> is the overriding one.\<close>

definition ToggleLED_TaskLoop ::
  "u32 \<Rightarrow> u32 \<Rightarrow> toggleled \<Rightarrow> 'a io_scheme \<Rightarrow> toggleled \<times> 'a io_scheme" where
  "ToggleLED_TaskLoop now now' t b =
     ToggleTask_TaskLoop (ToggleLED_Toggle (ddrb t)) now now' t b"

text \<open>The scheduler calls \<open>TaskLoop\<close> again and again, at the given readings of the clock.\<close>

fun toggle_polls :: "(bool \<Rightarrow> 'b \<Rightarrow> 'b) \<Rightarrow> (nat \<times> nat) list \<Rightarrow> 'a toggletask_scheme \<times> 'b \<Rightarrow>
    'a toggletask_scheme \<times> 'b" where
  "toggle_polls toggle [] tb = tb"
| "toggle_polls toggle ((a, a') # ps) (t, b) =
     toggle_polls toggle ps (ToggleTask_TaskLoop toggle (of_nat a) (of_nat a') t b)"

section \<open>The port\<close>

lemma Toggle_bit:
  "bit (PORTB (ToggleLED_Toggle port state b)) i \<longleftrightarrow>
     (if bit port i then state \<and> i < 8 else bit (PORTB b) i)"
  by (auto simp: ToggleLED_Toggle_def Let_def bit_and_iff bit_or_iff bit_not_iff
      dest: bit_imp_le_length)

lemma Toggle_frame [frame]:
  "DDRB (ToggleLED_Toggle port state b) = DDRB b"
  "serial (ToggleLED_Toggle port state b) = serial b"
  by (simp_all add: ToggleLED_Toggle_def Let_def)

section \<open>Blinking\<close>

text \<open>The states an LED is set to: off, on, off, and so on.\<close>

fun alternate :: "bool \<Rightarrow> nat \<Rightarrow> bool list" where
  "alternate s 0 = []"
| "alternate s (Suc n) = s # alternate (\<not> s) n"

lemma alternate_nth: "i < n \<Longrightarrow> alternate s n ! i \<longleftrightarrow> (if even i then s else \<not> s)"
  by (induction s n arbitrary: i rule: alternate.induct) (auto simp: nth_Cons')

lemma toggle_polls_fold:
  "toggle_polls toggle ps (t, b) = (t', b') \<Longrightarrow>
     (let fs = fire_times expired_class Restart (tm t) ps in
      b' = fold toggle (alternate (toggleflag t) (length fs)) b \<and>
      toggleflag t' = (if even (length fs) then toggleflag t else \<not> toggleflag t))"
proof (induction ps arbitrary: t b)
  case (Cons p ps)
  obtain a a' where p: "p = (a, a')" by (cases p)
  show ?case
  proof (cases "expired_class (of_nat a) (tm t)")
    case True
    let ?t = "t\<lparr>toggleflag := \<not> toggleflag t, tm := Restart (of_nat a') (tm t)\<rparr>"
    have "ToggleTask_TaskLoop toggle (of_nat a) (of_nat a') t b = (?t, toggle (toggleflag t) b)"
      using True by (simp add: ToggleTask_TaskLoop_def Let_def)
    with Cons.IH [of ?t "toggle (toggleflag t) b"] Cons.prems p True show ?thesis
      by (simp add: Let_def)
  next
    case False
    then have "ToggleTask_TaskLoop toggle (of_nat a) (of_nat a') t b = (t, b)"
      by (simp add: ToggleTask_TaskLoop_def)
    with Cons.IH [of t b] Cons.prems p False show ?thesis by simp
  qed
qed simp

lemma fold_Toggle:
  "bit (PORTB (fold (ToggleLED_Toggle port) states b)) i \<longleftrightarrow>
     (if bit port i \<and> states \<noteq> [] then last states \<and> i < 8 else bit (PORTB b) i)"
  "DDRB (fold (ToggleLED_Toggle port) states b) = DDRB b"
  by (induction states arbitrary: b) (auto simp: Toggle_bit frame)

lemma length_alternate [simp]: "length (alternate s n) = n"
  by (induction s n rule: alternate.induct) auto

lemma last_alternate: "0 < n \<Longrightarrow> last (alternate s n) \<longleftrightarrow> (if odd n then s else \<not> s)"
proof -
  assume n: "0 < n"
  then have "alternate s n \<noteq> []" using length_alternate [of s n] by (metis list.size(3) less_irrefl)
  then have "last (alternate s n) = alternate s n ! (n - 1)" by (simp add: last_conv_nth)
  with n show ?thesis using alternate_nth [of "n - 1" n s] by (cases "odd n") auto
qed

section \<open>Properties of the blinking tasks\<close>

text \<open>
  An LED task blinks: polled by the scheduler over less than the range of the clock,
  it toggles at the firings of its timer, which are more than a timeout apart; after
  \<open>k > 0\<close> firings its pins of port B are on exactly when \<open>k\<close> is even, all other pins of
  the port are as they were, and its pins have been made outputs.
\<close>

lemma led_blinks:
  assumes "ToggleLED to port (of_nat m) b = (t, b0)" and "ordered_polls m (m + 2 ^ 32) ps"
    and "toggle_polls (ToggleLED_Toggle (ddrb t)) ps (t, b0) = (t', b')"
  defines "fs \<equiv> fire_times expired_class Restart (OSTimer to (of_nat m)) ps"
  shows "spaced (unat to) m fs \<and> DDRB b' = DDRB b OR port \<and>
    list_all (\<lambda>i. bit (PORTB b') i = (if bit port i \<and> fs \<noteq> [] then even (length fs) else bit (PORTB b) i)) [0..<8]"
proof -
  have t: "tm t = OSTimer to (of_nat m)" "toggleflag t = False" "ddrb t = port" "b0 = b\<lparr>DDRB := DDRB b OR port\<rparr>"
    using assms(1) by (auto simp: ToggleLED_def ToggleTask_def toggletask.defs)
  have "Restart (of_nat m) (OSTimer to (of_nat m)) = OSTimer to (of_nat m)" "time (OSTimer to (of_nat m)) = to"
    by (simp_all add: timer_defs)
  then have sp: "spaced (unat to) m fs"
    using os_timer.fires_spaced [OF assms(2), of "OSTimer to (of_nat m)"] by (simp add: fs_def)
  have b': "b' = fold (ToggleLED_Toggle port) (alternate False (length fs)) b0"
    using toggle_polls_fold [OF assms(3)] t by (simp add: fs_def Let_def)
  have "alternate False (length fs) \<noteq> [] \<longleftrightarrow> fs \<noteq> []" by (metis length_alternate length_0_conv)
  with sp show ?thesis
    using b' t(4) last_alternate [of "length fs" False] by (auto simp: fold_Toggle list_all_iff)
qed

definition demo_polls :: "(nat \<times> nat) list" where
  "demo_polls = [(50, 50), (120, 121), (180, 180), (230, 230)]"

definition demo_io :: io where
  "demo_io = \<lparr>PORTB = 0x01, DDRB = 0, serial = [], baud = 0\<rparr>"

lemma led_blinks_witness:
  "\<exists>t b0 t' b'. ToggleLED 100 0x20 (of_nat 0) demo_io = (t, b0) \<and>
     toggle_polls (ToggleLED_Toggle (ddrb t)) demo_polls (t, b0) = (t', b') \<and>
     list_all (\<lambda>i. bit (PORTB b') i = (if bit (0x20 :: u8) i then True else bit (0x01 :: u8) i)) [0..<8]"
proof -
  have f: "fire_times expired_class Restart (OSTimer 100 (of_nat 0)) demo_polls = [120, 230]"
    by (simp add: timer_defs demo_polls_def)
  have o: "ordered_polls 0 (0 + 2 ^ 32) demo_polls" by (simp add: demo_polls_def)
  have p: "PORTB demo_io = 0x01" by (simp add: demo_io_def)
  obtain t b0 where i: "ToggleLED 100 0x20 (of_nat 0) demo_io = (t, b0)" by fastforce
  obtain t' b' where r: "toggle_polls (ToggleLED_Toggle (ddrb t)) demo_polls (t, b0) = (t', b')" by fastforce
  have "list_all (\<lambda>i. bit (PORTB b') i = (if bit (0x20 :: u8) i then True else bit (0x01 :: u8) i)) [0..<8]"
    using led_blinks [OF i o r, unfolded f p] by (auto simp: list_all_iff split: if_splits)
  with i r show ?thesis by blast
qed

text \<open>
  Tasks on different pins do not interfere: toggling one and then the other gives the same
  port in either order, whatever the states.
\<close>

lemma leds_independent:
  assumes "p AND q = 0"
  shows "ToggleLED_Toggle p x (ToggleLED_Toggle q y b) = ToggleLED_Toggle q y (ToggleLED_Toggle p x b)"
proof -
  have d: "\<not> (bit p i \<and> bit q i)" for i using assms by (metis bit_and_iff bit_0_eq bot_apply bot_bool_def)
  have "PORTB (ToggleLED_Toggle p x (ToggleLED_Toggle q y b)) = PORTB (ToggleLED_Toggle q y (ToggleLED_Toggle p x b))"
    using d by (intro bit_word_eqI) (auto simp: Toggle_bit)
  then show ?thesis by (simp add: ToggleLED_Toggle_def Let_def split: if_splits)
qed

end
