(* ===== verification/Log_Task.thy ===== *)
theory Log_Task
  imports Iic_Driver Os_Timer Serial_Io "HOL-Library.Signed_Division"
begin

text \<open>
  The clock logger of the application (\<open>LogTask.cpp\<close>): setting the real-time clock over
  the two-wire bus in BCD, and the periodic log line. Outside the sources and therefore
  arguments: the TWI peripheral \<open>T\<close>, the addresses \<open>day_addr\<close> the linker gives to the
  weekday literals, the string \<open>str_at\<close> found at an address, and the contents \<open>junk\<close>
  of uninitialised stack memory.
\<close>

section \<open>Registers and BCD\<close>

record rtcdateregs =
  rtc_sec :: u8
  rtc_min :: u8
  rtc_hour :: u8
  rtc_wkday :: u8
  rtc_date :: u8
  rtc_month :: u8
  rtc_year :: u8

definition IIC_ADDR_RTC :: u8 where "IIC_ADDR_RTC = 0xDE"

definition bitshift_bcd :: "int \<Rightarrow> int" where
  "bitshift_bcd n = (n smod 10) OR push_bit 4 (n sdiv 10)"

definition bitshift_dec :: "u8 \<Rightarrow> int \<Rightarrow> int" where
  "bitshift_dec n m = (uint n AND 0x0f) + (10 * (drop_bit 4 (uint n) AND m))"

text \<open>The memory image of a register block.\<close>

definition regs_bytes :: "rtcdateregs \<Rightarrow> u8 list" where
  "regs_bytes r = [rtc_sec r, rtc_min r, rtc_hour r, rtc_wkday r, rtc_date r, rtc_month r, rtc_year r]"

definition bytes_regs :: "u8 list \<Rightarrow> rtcdateregs" where
  "bytes_regs bs = \<lparr>rtc_sec = bs ! 0, rtc_min = bs ! 1, rtc_hour = bs ! 2, rtc_wkday = bs ! 3,
     rtc_date = bs ! 4, rtc_month = bs ! 5, rtc_year = bs ! 6\<rparr>"

section \<open>Setting the date\<close>

definition maxmonthdays :: "int list" where
  "maxmonthdays = [31, 29, 31, 30, 31, 30, 31, 31, 30, 31, 30, 31]"

text \<open>The register values \<open>SetDate\<close> computes from a date that passed the checks.\<close>

definition encode_date ::
  "int \<Rightarrow> int \<Rightarrow> int \<Rightarrow> int \<Rightarrow> int \<Rightarrow> int \<Rightarrow> int \<Rightarrow> bool \<Rightarrow> bool \<Rightarrow> rtcdateregs" where
  "encode_date dow day month year hrs mins secs is24hr ampm =
     \<lparr>rtc_sec = word_of_int (bitshift_bcd secs OR 0x80),
      rtc_min = word_of_int (bitshift_bcd mins OR 0x80),
      rtc_hour = (if is24hr then word_of_int (bitshift_bcd hrs)
                  else if ampm then word_of_int (bitshift_bcd hrs OR 0x40)
                  else word_of_int (bitshift_bcd hrs OR 0x60)),
      rtc_wkday = word_of_int (dow OR 0x20),
      rtc_date = word_of_int (bitshift_bcd day),
      rtc_month = word_of_int (bitshift_bcd month),
      rtc_year = word_of_int (bitshift_bcd year)\<rparr>"

text \<open>
  \<open>SetDate\<close>: every failed check leaves the \<open>do\<close> block and reaches the final
  \<open>return 0\<close>; otherwise the eight bytes of address and registers are written.
\<close>

definition SetDate :: "'hw twi \<Rightarrow> int \<Rightarrow> int \<Rightarrow> int \<Rightarrow> int \<Rightarrow> int \<Rightarrow> int \<Rightarrow> int \<Rightarrow> bool \<Rightarrow> bool \<Rightarrow>
    'hw \<Rightarrow> (int \<times> 'hw) res" where
  "SetDate T dow day month year hrs mins secs is24hr ampm hw =
     (if dow < 1 \<or> dow > 7 then okR (0, hw)
      else if month < 1 \<or> month > 12 then okR (0, hw)
      else if day < 1 \<or> day > maxmonthdays ! nat (month - 1) then okR (0, hw)
      else if year < 0 \<or> year > 99 then okR (0, hw)
      else if \<not> is24hr \<and> (hrs < 1 \<or> hrs > 12) then okR (0, hw)
      else if hrs < 0 \<or> hrs > 23 then okR (0, hw)
      else if mins < 0 \<or> mins > 59 then okR (0, hw)
      else if secs < 0 \<or> secs > 59 then okR (0, hw)
      else IICWrite T IIC_ADDR_RTC
             (0 # regs_bytes (encode_date dow day month year hrs mins secs is24hr ampm)) 8 hw)"

section \<open>The log line\<close>

record timestamp =
  seconds :: int
  minutes :: int
  hours :: int
  day_of :: int
  month_of :: int
  year_of :: int
  amIndicator :: string

definition decode_date :: "rtcdateregs \<Rightarrow> timestamp" where
  "decode_date r =
     (let is12hr = (rtc_hour r AND 0x40 \<noteq> 0); ampm = (rtc_hour r AND 0x20 \<noteq> 0) in
      \<lparr>seconds = bitshift_dec (rtc_sec r) 0x07,
       minutes = bitshift_dec (rtc_min r) 0x07,
       hours = (if is12hr then bitshift_dec (rtc_hour r) 0x01 else bitshift_dec (rtc_hour r) 0x07),
       day_of = bitshift_dec (rtc_date r) 0x07,
       month_of = bitshift_dec (rtc_month r) 0x07,
       year_of = (uint (rtc_year r) AND 0x0f) + (10 * drop_bit 4 (uint (rtc_year r))),
       amIndicator = (if is12hr then (if ampm then ''am'' else ''pm'') else '''')\<rparr>)"

text \<open>
  The weekday: the address of a literal is stored in the variable \<open>weekday\<close>, which is
  declared as a \<open>char\<close>, so only its low byte survives; \<open>printf\<close> reads the sign-extended
  byte as an address. An index outside the table of seven names is a fault.
\<close>

definition weekday_ptr :: "(nat \<Rightarrow> ptr) \<Rightarrow> rtcdateregs \<Rightarrow> ptr res" where
  "weekday_ptr day_addr r =
     (let i = (uint (rtc_wkday r) AND 0x0f) - 1 in
      if 0 \<le> i \<and> i < 7 then okR (scast (ucast (day_addr (nat i)) :: u8)) else failR OutOfBounds)"

text \<open>The conversion \<open>%02d\<close> of \<open>sprintf\<close>, and the whole format string.\<close>

definition fmt_02d :: "int \<Rightarrow> string" where
  "fmt_02d n = (let s = fmt_d n in replicate (2 - length s) (CHR ''0'') @ s)"

definition log_line :: "string \<Rightarrow> timestamp \<Rightarrow> string \<Rightarrow> string" where
  "log_line weekday t msg =
     weekday @ '' '' @ fmt_d (hours t) @ '':'' @ fmt_02d (minutes t) @ '':'' @ fmt_02d (seconds t) @
     '' '' @ amIndicator t @ '' '' @ fmt_d (day_of t) @ ''/'' @ fmt_02d (month_of t) @ ''/'' @
     fmt_02d (year_of t) @ '': '' @ take 127 msg @ [CHR 0x0A]"

text \<open>
  \<open>LogToSerial\<close>: a line that does not fit the 200 bytes of \<open>logstring\<close> (with its
  terminator) is a fault.
\<close>

definition LogToSerial ::
  "'hw twi \<Rightarrow> (nat \<Rightarrow> ptr) \<Rightarrow> (ptr \<Rightarrow> string) \<Rightarrow> u8 list \<Rightarrow> string \<Rightarrow> 'hw \<Rightarrow> 'a io_scheme \<Rightarrow>
     ('hw \<times> 'a io_scheme) res" where
  "LogToSerial T day_addr str_at junk msg hw b =
     bindR (IICWrite T IIC_ADDR_RTC [0, 0] 1 hw) (\<lambda>(_, hw1).
     bindR (IICRead T IIC_ADDR_RTC junk 7 hw1) (\<lambda>(_, buf, hw2).
     bindR (weekday_ptr day_addr (bytes_regs buf)) (\<lambda>p.
     (let line = log_line (str_at p) (decode_date (bytes_regs buf)) msg in
      if length line < 200 then okR (hw2, serial_print line b) else failR OutOfBounds))))"

section \<open>The task\<close>

record logtask =
  lt_tm :: ostimer

definition LogTask :: "'hw twi \<Rightarrow> int \<Rightarrow> u32 \<Rightarrow> 'hw \<Rightarrow> (logtask \<times> 'hw) res" where
  "LogTask T timestamp now hw =
     bindR (IICWrite T IIC_ADDR_RTC [0x00, 0x00] 2 hw) (\<lambda>(_, hw1).
     okR (\<lparr>lt_tm = OSTimer (word_of_int timestamp) now\<rparr>, hw1))"

definition LogTask_TaskLoop ::
  "'hw twi \<Rightarrow> (nat \<Rightarrow> ptr) \<Rightarrow> (ptr \<Rightarrow> string) \<Rightarrow> u8 list \<Rightarrow> u32 \<Rightarrow> u32 \<Rightarrow> logtask \<Rightarrow> 'hw \<Rightarrow>
     'a io_scheme \<Rightarrow> (logtask \<times> 'hw \<times> 'a io_scheme) res" where
  "LogTask_TaskLoop T day_addr str_at junk now now' t hw b =
     (if isExpired now (lt_tm t) \<noteq> 0 then
        bindR (LogToSerial T day_addr str_at junk ''log message'' hw b) (\<lambda>(hw1, b1).
        okR (t\<lparr>lt_tm := Restart now' (lt_tm t)\<rparr>, hw1, b1))
      else okR (t, hw, b))"

section \<open>Encoding and decoding\<close>

lemma bcd_roundtrip_table:
  "list_all (\<lambda>n. bitshift_dec (word_of_int (bitshift_bcd n)) 0x07 = n \<and>
     bitshift_dec (word_of_int (bitshift_bcd n OR 0x80)) 0x07 = n) [0..79]"
  by code_simp

lemma hour12_table:
  "list_all (\<lambda>n. bitshift_dec (word_of_int (bitshift_bcd n OR 0x40)) 0x01 = n \<and>
     bitshift_dec (word_of_int (bitshift_bcd n OR 0x60)) 0x01 = n \<and>
     (word_of_int (bitshift_bcd n OR 0x40) :: u8) AND 0x40 \<noteq> 0 \<and>
     (word_of_int (bitshift_bcd n OR 0x60) :: u8) AND 0x40 \<noteq> 0 \<and>
     (word_of_int (bitshift_bcd n OR 0x40) :: u8) AND 0x20 = 0 \<and>
     (word_of_int (bitshift_bcd n OR 0x60) :: u8) AND 0x20 \<noteq> 0) [1..12]"
  by code_simp

lemma year_table:
  "list_all (\<lambda>n. (uint (word_of_int (bitshift_bcd n) :: u8) AND 0x0f) +
     10 * drop_bit 4 (uint (word_of_int (bitshift_bcd n) :: u8)) = n) [0..99]"
  by code_simp

lemma hour24_table:
  "list_all (\<lambda>n. (word_of_int (bitshift_bcd n) :: u8) AND 0x40 = 0) [0..23]"
  by code_simp

lemma wkday_table:
  "list_all (\<lambda>n. uint (word_of_int (n OR 0x20) :: u8) AND 0x0f = n) [1..7]"
  by code_simp

text \<open>The dates \<open>SetDate\<close> lets through to the clock.\<close>

definition valid_date :: "int \<Rightarrow> int \<Rightarrow> int \<Rightarrow> int \<Rightarrow> int \<Rightarrow> int \<Rightarrow> int \<Rightarrow> bool \<Rightarrow> bool" where
  "valid_date dow day month year hrs mins secs is24hr \<longleftrightarrow>
     1 \<le> dow \<and> dow \<le> 7 \<and> 1 \<le> month \<and> month \<le> 12 \<and>
     1 \<le> day \<and> day \<le> maxmonthdays ! nat (month - 1) \<and> 0 \<le> year \<and> year \<le> 99 \<and>
     (if is24hr then 0 \<le> hrs \<and> hrs \<le> 23 else 1 \<le> hrs \<and> hrs \<le> 12) \<and>
     0 \<le> mins \<and> mins \<le> 59 \<and> 0 \<le> secs \<and> secs \<le> 59"

lemma SetDate_cases:
  "SetDate T dow day month year hrs mins secs is24hr ampm hw =
     (if valid_date dow day month year hrs mins secs is24hr
      then IICWrite T IIC_ADDR_RTC
             (0 # regs_bytes (encode_date dow day month year hrs mins secs is24hr ampm)) 8 hw
      else okR (0, hw))"
  unfolding SetDate_def valid_date_def by (cases is24hr) auto

lemma maxmonthdays_le:
  assumes "1 \<le> month" "month \<le> 12"
  shows "maxmonthdays ! nat (month - 1) \<le> 31"
proof -
  have len: "nat (month - 1) < length maxmonthdays"
    using assms by (simp add: maxmonthdays_def)
  have "list_all (\<lambda>d. d \<le> 31) maxmonthdays" by (simp add: maxmonthdays_def)
  then show ?thesis using len by (simp add: list_all_length)
qed

lemma bcd_roundtrip:
  assumes "0 \<le> n" "n < 80"
  shows "bitshift_dec (word_of_int (bitshift_bcd n)) 0x07 = n"
    and "bitshift_dec (word_of_int (bitshift_bcd n OR 0x80)) 0x07 = n"
  using bcd_roundtrip_table assms by (auto simp: list_all_iff)

lemma year_roundtrip:
  assumes "0 \<le> n" "n \<le> 99"
  shows "(uint (word_of_int (bitshift_bcd n) :: u8) AND 0x0f) +
     10 * drop_bit 4 (uint (word_of_int (bitshift_bcd n) :: u8)) = n"
  using year_table assms by (auto simp: list_all_iff)

lemma hour24_flag:
  assumes "0 \<le> n" "n \<le> 23"
  shows "(word_of_int (bitshift_bcd n) :: u8) AND 0x40 = 0"
  using hour24_table assms by (auto simp: list_all_iff)

lemma wkday_roundtrip:
  assumes "1 \<le> n" "n \<le> 7"
  shows "uint (word_of_int (n OR 0x20) :: u8) AND 0x0f = n"
  using wkday_table assms by (auto simp: list_all_iff)

lemma hour12_roundtrip:
  assumes "1 \<le> n" "n \<le> 12"
  shows "bitshift_dec (word_of_int (bitshift_bcd n OR 0x40)) 0x01 = n"
    "bitshift_dec (word_of_int (bitshift_bcd n OR 0x60)) 0x01 = n"
    "(word_of_int (bitshift_bcd n OR 0x40) :: u8) AND 0x40 \<noteq> 0"
    "(word_of_int (bitshift_bcd n OR 0x60) :: u8) AND 0x40 \<noteq> 0"
    "(word_of_int (bitshift_bcd n OR 0x40) :: u8) AND 0x20 = 0"
    "(word_of_int (bitshift_bcd n OR 0x60) :: u8) AND 0x20 \<noteq> 0"
  using hour12_table assms by (auto simp: list_all_iff)

text \<open>Reading back what was written gives the date, with the two halves of the day swapped.\<close>

lemma decode_encode:
  assumes "valid_date dow day month year hrs mins secs is24hr"
  shows "decode_date (encode_date dow day month year hrs mins secs is24hr ampm) =
    \<lparr>seconds = secs, minutes = mins, hours = hrs, day_of = day, month_of = month,
     year_of = year, amIndicator = (if is24hr then [] else if ampm then ''pm'' else ''am'')\<rparr>"
proof -
  have "day \<le> 31"
    using assms maxmonthdays_le[of month] unfolding valid_date_def by linarith
  then show ?thesis
    using assms
    by (cases is24hr; cases ampm)
       (simp_all add: valid_date_def decode_date_def encode_date_def Let_def bcd_roundtrip
          year_roundtrip hour24_flag hour12_roundtrip)
qed

lemma encode_wkday:
  assumes "valid_date dow day month year hrs mins secs is24hr"
  shows "uint (rtc_wkday (encode_date dow day month year hrs mins secs is24hr ampm)) AND 0x0f = dow"
  using assms by (simp add: valid_date_def encode_date_def wkday_roundtrip)

lemma bytes_regs_bytes [simp]: "bytes_regs (regs_bytes r) = r"
  by (simp add: bytes_regs_def regs_bytes_def)

lemma length_regs_bytes [simp]: "length (regs_bytes r) = 7"
  by (simp add: regs_bytes_def)

section \<open>The size of a log line\<close>

lemma length_fmt_02d: "0 \<le> n \<Longrightarrow> n < 1000 \<Longrightarrow> length (fmt_02d n) \<le> 3"
  using length_fmt_d[of n] by (simp add: fmt_02d_def Let_def)

lemma and_bounds:
  fixes a m :: int
  assumes "0 \<le> m"
  shows "0 \<le> a AND m" "a AND m \<le> m"
  using assms by (simp_all add: AND_upper2')

lemma bitshift_dec_bounds:
  assumes "0 \<le> m" "m \<le> 7"
  shows "0 \<le> bitshift_dec w m" "bitshift_dec w m < 1000"
  using assms and_bounds[of 15 "uint w"] and_bounds[of m "drop_bit 4 (uint w)"]
  unfolding bitshift_dec_def by linarith+

lemma decode_year_bounds:
  "0 \<le> (uint (w::u8) AND 0x0f) + 10 * drop_bit 4 (uint w)"
  "(uint (w::u8) AND 0x0f) + 10 * drop_bit 4 (uint w) < 1000"
proof -
  have d: "drop_bit 4 (uint w) = uint w div 16" by (simp add: drop_bit_eq_div)
  have u: "0 \<le> uint w" "uint w < 256" using uint_lt2p[of w] by simp_all
  then have "0 \<le> drop_bit 4 (uint w)" "drop_bit 4 (uint w) \<le> 15"
    by (simp_all add: d pos_imp_zdiv_nonneg_iff)
  then show "0 \<le> (uint w AND 0x0f) + 10 * drop_bit 4 (uint w)"
    "(uint w AND 0x0f) + 10 * drop_bit 4 (uint w) < 1000"
    using and_bounds[of 15 "uint w"] by linarith+
qed

lemma decode_bounds:
  "0 \<le> seconds (decode_date r)" "seconds (decode_date r) < 1000"
  "0 \<le> minutes (decode_date r)" "minutes (decode_date r) < 1000"
  "0 \<le> hours (decode_date r)" "hours (decode_date r) < 1000"
  "0 \<le> day_of (decode_date r)" "day_of (decode_date r) < 1000"
  "0 \<le> month_of (decode_date r)" "month_of (decode_date r) < 1000"
  "0 \<le> year_of (decode_date r)" "year_of (decode_date r) < 1000"
  "length (amIndicator (decode_date r)) \<le> 2"
  using bitshift_dec_bounds decode_year_bounds
  by (simp_all add: decode_date_def Let_def)

text \<open>Whatever the clock returns, the line has at most 157 characters beside the weekday.\<close>

lemma length_log_line:
  "length (log_line weekday (decode_date r) msg) \<le> length weekday + 157"
proof -
  let ?t = "decode_date r"
  have "length (fmt_d (hours ?t)) \<le> 3" "length (fmt_02d (minutes ?t)) \<le> 3"
    "length (fmt_02d (seconds ?t)) \<le> 3" "length (fmt_d (day_of ?t)) \<le> 3"
    "length (fmt_02d (month_of ?t)) \<le> 3" "length (fmt_02d (year_of ?t)) \<le> 3"
    by (simp_all add: length_fmt_d length_fmt_02d decode_bounds)
  then show ?thesis
    using decode_bounds(13)[of r] by (simp add: log_line_def)
qed

section \<open>The clock on the bus\<close>

text \<open>
  The documented behaviour of the clock chip: a write transaction that begins with register
  address 0 and carries seven bytes sets the seven date registers, one that carries only the
  address sets the register pointer, and a read transaction from there returns the registers.
\<close>

definition rtc_device :: "'b bus \<Rightarrow> ('b \<Rightarrow> u8 list) \<Rightarrow> ('b \<Rightarrow> bool) \<Rightarrow> bool" where
  "rtc_device B regs at0 \<longleftrightarrow>
     (\<forall>b ds. length ds = 7 \<longrightarrow> (\<exists>b'. bus_write B IIC_ADDR_RTC (0 # ds) b = (0, b') \<and> regs b' = ds)) \<and>
     (\<forall>b. \<exists>b'. bus_write B IIC_ADDR_RTC [0] b = (0, b') \<and> regs b' = regs b \<and> at0 b') \<and>
     (\<forall>b. at0 b \<longrightarrow> (\<exists>b'. bus_read B IIC_ADDR_RTC 7 b = (0, regs b, b') \<and> regs b' = regs b)) \<and>
     (\<forall>b. length (regs b) = 7)"

lemma SetDate_transaction:
  assumes T: "twi_master T (B :: 'b bus) R" and D: "rtc_device B regs at0" and R: "R Idle st d hw b"
    and v: "valid_date dow day month year hrs mins secs is24hr"
  obtains hw' st' d' b' where "SetDate T dow day month year hrs mins secs is24hr ampm hw = okR (0, hw')"
    "R Idle st' d' hw' b'" "regs b' = regs_bytes (encode_date dow day month year hrs mins secs is24hr ampm)"
    "b' = snd (bus_write B IIC_ADDR_RTC (0 # regs_bytes (encode_date dow day month year hrs mins secs is24hr ampm)) b)"
proof -
  let ?ds = "regs_bytes (encode_date dow day month year hrs mins secs is24hr ampm)"
  obtain b' where b': "bus_write B IIC_ADDR_RTC (0 # ?ds) b = (0, b')" "regs b' = ?ds"
    using D length_regs_bytes unfolding rtc_device_def by metis
  have "unat (8::u16) \<le> length (0 # ?ds)" "unat (8::u16) \<le> 32767" by simp_all
  from iic.write_law [OF T R this, of IIC_ADDR_RTC] b'(1)
  obtain hw' st' d' where "IICWrite T IIC_ADDR_RTC (0 # ?ds) 8 hw = okR (0, hw')" "R Idle st' d' hw' b'" by auto
  with v b' that show ?thesis by (simp add: SetDate_cases)
qed

lemma SetDate_stores:
  assumes "twi_master T (B :: 'b bus) R" and "rtc_device B regs at0" and "R Idle st d hw b"
    and "valid_date dow day month year hrs mins secs is24hr"
  obtains hw' st' d' b' where "SetDate T dow day month year hrs mins secs is24hr ampm hw = okR (0, hw')"
    "R Idle st' d' hw' b'" "regs b' = regs_bytes (encode_date dow day month year hrs mins secs is24hr ampm)"
  by (rule SetDate_transaction [OF assms])

text \<open>
  The two transactions that read the clock, the state of the bus after them, and what
  \<open>LogToSerial\<close> prints, given the contents of the registers.
\<close>

abbreviation clock_after :: "'b bus \<Rightarrow> 'b \<Rightarrow> 'b" where
  "clock_after B b \<equiv> snd (snd (bus_read B IIC_ADDR_RTC 7 (snd (bus_write B IIC_ADDR_RTC [0] b))))"

lemma clock_read:
  assumes T: "twi_master T (B :: 'b bus) R" and D: "rtc_device B regs at0" and R: "R Idle st d hw b"
    and junk: "length junk = 7"
  obtains hw1 hw2 st' d' where "IICWrite T IIC_ADDR_RTC [0, 0] 1 hw = okR (0, hw1)"
    "IICRead T IIC_ADDR_RTC junk 7 hw1 = okR (0, regs b, hw2)" "R Idle st' d' hw2 (clock_after B b)"
    "regs (clock_after B b) = regs b"
proof -
  obtain b1 where b1: "bus_write B IIC_ADDR_RTC [0] b = (0, b1)" "regs b1 = regs b" "at0 b1"
    using D unfolding rtc_device_def by metis
  obtain b2 where b2: "bus_read B IIC_ADDR_RTC 7 b1 = (0, regs b, b2)" "regs b2 = regs b"
    using D b1(2,3) unfolding rtc_device_def by metis
  have l7: "length (regs b) = 7" using D unfolding rtc_device_def by blast
  have "unat (1::u16) \<le> length [0, 0 :: u8]" "unat (1::u16) \<le> 32767"
    "unat (7::u16) \<le> length junk" "unat (7::u16) \<le> 32767" using junk by simp_all
  from iic.write_then_read [OF T R this, of IIC_ADDR_RTC] b1(1) b2(1) junk l7
  obtain hw1 hw2 st' d' where "IICWrite T IIC_ADDR_RTC [0, 0] 1 hw = okR (0, hw1)"
      "IICRead T IIC_ADDR_RTC junk 7 hw1 = okR (0, regs b, hw2)" "R Idle st' d' hw2 b2" by auto
  with b1(1) b2 that show ?thesis by simp
qed

lemma LogToSerial_transaction:
  assumes T: "twi_master T (B :: 'b bus) R" and D: "rtc_device B regs at0" and R: "R Idle st d hw b"
    and junk: "length junk = 7" and w: "weekday_ptr day_addr (bytes_regs (regs b)) = okR p"
    and len: "length (str_at p) < 43"
  obtains hw' st' d' where "LogToSerial T day_addr str_at junk msg hw io =
      okR (hw', serial_print (log_line (str_at p) (decode_date (bytes_regs (regs b))) msg) io)"
    "R Idle st' d' hw' (clock_after B b)" "regs (clock_after B b) = regs b"
proof -
  obtain hw1 hw2 st' d' where hw: "IICWrite T IIC_ADDR_RTC [0, 0] 1 hw = okR (0, hw1)"
      "IICRead T IIC_ADDR_RTC junk 7 hw1 = okR (0, regs b, hw2)" "R Idle st' d' hw2 (clock_after B b)"
      "regs (clock_after B b) = regs b"
    by (rule clock_read [OF T D R junk])
  have "length (log_line (str_at p) (decode_date (bytes_regs (regs b))) msg) < 200"
    using length_log_line [of "str_at p" "bytes_regs (regs b)" msg] len by linarith
  with hw(1,2) w have "LogToSerial T day_addr str_at junk msg hw io =
      okR (hw2, serial_print (log_line (str_at p) (decode_date (bytes_regs (regs b))) msg) io)"
    by (simp add: LogToSerial_def Let_def)
  with hw(3,4) that show ?thesis by blast
qed

lemma LogToSerial_prints:
  assumes "twi_master T (B :: 'b bus) R" and "rtc_device B regs at0" and "R Idle st d hw b"
    and "length junk = 7" and "weekday_ptr day_addr (bytes_regs (regs b)) = okR p" and "length (str_at p) < 43"
  obtains hw' st' d' b' where "LogToSerial T day_addr str_at junk msg hw io =
      okR (hw', serial_print (log_line (str_at p) (decode_date (bytes_regs (regs b))) msg) io)"
    "R Idle st' d' hw' b'" "regs b' = regs b"
  by (rule LogToSerial_transaction [OF assms(1-5), where str_at = str_at]) (use assms(6) in blast)+

lemma LogToSerial_bad_weekday:
  assumes T: "twi_master T (B :: 'b bus) R" and D: "rtc_device B regs at0" and R: "R Idle st d hw b"
    and junk: "length junk = 7" and w: "weekday_ptr day_addr (bytes_regs (regs b)) = failR e"
  shows "LogToSerial T day_addr str_at junk msg hw io = failR e"
proof -
  obtain hw1 hw2 where "IICWrite T IIC_ADDR_RTC [0, 0] 1 hw = okR (0, hw1)"
      "IICRead T IIC_ADDR_RTC junk 7 hw1 = okR (0, regs b, hw2)"
    by (rule clock_read [OF T D R junk])
  with w show ?thesis by (simp add: LogToSerial_def Let_def)
qed

text \<open>The line that shows the date in the registers \<open>r\<close>, for a weekday that is in the table.\<close>

definition weekday_ok :: "u8 list \<Rightarrow> bool" where
  "weekday_ok r \<longleftrightarrow> uint (r ! 3) AND 0x0f \<in> {1..7}"

abbreviation weekday_name :: "(nat \<Rightarrow> ptr) \<Rightarrow> u8 list \<Rightarrow> ptr" where
  "weekday_name day_addr r \<equiv> scast (ucast (day_addr (nat ((uint (r ! 3) AND 0x0f) - 1))) :: u8)"

definition date_line :: "(nat \<Rightarrow> ptr) \<Rightarrow> (ptr \<Rightarrow> string) \<Rightarrow> string \<Rightarrow> u8 list \<Rightarrow> string" where
  "date_line day_addr str_at msg r = log_line (str_at (weekday_name day_addr r)) (decode_date (bytes_regs r)) msg"

lemma weekday_ok_ptr: "weekday_ok r \<Longrightarrow> weekday_ptr day_addr (bytes_regs r) = okR (weekday_name day_addr r)"
  by (simp add: weekday_ok_def weekday_ptr_def bytes_regs_def Let_def)

lemma LogToSerial_date_line:
  assumes "twi_master T (B :: 'b bus) R" and "rtc_device B regs at0" and "R Idle st d hw b"
    and "length junk = 7" and "weekday_ok (regs b)" and "\<And>p. length (str_at p) < 43"
  obtains hw' st' d' where "LogToSerial T day_addr str_at junk msg hw io =
      okR (hw', serial_print (date_line day_addr str_at msg (regs b)) io)"
    "R Idle st' d' hw' (clock_after B b)" "regs (clock_after B b) = regs b"
  unfolding date_line_def
  by (rule LogToSerial_transaction [OF assms(1-4) weekday_ok_ptr [OF assms(5)] assms(6)])

section \<open>A concrete clock\<close>

text \<open>A clock chip for concrete runs: registers and a register pointer.\<close>

record rtcsim =
  rt_reg :: "nat \<Rightarrow> u8"
  rt_cur :: nat
  rt_cnt :: nat

definition rtc_bus :: "rtcsim bus" where
  "rtc_bus = \<lparr>
     bstart = (\<lambda>b. (True, b\<lparr>rt_cnt := 0\<rparr>)),
     baddr = (\<lambda>v b. (v AND 0xfe = IIC_ADDR_RTC, b)),
     bsend = (\<lambda>v b. (True,
       if rt_cnt b = 0 then b\<lparr>rt_cur := unat v, rt_cnt := 1\<rparr>
       else b\<lparr>rt_reg := (rt_reg b)(rt_cur b := v), rt_cur := Suc (rt_cur b)\<rparr>)),
     brecv = (\<lambda>ack b. (rt_reg b (rt_cur b), b\<lparr>rt_cur := Suc (rt_cur b)\<rparr>)),
     bstop = (\<lambda>b. b)\<rparr>"

definition rtc_regs :: "rtcsim \<Rightarrow> u8 list" where
  "rtc_regs b = map (rt_reg b) [0..<7]"

lemma rtc_simps [simp]:
  "bstart rtc_bus b = (True, b\<lparr>rt_cnt := 0\<rparr>)" "bstop rtc_bus b = b"
  "baddr rtc_bus (IIC_ADDR_RTC AND 0xfe) b = (True, b)" "baddr rtc_bus (IIC_ADDR_RTC OR 0x01) b = (True, b)"
  "brecv rtc_bus ack b = (rt_reg b (rt_cur b), b\<lparr>rt_cur := Suc (rt_cur b)\<rparr>)"
  "rt_cnt b = 0 \<Longrightarrow> bsend rtc_bus v b = (True, b\<lparr>rt_cur := unat v, rt_cnt := 1\<rparr>)"
  "rt_cnt b = 1 \<Longrightarrow> bsend rtc_bus v b = (True, b\<lparr>rt_reg := (rt_reg b)(rt_cur b := v), rt_cur := Suc (rt_cur b)\<rparr>)"
  by (simp_all add: rtc_bus_def IIC_ADDR_RTC_def)

lemma seven_regs: "rtc_regs b = [rt_reg b 0, rt_reg b 1, rt_reg b 2, rt_reg b 3, rt_reg b 4, rt_reg b 5, rt_reg b 6]"
  by (simp add: rtc_regs_def upt_rec numeral_eq_Suc)

lemma rtc_bus_device: "rtc_device rtc_bus rtc_regs (\<lambda>b. rt_cur b = 0)"
proof -
  have w: "\<exists>b'. bus_write rtc_bus IIC_ADDR_RTC (0 # ds) b = (0, b') \<and> rtc_regs b' = ds" if l: "length ds = 7" for b ds
  proof -
    obtain v0 v1 v2 v3 v4 v5 v6 where "ds = [v0, v1, v2, v3, v4, v5, v6]"
      using l by (auto simp: numeral_eq_Suc length_Suc_conv)
    then show ?thesis by (simp add: bus_write_def seven_regs)
  qed
  have p: "\<exists>b'. bus_write rtc_bus IIC_ADDR_RTC [0] b = (0, b') \<and> rtc_regs b' = rtc_regs b \<and> rt_cur b' = 0" for b
    by (simp add: bus_write_def rtc_regs_def)
  have r: "\<exists>b'. bus_read rtc_bus IIC_ADDR_RTC 7 b = (0, rtc_regs b, b') \<and> rtc_regs b' = rtc_regs b"
    if "rt_cur b = 0" for b
    using that by (simp add: bus_read_def seven_regs numeral_eq_Suc)
  show ?thesis unfolding rtc_device_def using w p r by (simp add: seven_regs)
qed

section \<open>Properties of the clock logger\<close>


lemma demo_date: "valid_date 5 6 9 22 8 58 0 False"
  by (simp add: valid_date_def maxmonthdays_def)

definition demo_rtc :: rtcsim where
  "demo_rtc = \<lparr>rt_reg = (\<lambda>_. 0), rt_cur = 0, rt_cnt = 0\<rparr>"


text \<open>
  \<open>SetDate\<close> refuses every date that does not exist on its tables without any bus
  traffic, and reports it with 0, the value its documentation gives to success.
\<close>

lemma SetDate_invalid:
  assumes "\<not> valid_date dow day month year hrs mins secs is24hr"
  shows "SetDate T dow day month year hrs mins secs is24hr ampm hw = okR (0, hw)"
  using assms by (simp add: SetDate_cases)

lemma SetDate_invalid_witness:
  "SetDate (sim_twi 2 rtc_bus) 5 31 4 22 8 58 0 True False (sim_idle demo_rtc) = okR (0, sim_idle demo_rtc)"
  by (rule SetDate_invalid) (simp add: valid_date_def maxmonthdays_def)



text \<open>
  The weekday name is never the one in the table: the variable that receives its
  address is a \<open>char\<close>, so for literals in the data memory of the microcontroller (addresses
  0x0100 to 0x08FF) the address that reaches \<open>sprintf\<close> is a different one.
\<close>

lemma weekday_address_truncated:
  assumes "uint (rtc_wkday r) AND 0x0f = int i + 1" and "i < 7"
    and "0x0100 \<le> day_addr i" and "day_addr i \<le> 0x08FF"
  shows "\<exists>p. weekday_ptr day_addr r = okR p \<and> p \<noteq> day_addr i"
proof -
  let ?p = "scast (ucast (day_addr i) :: u8) :: ptr"
  have "weekday_ptr day_addr r = okR ?p" using assms(1,2) by (simp add: weekday_ptr_def Let_def)
  moreover have "?p \<noteq> day_addr i"
  proof
    assume e: "?p = day_addr i"
    have c: "- 128 \<le> sint (ucast (day_addr i) :: u8)" "sint (ucast (day_addr i) :: u8) < 128"
      using sint_ge [of "ucast (day_addr i) :: u8"] sint_lt [of "ucast (day_addr i) :: u8"] by simp_all
    then have "sint ?p = sint (ucast (day_addr i) :: u8)"
      by (simp add: signed_scast_eq signed_take_bit_int_eq_self)
    with c have "sint ?p < 128" by simp
    moreover have "uint (day_addr i) < 2 ^ 15" "0x100 \<le> uint (day_addr i)"
      using assms(3,4) by (simp_all add: word_le_def)
    then have "sint (day_addr i) = uint (day_addr i)" by (simp add: sint_uint signed_take_bit_int_eq_self)
    ultimately show False using e \<open>0x100 \<le> uint (day_addr i)\<close> by simp
  qed
  ultimately show ?thesis by blast
qed

lemma weekday_address_truncated_witness:
  "\<exists>p. weekday_ptr (\<lambda>i. 0x0120 + of_nat i) (encode_date 5 6 9 22 8 58 0 False True) = okR p \<and> p \<noteq> 0x0124"
  using weekday_address_truncated [of "encode_date 5 6 9 22 8 58 0 False True" 4 "\<lambda>i. 0x0120 + of_nat i"]
    encode_wkday [OF demo_date] by simp

end
