(* ===== verification/Application.thy ===== *)
theory Application
  imports Kernel_Main Toggle Log_Task
begin

text \<open>
  The application on the kernel: task objects of the classes of \<open>src/ENDG3051_APP\<close>, started
  with \<open>Task::Start\<close> and run by the main loop. The virtual member \<open>TaskLoop\<close> is
  dispatched on the class of the object; every call of \<open>millis()\<close> takes the next reading of
  the clock. The properties of the single tasks are carried over to the whole system:
  each task evolves as if it were alone, polled at its own turns.
\<close>

section \<open>Objects\<close>

text \<open>
  The classes derived from \<open>Task\<close>. An object is known by its address; the memory of
  the objects is the map \<open>objects\<close>.
\<close>

datatype task_object = OToggle toggletask | OLed toggleled | OLog logtask

record 'hw app = io +
  objects :: "ptr \<rightharpoonup> task_object"
  reads :: nat
  bus_hw :: 'hw

text \<open>
  What the application takes from outside: the real time in milliseconds at the successive
  calls of \<open>millis()\<close>, the TWI peripheral, and the linker's and stack's contents that
  \<open>LogToSerial\<close> reads.
\<close>

record 'hw app_env =
  ae_clock :: "nat \<Rightarrow> nat"
  ae_twi :: "'hw twi"
  ae_days :: "nat \<Rightarrow> ptr"
  ae_str :: "ptr \<Rightarrow> string"
  ae_junk :: "u8 list"

fun object_timer :: "task_object \<Rightarrow> ostimer" where
  "object_timer (OToggle t) = tm t"
| "object_timer (OLed t) = tm t"
| "object_timer (OLog t) = lt_tm t"

fun object_TaskLoop :: "'hw app_env \<Rightarrow> u32 \<Rightarrow> u32 \<Rightarrow> task_object \<Rightarrow> 'hw app \<Rightarrow> (task_object \<times> 'hw app) res" where
  "object_TaskLoop E now now' (OToggle t) a =
     (let (t', a') = ToggleTask_TaskLoop ToggleTask_Toggle now now' t a in okR (OToggle t', a'))"
| "object_TaskLoop E now now' (OLed t) a =
     (let (t', a') = ToggleLED_TaskLoop now now' t a in okR (OLed t', a'))"
| "object_TaskLoop E now now' (OLog t) a =
     bindR (LogTask_TaskLoop (ae_twi E) (ae_days E) (ae_str E) (ae_junk E) now now' t (bus_hw a) a)
       (\<lambda>(t', hw', a'). okR (OLog t', a'\<lparr>bus_hw := hw'\<rparr>))"

text \<open>
  The call of the virtual \<open>TaskLoop\<close> through a pointer: a pointer to no object is a fault.
  The clock is read by \<open>isExpired\<close>, and again by \<open>Restart\<close> when the timer has expired.
\<close>

definition TaskLoop :: "'hw app_env \<Rightarrow> ptr \<Rightarrow> 'hw app \<Rightarrow> ('hw app) res" where
  "TaskLoop E this a = (case objects a this of
     None \<Rightarrow> failR BadPointer
   | Some ob \<Rightarrow>
       (let now = of_nat (ae_clock E (reads a)); now' = of_nat (ae_clock E (Suc (reads a))) in
        bindR (object_TaskLoop E now now' ob a) (\<lambda>(ob', a').
        okR (a'\<lparr>objects := (objects a)(this \<mapsto> ob'),
          reads := reads a + (if expired_class now (object_timer ob) then 2 else 1)\<rparr>))))"

text \<open>
  \<open>EventReceiver::EventHandler\<close>: its body is empty and none of the classes overrides it.
\<close>

definition EventHandler :: "ptr \<Rightarrow> int \<Rightarrow> ptr \<Rightarrow> 'hw app \<Rightarrow> ('hw app) res" where
  "EventHandler this i ctx a = (case objects a this of None \<Rightarrow> failR BadPointer | Some ob \<Rightarrow> okR a)"

text \<open>The same as bodies for the kernel; the application registers no functions.\<close>

type_synonym 'hw system = "('hw app) taskring_scheme"

definition on_app :: "('hw app \<Rightarrow> ('hw app) res) \<Rightarrow> 'hw system \<Rightarrow> ('hw system) res" where
  "on_app f s = bindR (f (taskring.more s)) (\<lambda>a. okR (taskring.more_update (\<lambda>_. a) s))"

definition app_tasks :: "'hw app_env \<Rightarrow> ('hw system) task_loops" where
  "app_tasks E this = on_app (TaskLoop E this)"

definition app_task_fns :: "('hw system) task_fns" where
  "app_task_fns f c s = failR BadPointer"

definition app_receivers :: "('hw system) recv_bodies" where
  "app_receivers this i ctx = on_app (EventHandler this i ctx)"

definition app_msg_fns :: "('hw system) fn_bodies" where
  "app_msg_fns f ctx s = failR BadPointer"

abbreviation app_loops :: "'hw app_env \<Rightarrow> nat \<Rightarrow> 'hw system \<Rightarrow> ('hw system) res" where
  "app_loops E \<equiv> kernel_loops app_msg_fns app_receivers app_task_fns (app_tasks E)"

section \<open>A kernel without subscribers\<close>

text \<open>
  No class of the application subscribes to a message: \<open>Loop\<close> takes messages off the queue
  and releases them, and nothing else happens, whatever the handlers are.
\<close>

lemma Loop_body_no_subs:
  assumes inv: "mq_inv s (\<lambda>_. []) [] M"
  shows "\<exists>s'. Loop_body fb rb s = okR s' \<and> mq_inv s' (\<lambda>_. []) [] (tl M) \<and> mq.more s' = mq.more s \<and>
    (\<forall>p t. cells s p = Some (CTask t) \<longrightarrow> cells s' p = Some (CTask t))"
proof (cases M)
  case Nil
  then show ?thesis using Loop_body_idle [OF inv [unfolded Nil]] by auto
next
  case (Cons x M1)
  obtain p l where x: "x = (p, l)" by (cases x)
  obtain s1 m where s1: "pop_message s = okR (p, s1)" "mq_inv s1 (\<lambda>_. []) [l] M1" "p \<noteq> NULL"
      "cells s1 p = Some (CMessage m)" "letter_of m = l" "p \<notin> set (addrs M1)" "mq.more s1 = mq.more s"
      "cells s1 = cells s"
    using mq_inv_pop [of s "\<lambda>_. []" "[]" p l M1] inv Cons x by blast
  have v: "0 \<le> msgid m" "msgid m < 26" using s1(2,5) by (auto simp: mq_inv_def valid_letter_def letter_of_def)
  have "QueueBlock s1 ! nat (msgid m) = NULL" using mq_inv_chain [OF s1(2), of "nat (msgid m)"] v by simp
  moreover obtain s2 where s2: "free_message p s1 = okR s2" "mq_inv s2 (\<lambda>_. []) [] M1" "mq.more s2 = mq.more s1"
      "cells s2 = (\<lambda>q. if q = p \<or> q \<in> set (owned_ctx l) then None else cells s1 q)"
    using free_message_inv [OF s1(2,4,5,6)] by blast
  ultimately have "Loop_body fb rb s = okR s2"
    using s1 v by (simp add: Loop_body_def get_message_def read_block_def dispatch.simps)
  moreover have "cells s2 q = Some (CTask t)" if "cells s q = Some (CTask t)" for q t
    using that s1(4,8) s2(4) mq_inv_owned [OF s1(2), of q] by auto
  ultimately show ?thesis using s2 s1(7) Cons by auto
qed

lemma MQ_Loop_no_subs:
  "mq_inv s (\<lambda>_. []) [] M \<Longrightarrow> \<exists>s'. MQ_Loop fb rb (int n) s = okR s' \<and> mq_inv s' (\<lambda>_. []) [] (drop n M) \<and>
     mq.more s' = mq.more s \<and> (\<forall>p t. cells s p = Some (CTask t) \<longrightarrow> cells s' p = Some (CTask t))"
proof (induction n arbitrary: s M)
  case 0
  then show ?case by (auto simp: MQ_Loop_0)
next
  case (Suc n)
  obtain s1 where s1: "Loop_body fb rb s = okR s1" "mq_inv s1 (\<lambda>_. []) [] (tl M)" "mq.more s1 = mq.more s"
      "\<forall>p t. cells s p = Some (CTask t) \<longrightarrow> cells s1 p = Some (CTask t)"
    using Loop_body_no_subs [OF Suc.prems] by blast
  from Suc.IH [OF s1(2)] s1 show ?case unfolding MQ_Loop_Suc by (auto simp: drop_Suc)
qed

section \<open>One iteration of the main loop\<close>

text \<open>\<open>turn_of T k\<close> is the index of the task whose turn it is.\<close>

definition turn_of :: "(ptr \<times> job) list \<Rightarrow> nat \<Rightarrow> nat" where
  "turn_of T k = (if k = length T then 0 else k)"

text \<open>
  An iteration delivers two messages and then runs \<open>TaskLoop\<close> of the object whose turn it
  is on the application's state; the ring stays as it is and the cursor moves on.
\<close>

lemma app_turn:
  assumes inv: "kernel_inv s (\<lambda>_. []) M T k" and T: "T \<noteq> []" and job: "snd (T ! turn_of T k) = ClassJob p"
    and run: "TaskLoop E p (taskring.more s) = okR a'"
  shows "\<exists>s'. loop fb rb tf (app_tasks E) s = okR s' \<and> kernel_inv s' (\<lambda>_. []) (drop 2 M) T (Suc (turn_of T k)) \<and>
    taskring.more s' = a'"
proof -
  obtain s1 where s1: "MQ_Loop fb rb (int 2) s = okR s1" "mq_inv s1 (\<lambda>_. []) [] (drop 2 M)" "mq.more s1 = mq.more s"
      "\<forall>p t. cells s p = Some (CTask t) \<longrightarrow> cells s1 p = Some (CTask t)"
    using MQ_Loop_no_subs [of s M fb rb 2] inv by (auto simp: kernel_inv_def)
  note m1 = more_fields [OF s1(3)]
  have at: "ring_at s1 T k"
    by (rule ring_at_frame [of s]) (use inv m1 s1(4) mq_inv_heap [OF s1(2)] in \<open>auto simp: kernel_inv_def\<close>)
  define s0 where "s0 = (if pCur s1 = NULL then s1\<lparr>pCur := pHead s1\<rparr> else s1)"
  note w = wrap_cursor [OF at T, folded turn_of_def s0_def]
  let ?t = "taskring.more_update (\<lambda>_. a') s0"
  have "run_job tf (app_tasks E) (snd (T ! turn_of T k)) s0 = okR ?t"
    using job run w(5) m1 by (simp add: app_tasks_def on_app_def)
  from TaskRing_Loop_turn [OF at T, folded turn_of_def s0_def, OF this, of "[]"] w(4) obtain c where
    c: "TaskRing_Loop tf (app_tasks E) s1 = okR (?t\<lparr>pCur := c\<rparr>)" "ring_at (?t\<lparr>pCur := c\<rparr>) T (Suc (turn_of T k))"
    by auto
  have "mq_inv (?t\<lparr>pCur := c\<rparr>) (\<lambda>_. []) [] (drop 2 M)" using s1(2) by (simp add: s0_def)
  with c s1(1) show ?thesis by (auto simp: loop_def kernel_inv_def)
qed

section \<open>What a turn does to the objects\<close>

text \<open>
  The devices of the application: the peripheral drives a bus with a clock chip whose weekday
  register is in range, the names found in memory are short, the buffer on the stack has
  the size of the registers.
\<close>

definition devices_ok :: "'hw app_env \<Rightarrow> 'b bus \<Rightarrow> ('hw, 'b) twi_rel \<Rightarrow> ('b \<Rightarrow> u8 list) \<Rightarrow> ('b \<Rightarrow> bool) \<Rightarrow> bool" where
  "devices_ok E B R regs at0 \<longleftrightarrow> twi_master (ae_twi E) B R \<and> rtc_device B regs at0 \<and> length (ae_junk E) = 7 \<and>
     (\<forall>p. length (ae_str E p) < 43)"

text \<open>The bus is idle and the clock registers are \<open>r\<close>.\<close>

definition bus_idle :: "('hw, 'b) twi_rel \<Rightarrow> ('b \<Rightarrow> u8 list) \<Rightarrow> u8 list \<Rightarrow> 'hw app \<Rightarrow> bool" where
  "bus_idle R regs r a \<longleftrightarrow> (\<exists>st d b. R Idle st d (bus_hw a) b \<and> regs b = r)"

text \<open>The line the logger prints.\<close>

definition log_of :: "'hw app_env \<Rightarrow> u8 list \<Rightarrow> string" where
  "log_of E r = date_line (ae_days E) (ae_str E) ''log message'' r"

lemma log_turn:
  assumes dev: "devices_ok E (B :: 'b bus) R regs at0" and bus: "bus_idle R regs r (a :: 'hw app)" and wd: "weekday_ok r"
  shows "\<exists>t' hw'. LogTask_TaskLoop (ae_twi E) (ae_days E) (ae_str E) (ae_junk E) now now' t (bus_hw a) a =
      okR (t', hw', if expired_class now (lt_tm t) then serial_print (log_of E r) a else a) \<and>
    lt_tm t' = (if expired_class now (lt_tm t) then Restart now' (lt_tm t) else lt_tm t) \<and>
    bus_idle R regs r (a\<lparr>bus_hw := hw'\<rparr>)"
proof -
  obtain st d b where b: "R Idle st d (bus_hw a) b" "regs b = r" using bus by (auto simp: bus_idle_def)
  have d: "twi_master (ae_twi E) B R" "rtc_device B regs at0" "length (ae_junk E) = 7" "\<And>p. length (ae_str E p) < 43"
    using dev by (auto simp: devices_ok_def)
  obtain hw' st' d' where "LogToSerial (ae_twi E) (ae_days E) (ae_str E) (ae_junk E) ''log message'' (bus_hw a) a =
      okR (hw', serial_print (log_of E r) a)" "R Idle st' d' hw' (clock_after B b)" "regs (clock_after B b) = regs b"
    unfolding log_of_def b(2) [symmetric]
    by (rule LogToSerial_date_line [OF d(1,2) b(1) d(3) wd [folded b(2)] d(4)])
  with bus b(2) show ?thesis by (auto simp: LogTask_TaskLoop_def bus_idle_def)
qed

section \<open>The turns of the tasks\<close>

text \<open>
  \<open>task_turns\<close> calls \<open>TaskLoop\<close> of the listed objects one after the other;
  \<open>schedule\<close> lists the objects the scheduler takes in \<open>n\<close> iterations.
\<close>

fun task_turns :: "'hw app_env \<Rightarrow> ptr list \<Rightarrow> 'hw app \<Rightarrow> ('hw app) res" where
  "task_turns E [] a = okR a"
| "task_turns E (p # ps) a = bindR (TaskLoop E p a) (task_turns E ps)"

fun schedule :: "(ptr \<times> job) list \<Rightarrow> nat \<Rightarrow> nat \<Rightarrow> ptr list" where
  "schedule T k 0 = []"
| "schedule T k (Suc n) = job_ptr (snd (T ! turn_of T k)) # schedule T (Suc (turn_of T k)) n"

lemma turn_mod: "k \<le> length T \<Longrightarrow> T \<noteq> [] \<Longrightarrow> turn_of T k = k mod length T"
  by (auto simp: turn_of_def)

lemma schedule_nth:
  "T \<noteq> [] \<Longrightarrow> k \<le> length T \<Longrightarrow> i < n \<Longrightarrow> schedule T k n ! i = job_ptr (snd (T ! ((k + i) mod length T)))"
proof (induction n arbitrary: k i)
  case (Suc n)
  have k: "turn_of T k = k mod length T" "Suc (turn_of T k) \<le> length T"
    using Suc.prems turn_mod [of k T] by (auto simp: turn_of_def Suc_le_eq)
  show ?case
  proof (cases i)
    case (Suc j)
    have "(Suc (k mod length T) + j) mod length T = (k + i) mod length T"
      using Suc by (metis add_Suc_shift mod_add_left_eq add_Suc_right add_Suc)
    with Suc Suc.prems Suc.IH [OF Suc.prems(1) k(2), of j] k(1) show ?thesis by simp
  qed (use k in simp)
qed simp

lemma length_schedule [simp]: "length (schedule T k n) = n"
  by (induction n arbitrary: k) auto

lemma schedule_eq:
  "T \<noteq> [] \<Longrightarrow> k \<le> length T \<Longrightarrow>
     schedule T k n = map (\<lambda>i. job_ptr (snd (T ! ((k + i) mod length T)))) [0..<n]"
  by (intro nth_equalityI) (simp_all add: schedule_nth)

text \<open>
  The main loop runs the tasks in this order, each on the state the one before left: the
  message queue and the ring add nothing to it.
\<close>

lemma app_loops_turns:
  "kernel_inv s (\<lambda>_. []) M T k \<Longrightarrow> T \<noteq> [] \<Longrightarrow> \<forall>j \<in> set (vals T). \<exists>p. j = ClassJob p \<Longrightarrow>
     task_turns E (schedule T k n) (taskring.more s) = okR a' \<Longrightarrow>
     \<exists>s' k'. app_loops E n s = okR s' \<and> kernel_inv s' (\<lambda>_. []) (drop (2 * n) M) T k' \<and> taskring.more s' = a'"
proof (induction n arbitrary: s M k)
  case 0
  then show ?case by auto
next
  case (Suc n)
  have i: "turn_of T k < length T" using Suc.prems(1,2) by (auto simp: turn_of_def kernel_inv_def ring_at_def)
  then have "snd (T ! turn_of T k) \<in> set (vals T)" by auto
  then obtain p where p: "snd (T ! turn_of T k) = ClassJob p" using Suc.prems(3) by blast
  then obtain a1 where a1: "TaskLoop E p (taskring.more s) = okR a1"
      "task_turns E (schedule T (Suc (turn_of T k)) n) a1 = okR a'"
    using Suc.prems(4) by (auto simp: bindR_ok_iff)
  from app_turn [OF Suc.prems(1,2) p a1(1)] obtain s1 where
    s1: "loop app_msg_fns app_receivers app_task_fns (app_tasks E) s = okR s1"
      "kernel_inv s1 (\<lambda>_. []) (drop 2 M) T (Suc (turn_of T k))" "taskring.more s1 = a1" by blast
  from Suc.IH [OF s1(2) Suc.prems(2,3)] s1(1,3) a1(2) show ?case by auto
qed

section \<open>A task seen alone\<close>

text \<open>
  The readings of the clock at successive turns: \<open>ix\<close> holds the number of the first reading
  of each turn, which takes one or two. \<open>own_polls\<close> are the clock values at the turns of the
  task \<open>p\<close>.
\<close>

fun readings :: "nat \<Rightarrow> nat list \<Rightarrow> bool" where
  "readings k [] = True"
| "readings k (i # ix) = (i = k \<and> (readings (k + 1) ix \<or> readings (k + 2) ix))"

fun own_polls :: "'hw app_env \<Rightarrow> ptr \<Rightarrow> ptr list \<Rightarrow> nat list \<Rightarrow> (nat \<times> nat) list" where
  "own_polls E p (q # qs) (i # ix) =
     (if q = p then [(ae_clock E i, ae_clock E (Suc i))] else []) @ own_polls E p qs ix"
| "own_polls E p _ _ = []"

lemma length_own_polls: "length ix = length ps \<Longrightarrow> length (own_polls E p ps ix) = count_list ps p"
  by (induction ps ix rule: list_induct2') auto

text \<open>
  \<open>view\<close> is what one task, at the address \<open>this\<close>, can see and change of the
  application. Its own turns change it by \<open>step\<close>, as a function of the two readings of
  the clock; turns of the other tasks leave it alone, and \<open>ok\<close> is kept by all of them. Then
  the task evolves in the system as it would alone, polled at its own turns.
\<close>

locale task_view =
  fixes E :: "'hw app_env" and this :: ptr and others :: "ptr set"
    and ok :: "'hw app \<Rightarrow> bool" and view :: "'hw app \<Rightarrow> 'v" and step :: "nat \<times> nat \<Rightarrow> 'v \<Rightarrow> 'v"
  assumes own_turn: "ok a \<Longrightarrow> \<exists>a'. TaskLoop E this a = okR a' \<and> ok a' \<and>
      view a' = step (ae_clock E (reads a), ae_clock E (Suc (reads a))) (view a)"
    and other_turn: "ok a \<Longrightarrow> q \<in> others \<Longrightarrow> q \<noteq> this \<Longrightarrow> \<exists>a'. TaskLoop E q a = okR a' \<and> ok a' \<and> view a' = view a"
begin

lemma turn_reads: "TaskLoop E q a = okR a' \<Longrightarrow> reads a' = reads a + 1 \<or> reads a' = reads a + 2"
  by (auto simp: TaskLoop_def Let_def bindR_ok_iff split: option.splits if_splits)

lemma turns_view:
  "ok a \<Longrightarrow> set ps \<subseteq> insert this others \<Longrightarrow> mono (ae_clock E) \<Longrightarrow>
     ae_clock E (reads a + 2 * length ps) < u \<Longrightarrow>
     \<exists>a' ix. task_turns E ps a = okR a' \<and> ok a' \<and> length ix = length ps \<and> readings (reads a) ix \<and>
       view a' = fold step (own_polls E this ps ix) (view a) \<and>
       ordered_polls (ae_clock E (reads a)) u (own_polls E this ps ix)"
proof (induction ps arbitrary: a)
  case Nil
  then show ?case by (intro exI [of _ a] exI [of _ "[]"]) simp
next
  case (Cons q ps)
  define st where "st = (if q = this then [(ae_clock E (reads a), ae_clock E (Suc (reads a)))] else [])"
  obtain a1 where a1: "TaskLoop E q a = okR a1" "ok a1" "view a1 = fold step st (view a)"
    using own_turn [OF Cons.prems(1)] other_turn [OF Cons.prems(1), of q] Cons.prems(2)
    by (cases "q = this") (auto simp: st_def)
  note m = monoD [OF Cons.prems(3)]
  have r: "reads a1 = reads a + 1 \<or> reads a1 = reads a + 2" by (rule turn_reads [OF a1(1)])
  then have "ae_clock E (reads a1 + 2 * length ps) < u" "ae_clock E (Suc (reads a)) < u"
    using m [of "reads a1 + 2 * length ps" "reads a + 2 * length (q # ps)"]
      m [of "Suc (reads a)" "reads a + 2 * length (q # ps)"] Cons.prems(4) by auto
  moreover have "ae_clock E (reads a) \<le> ae_clock E (Suc (reads a))" "ae_clock E (Suc (reads a)) \<le> ae_clock E (reads a1)"
    using m r by auto
  moreover obtain a' ix where a': "task_turns E ps a1 = okR a'" "ok a'" "length ix = length ps" "readings (reads a1) ix"
      "view a' = fold step (own_polls E this ps ix) (view a1)"
      "ordered_polls (ae_clock E (reads a1)) u (own_polls E this ps ix)"
    using Cons.IH [OF a1(2) _ Cons.prems(3)] Cons.prems(2) calculation(1) by auto
  ultimately have "ordered_polls (ae_clock E (reads a)) u (own_polls E this (q # ps) (reads a # ix))"
    using ordered_polls_mono [OF a'(6)] by (auto simp: st_def)
  with a1 a' r show ?case
    by (intro exI [of _ a'] exI [of _ "reads a # ix"]) (auto simp: st_def)
qed

end

section \<open>The turns of each class\<close>

text \<open>What all turns rely on and keep: the bus is idle and the tasks are objects.\<close>

definition app_ok :: "'hw app_env \<Rightarrow> 'b bus \<Rightarrow> ('hw, 'b) twi_rel \<Rightarrow> ('b \<Rightarrow> u8 list) \<Rightarrow> ('b \<Rightarrow> bool) \<Rightarrow> u8 list \<Rightarrow>
    ptr set \<Rightarrow> 'hw app \<Rightarrow> bool" where
  "app_ok E B R regs at0 r Q a \<longleftrightarrow> devices_ok E B R regs at0 \<and> weekday_ok r \<and> bus_idle R regs r a \<and>
     (\<forall>q \<in> Q. objects a q \<noteq> None)"

definition same_pins :: "'a io_scheme \<Rightarrow> 'b io_scheme \<Rightarrow> bool" where
  "same_pins a b \<longleftrightarrow> PORTB a = PORTB b \<and> DDRB a = DDRB b"

text \<open>The readings of the clock at the next turn.\<close>

abbreviation "now_of E a \<equiv> of_nat (ae_clock E (reads a)) :: u32"
abbreviation "now_of' E a \<equiv> of_nat (ae_clock E (Suc (reads a))) :: u32"

lemma TaskLoop_base:
  assumes "objects a q = Some (OToggle t)"
  shows "\<exists>a' t'. TaskLoop E q a = okR a' \<and> objects a' = (objects a)(q \<mapsto> OToggle t') \<and> same_pins a' a \<and>
    bus_hw a' = bus_hw a"
  using assms by (auto simp: TaskLoop_def Let_def ToggleTask_TaskLoop_def ToggleTask_Toggle_def same_pins_def
      serial_println_def serial_print_def)

lemma TaskLoop_led:
  assumes "objects a q = Some (OLed t)"
  shows "\<exists>a'. TaskLoop E q a = okR a' \<and> serial a' = serial a \<and> bus_hw a' = bus_hw a \<and>
    objects a' = (objects a)(q \<mapsto> OLed (fst (ToggleLED_TaskLoop (now_of E a) (now_of' E a) t a))) \<and>
    same_pins a' (snd (ToggleLED_TaskLoop (now_of E a) (now_of' E a) t a))"
  using assms by (auto simp: TaskLoop_def Let_def ToggleLED_TaskLoop_def ToggleTask_TaskLoop_def ToggleLED_Toggle_def
      same_pins_def)

lemma TaskLoop_log:
  assumes "objects a q = Some (OLog t)" and ok: "app_ok E B R regs at0 r Q a"
  shows "\<exists>a' t'. TaskLoop E q a = okR a' \<and> objects a' = (objects a)(q \<mapsto> OLog t') \<and> same_pins a' a \<and>
    bus_idle R regs r a' \<and>
    (lt_tm t', serial a') = (if expired_class (now_of E a) (lt_tm t)
       then (Restart (now_of' E a) (lt_tm t), serial a @ log_of E r) else (lt_tm t, serial a))"
proof -
  have "devices_ok E B R regs at0" "bus_idle R regs r a" "weekday_ok r" using ok by (auto simp: app_ok_def)
  from log_turn [OF this, of "now_of E a" "now_of' E a" t] assms(1) show ?thesis
    by (auto simp: TaskLoop_def Let_def same_pins_def serial_print_def bus_idle_def) blast+
qed

lemma bus_idle_cong: "bus_hw a' = bus_hw a \<Longrightarrow> bus_idle R regs r a' = bus_idle R regs r a"
  by (simp add: bus_idle_def)

text \<open>Every turn succeeds and keeps the invariant; it changes no object but its own, and not its class.\<close>

fun same_class :: "task_object \<Rightarrow> task_object \<Rightarrow> bool" where
  "same_class (OToggle t) (OToggle t') = True"
| "same_class (OLed t) (OLed t') = (ddrb t = ddrb t')"
| "same_class (OLog t) (OLog t') = True"
| "same_class _ _ = False"

lemma led_keeps_port: "ddrb (fst (ToggleLED_TaskLoop now now' t b)) = ddrb t"
  by (simp add: ToggleLED_TaskLoop_def ToggleTask_TaskLoop_def Let_def)

lemma TaskLoop_ok:
  assumes ok: "app_ok E B R regs at0 r Q a" and q: "objects a q = Some ob"
  obtains a' ob' where "TaskLoop E q a = okR a'" "app_ok E B R regs at0 r Q a'"
    "objects a' = (objects a)(q \<mapsto> ob')" "same_class ob ob'"
proof -
  have "\<exists>a' ob'. TaskLoop E q a = okR a' \<and> bus_idle R regs r a' \<and> objects a' = (objects a)(q \<mapsto> ob') \<and> same_class ob ob'"
    using ok q TaskLoop_base [of a q] TaskLoop_led [of a q] TaskLoop_log [OF _ ok, of q]
    by (cases ob) (fastforce simp: app_ok_def led_keeps_port cong: bus_idle_cong)+
  with ok that show thesis by (fastforce simp: app_ok_def)
qed

lemma toggle_of_class: "same_class (OLed t) ob \<longleftrightarrow> (\<exists>t'. ob = OLed t' \<and> ddrb t' = ddrb t)"
  "same_class ob (OLed t) \<longleftrightarrow> (\<exists>t'. ob = OLed t' \<and> ddrb t' = ddrb t)"
  "same_class (OLog l) ob \<longleftrightarrow> (\<exists>l'. ob = OLog l')"
  by (cases ob; auto)+

section \<open>A blinking task in the system\<close>

text \<open>
  The LED at \<open>p\<close> sees its own object and its pins; it has them to itself when no other task
  drives one of its pins.
\<close>

definition led_ok :: "ptr \<Rightarrow> u8 \<Rightarrow> ptr set \<Rightarrow> 'hw app \<Rightarrow> bool" where
  "led_ok p port Q a \<longleftrightarrow> (\<exists>t. objects a p = Some (OLed t) \<and> ddrb t = port) \<and>
     (\<forall>q \<in> Q. q \<noteq> p \<longrightarrow> (\<forall>t. objects a q = Some (OLed t) \<longrightarrow> ddrb t AND port = 0))"

definition led_of :: "task_object option \<Rightarrow> toggleled" where
  "led_of x = (case x of Some (OLed t) \<Rightarrow> t | _ \<Rightarrow> \<lparr>tm = OSTimer 0 0, toggleflag = False, ddrb = 0\<rparr>)"

definition led_view :: "ptr \<Rightarrow> u8 \<Rightarrow> 'hw app \<Rightarrow> toggleled \<times> io" where
  "led_view p port a = (led_of (objects a p), \<lparr>PORTB = PORTB a AND port, DDRB = DDRB a, serial = [], baud = 0\<rparr>)"

definition led_step :: "u8 \<Rightarrow> nat \<times> nat \<Rightarrow> toggleled \<times> io \<Rightarrow> toggleled \<times> io" where
  "led_step port = (\<lambda>(x, y) (t, b). ToggleTask_TaskLoop (ToggleLED_Toggle port) (of_nat x) (of_nat y) t b)"

lemma fold_led_step: "fold (led_step port) qs tb = toggle_polls (ToggleLED_Toggle port) qs tb"
  by (induction qs arbitrary: tb) (auto simp: led_step_def)

lemma Toggle_mask: "PORTB (ToggleLED_Toggle port x b) AND port = (if x then port else 0)"
  by (intro bit_word_eqI) (auto simp: bit_and_iff Toggle_bit)

lemma Toggle_other:
  assumes "port' AND port = 0"
  shows "PORTB (ToggleLED_Toggle port' x b) AND port = PORTB b AND port"
proof -
  have "\<not> (bit port' i \<and> bit port i)" for i using assms by (metis bit_and_iff bit_0_eq bot_apply bot_bool_def)
  then show ?thesis by (intro bit_word_eqI) (auto simp: bit_and_iff Toggle_bit)
qed

lemma led_view_other:
  assumes ok: "app_ok E B R regs at0 r Q a" and led: "led_ok p port Q a" and q: "q \<in> Q" "q \<noteq> p"
    and run: "TaskLoop E q a = okR a'" "objects a' = (objects a)(q \<mapsto> ob')"
  shows "led_view p port a' = led_view p port a"
proof -
  obtain ob where ob: "objects a q = Some ob" using ok q(1) by (auto simp: app_ok_def)
  have "PORTB a' AND port = PORTB a AND port \<and> DDRB a' = DDRB a"
  proof (cases ob)
    case (OToggle t)
    then show ?thesis using TaskLoop_base [of a q t E] ob run(1) by (auto simp: same_pins_def)
  next
    case (OLed t)
    then have "ddrb t AND port = 0" using led q ob by (auto simp: led_ok_def)
    then show ?thesis using TaskLoop_led [of a q t E] ob OLed run(1)
      by (auto simp: same_pins_def ToggleLED_TaskLoop_def ToggleTask_TaskLoop_def Let_def Toggle_other frame)
  next
    case (OLog t)
    then show ?thesis using TaskLoop_log [OF _ ok, of q t] ob run(1) by (auto simp: same_pins_def)
  qed
  with run(2) q(2) show ?thesis by (simp add: led_view_def)
qed

lemma led_view_own:
  assumes p: "objects a p = Some (OLed t)" "ddrb t = port" and run: "TaskLoop E p a = okR a'"
  shows "led_view p port a' = led_step port (ae_clock E (reads a), ae_clock E (Suc (reads a))) (led_view p port a)"
  using TaskLoop_led [OF p(1), of E] run p
  by (auto simp: led_view_def led_step_def led_of_def same_pins_def ToggleLED_TaskLoop_def ToggleTask_TaskLoop_def
      Let_def Toggle_mask frame) (auto simp: ToggleLED_Toggle_def Let_def and.assoc)

lemma led_ok_turn:
  assumes "led_ok p port Q a" and "objects a' = (objects a)(q \<mapsto> ob')" and "objects a q = Some ob" and "same_class ob ob'"
  shows "led_ok p port Q a'"
  using assms by (auto simp: led_ok_def toggle_of_class) metis

interpretation led: task_view E p Q "\<lambda>a. app_ok E B R regs at0 r (insert p Q) a \<and> led_ok p port (insert p Q) a"
  "led_view p port" "led_step port"
  for E :: "'hw app_env" and p Q and B :: "'b bus" and R regs at0 r port
proof
  fix a :: "'hw app"
  assume "app_ok E B R regs at0 r (insert p Q) a \<and> led_ok p port (insert p Q) a"
  then have ok: "app_ok E B R regs at0 r (insert p Q) a" and led: "led_ok p port (insert p Q) a" by auto
  obtain t where t: "objects a p = Some (OLed t)" "ddrb t = port" using led by (auto simp: led_ok_def)
  show "\<exists>a'. TaskLoop E p a = okR a' \<and> (app_ok E B R regs at0 r (insert p Q) a' \<and> led_ok p port (insert p Q) a') \<and>
      led_view p port a' = led_step port (ae_clock E (reads a), ae_clock E (Suc (reads a))) (led_view p port a)"
    using TaskLoop_ok [OF ok t(1)] led_ok_turn [OF led _ t(1)] led_view_own [OF t] by metis
  fix q
  assume q: "q \<in> Q" "q \<noteq> p"
  then obtain ob where ob: "objects a q = Some ob" using ok by (auto simp: app_ok_def)
  obtain a' ob' where a': "TaskLoop E q a = okR a'" "app_ok E B R regs at0 r (insert p Q) a'"
      "objects a' = (objects a)(q \<mapsto> ob')" "same_class ob ob'" by (rule TaskLoop_ok [OF ok ob])
  moreover have "led_ok p port (insert p Q) a'" by (rule led_ok_turn [OF led a'(3) ob a'(4)])
  ultimately show "\<exists>a'. TaskLoop E q a = okR a' \<and> (app_ok E B R regs at0 r (insert p Q) a' \<and> led_ok p port (insert p Q) a') \<and>
      led_view p port a' = led_view p port a"
    using led_view_other [OF ok led _ q(2) a'(1,3)] q(1) by auto
qed

section \<open>The logger in the system\<close>

text \<open>The logger sees its timer and the serial line; it has the line to itself among LED tasks.\<close>

definition log_ok :: "ptr \<Rightarrow> ptr set \<Rightarrow> 'hw app \<Rightarrow> bool" where
  "log_ok p Q a \<longleftrightarrow> (\<exists>t. objects a p = Some (OLog t)) \<and> (\<forall>q \<in> Q. q \<noteq> p \<longrightarrow> (\<exists>t. objects a q = Some (OLed t)))"

definition log_view :: "ptr \<Rightarrow> 'hw app \<Rightarrow> ostimer \<times> string" where
  "log_view p a = (case objects a p of Some ob \<Rightarrow> object_timer ob | None \<Rightarrow> OSTimer 0 0, serial a)"

definition log_step :: "string \<Rightarrow> nat \<times> nat \<Rightarrow> ostimer \<times> string \<Rightarrow> ostimer \<times> string" where
  "log_step line = (\<lambda>(x, y) (t, out). if expired_class (of_nat x) t then (Restart (of_nat y) t, out @ line) else (t, out))"

lemma fold_log_step:
  "snd (fold (log_step line) qs (t, out)) =
     out @ concat (replicate (length (fire_times expired_class Restart t qs)) line)"
  by (induction qs arbitrary: t out) (auto simp: log_step_def)

lemma log_view_own:
  assumes p: "objects a p = Some (OLog t)" and ok: "app_ok E B R regs at0 r Q a" and run: "TaskLoop E p a = okR a'"
  shows "log_view p a' = log_step (log_of E r) (ae_clock E (reads a), ae_clock E (Suc (reads a))) (log_view p a)"
  using TaskLoop_log [OF p ok] run p by (auto simp: log_view_def log_step_def split: if_splits)

lemma log_view_other:
  assumes "objects a q = Some (OLed t)" "q \<noteq> p" and run: "TaskLoop E q a = okR a'"
  shows "log_view p a' = log_view p a"
  using TaskLoop_led [OF assms(1), of E] run assms(2) by (auto simp: log_view_def)

lemma log_ok_turn:
  assumes "log_ok p Q a" and "objects a' = (objects a)(q \<mapsto> ob')" and "objects a q = Some ob" and "same_class ob ob'"
  shows "log_ok p Q a'"
  using assms by (auto simp: log_ok_def toggle_of_class) (metis option.inject toggle_of_class(1))

interpretation logger: task_view E p Q "\<lambda>a. app_ok E B R regs at0 r (insert p Q) a \<and> log_ok p (insert p Q) a"
  "log_view p" "log_step (log_of E r)"
  for E :: "'hw app_env" and p Q and B :: "'b bus" and R regs at0 r
proof
  fix a :: "'hw app"
  assume "app_ok E B R regs at0 r (insert p Q) a \<and> log_ok p (insert p Q) a"
  then have ok: "app_ok E B R regs at0 r (insert p Q) a" and log: "log_ok p (insert p Q) a" by auto
  obtain t where t: "objects a p = Some (OLog t)" using log by (auto simp: log_ok_def)
  show "\<exists>a'. TaskLoop E p a = okR a' \<and> (app_ok E B R regs at0 r (insert p Q) a' \<and> log_ok p (insert p Q) a') \<and>
      log_view p a' = log_step (log_of E r) (ae_clock E (reads a), ae_clock E (Suc (reads a))) (log_view p a)"
    using TaskLoop_ok [OF ok t] log_ok_turn [OF log _ t] log_view_own [OF t ok] by metis
  fix q
  assume q: "q \<in> Q" "q \<noteq> p"
  then obtain t' where t': "objects a q = Some (OLed t')" using log by (auto simp: log_ok_def)
  show "\<exists>a'. TaskLoop E q a = okR a' \<and> (app_ok E B R regs at0 r (insert p Q) a' \<and> log_ok p (insert p Q) a') \<and>
      log_view p a' = log_view p a"
    using TaskLoop_ok [OF ok t'] log_ok_turn [OF log _ t'] log_view_other [OF t' q(2)] by metis
qed

section \<open>From the start\<close>

text \<open>\<open>Task::Start\<close> on each of the objects in turn.\<close>

fun start_all :: "ptr list \<Rightarrow> 'a taskring_scheme \<Rightarrow> ('a taskring_scheme) res" where
  "start_all [] s = okR s"
| "start_all (p # ps) s = bindR (Task_Start p s) (start_all ps)"

lemma start_all_ring:
  "kernel_inv s H M T k \<Longrightarrow> length ps \<le> length (pool s) \<Longrightarrow> NULL \<notin> set ps \<Longrightarrow>
     \<exists>s' R. start_all ps s = okR s' \<and> kernel_inv s' H M (R @ T) (length R + k) \<and>
       vals R = rev (map ClassJob ps) \<and> taskring.more s' = taskring.more s"
proof (induction ps arbitrary: s T k)
  case Nil
  then show ?case by (auto intro!: exI [of _ "[]"])
next
  case (Cons q ps)
  then obtain p rest where pool: "pool s = p # rest" by (cases "pool s") auto
  obtain s1 where s1: "Register (ClassJob q) s = okR (0, s1)" "kernel_inv s1 H M ((p, ClassJob q) # T) (Suc k)"
      "pool s1 = rest" "taskring.more s1 = taskring.more s"
    using kernel_inv_accept [OF Cons.prems(1) pool, of "ClassJob q"] Cons.prems(3) by auto
  from Cons.IH [OF s1(2)] Cons.prems(2,3) pool s1(3,4) obtain s' R where
    s': "start_all ps s1 = okR s'" "kernel_inv s' H M (R @ (p, ClassJob q) # T) (length R + Suc k)"
      "vals R = rev (map ClassJob ps)" "taskring.more s' = taskring.more s" by auto
  have "Task_Start q s = okR s1" using s1(1) by (simp add: Task_Start_def)
  with s' show ?case by (intro exI [of _ s'] exI [of _ "R @ [(p, ClassJob q)]"]) simp
qed

text \<open>The boot of the kernel, the starts and \<open>n\<close> iterations of the main loop.\<close>

definition run_app :: "'hw app_env \<Rightarrow> ptr list \<Rightarrow> nat \<Rightarrow> 'hw system \<Rightarrow> ('hw system) res" where
  "run_app E ps n s = bindR (start_all ps (MQClass_init (TaskRing_init s))) (app_loops E n)"

abbreviation turn_order :: "ptr list \<Rightarrow> nat \<Rightarrow> ptr list" where
  "turn_order ps n \<equiv> map (\<lambda>i. rev ps ! (i mod length ps)) [0..<n]"

lemma run_app_turns:
  assumes wf: "heap_wf s" and ps: "ps \<noteq> []" "length ps \<le> length (pool s)" "NULL \<notin> set ps"
    and turns: "task_turns E (turn_order ps n) (taskring.more s) = okR a'"
  shows "\<exists>s'. run_app E ps n s = okR s' \<and> taskring.more s' = a'"
proof -
  let ?s = "MQClass_init (TaskRing_init s)"
  have i: "kernel_inv ?s (\<lambda>_. []) [] [] 0" by (rule kernel_start [OF wf])
  have f: "pool ?s = pool s" "taskring.more ?s = taskring.more s" by (simp_all add: MQClass_init_def TaskRing_init_def)
  obtain s1 T where s1: "start_all ps ?s = okR s1" "kernel_inv s1 (\<lambda>_. []) [] T (length T)"
      "vals T = rev (map ClassJob ps)" "taskring.more s1 = taskring.more s"
    using start_all_ring [OF i, of ps] ps f by auto
  have len: "length T = length ps" using arg_cong [OF s1(3), of length] by simp
  then have T: "T \<noteq> []" using ps(1) by auto
  have "snd (T ! j) = ClassJob (rev ps ! j)" if "j < length ps" for j
    using that len nth_map [of j T snd] s1(3) by (simp add: rev_map)
  then have "schedule T (length T) n = turn_order ps n"
    using T len ps(1) by (auto simp: schedule_eq)
  with turns s1(3,4) have "task_turns E (schedule T (length T) n) (taskring.more s1) = okR a'"
      "\<forall>j \<in> set (vals T). \<exists>p. j = ClassJob p" by auto
  from app_loops_turns [OF s1(2) T this(2,1)] s1(1) show ?thesis by (auto simp: run_app_def)
qed

text \<open>Every task of \<open>ps\<close> has at least one turn in every round.\<close>

lemma turn_order_count:
  assumes p: "p \<in> set ps"
  shows "n div length ps \<le> count_list (turn_order ps n) p"
proof -
  let ?l = "length ps"
  obtain i where i: "i < ?l" "rev ps ! i = p" using p by (metis in_set_conv_nth length_rev set_rev)
  have cnt: "count_list (turn_order ps n) p = card {j. j < n \<and> rev ps ! (j mod ?l) = p}"
  proof -
    have "count_list (turn_order ps n) p = length (filter (\<lambda>j. p = rev ps ! (j mod ?l)) [0..<n])"
      by (simp add: count_list_eq_length_filter filter_map comp_def)
    also have "\<dots> = card {j. j < n \<and> p = rev ps ! (j mod ?l)}"
      unfolding length_filter_conv_card by (rule arg_cong [of _ _ card]) auto
    finally show ?thesis by (simp add: eq_commute [of p])
  qed
  have sub: "(\<lambda>j. j * ?l + i) ` {..<n div ?l} \<subseteq> {j. j < n \<and> rev ps ! (j mod ?l) = p}"
  proof (intro image_subsetI CollectI conjI)
    fix j assume j: "j \<in> {..<n div ?l}"
    have "j * ?l + i < Suc j * ?l" using i(1) by simp
    also have "Suc j * ?l \<le> n div ?l * ?l" using j by (intro mult_le_mono1) auto
    also have "\<dots> \<le> n" by simp
    finally show "j * ?l + i < n" .
    show "rev ps ! ((j * ?l + i) mod ?l) = p" using i by simp
  qed
  have "inj_on (\<lambda>j. j * ?l + i) {..<n div ?l}" using i(1) by (auto simp: inj_on_def)
  then have "card ((\<lambda>j. j * ?l + i) ` {..<n div ?l}) = n div ?l" by (simp add: card_image)
  moreover have "finite {j. j < n \<and> rev ps ! (j mod ?l) = p}" by simp
  ultimately have "n div ?l \<le> card {j. j < n \<and> rev ps ! (j mod ?l) = p}"
    using card_mono [OF _ sub] by simp
  with cnt show ?thesis by simp
qed

lemma set_turn_order: "ps \<noteq> [] \<Longrightarrow> set (turn_order ps n) \<subseteq> set ps"
proof
  fix x
  assume ps: "ps \<noteq> []" and "x \<in> set (turn_order ps n)"
  then obtain i where "x = rev ps ! (i mod length ps)" by auto
  moreover have "i mod length ps < length (rev ps)" using ps by simp
  ultimately show "x \<in> set ps" using nth_mem [of "i mod length ps" "rev ps"] by simp
qed

text \<open>A task's view over the whole run, from the boot of the kernel.\<close>

context task_view
begin

lemma run_view:
  assumes "heap_wf s" and "length ps \<le> length (pool s)" and "NULL \<notin> set ps" and p: "this \<in> set ps"
    and ok: "ok (taskring.more s)" and sub: "set ps \<subseteq> insert this others"
    and clock: "mono (ae_clock E)" "m \<le> ae_clock E (reads (taskring.more s))"
      "ae_clock E (reads (taskring.more s) + 2 * n) < u"
  obtains s' ix where "run_app E ps n s = okR s'" "length ix = n" "readings (reads (taskring.more s)) ix"
    "view (taskring.more s') = fold step (own_polls E this (turn_order ps n) ix) (view (taskring.more s))"
    "ordered_polls m u (own_polls E this (turn_order ps n) ix)"
    "n div length ps \<le> length (own_polls E this (turn_order ps n) ix)"
proof -
  let ?a = "taskring.more s" and ?q = "turn_order ps n"
  have ps: "ps \<noteq> []" using p by auto
  have sub': "set ?q \<subseteq> insert this others" using set_turn_order [OF ps] sub by blast
  obtain a' ix where a': "task_turns E ?q ?a = okR a'" "length ix = n" "readings (reads ?a) ix"
      "view a' = fold step (own_polls E this ?q ix) (view ?a)"
      "ordered_polls (ae_clock E (reads ?a)) u (own_polls E this ?q ix)"
    using turns_view [OF ok sub' clock(1), of u] clock(3) by auto
  obtain s' where "run_app E ps n s = okR s'" "taskring.more s' = a'"
    using run_app_turns [OF assms(1) ps assms(2,3) a'(1)] by blast
  moreover have "n div length ps \<le> length (own_polls E this ?q ix)"
    using turn_order_count [OF p, of n] length_own_polls [of ix ?q E this] a'(2) by simp
  ultimately show thesis using that a' ordered_polls_mono [OF a'(5) clock(2)] by simp
qed

end

text \<open>The firings of a timer created at \<open>m\<close>.\<close>

lemma fires_from:
  fixes to :: u32
  assumes o: "ordered_polls m (m + 2 ^ 32) qs"
  defines "fs \<equiv> fire_times expired_class Restart (OSTimer to (of_nat m)) qs"
  shows "spaced (unat to) m fs" "fs = [] \<longleftrightarrow> list_all (\<lambda>(x, y). x \<le> m + unat to) qs"
proof -
  let ?T = "OSTimer to (of_nat m)"
  have re: "Restart (of_nat m) ?T = ?T" "time ?T = to" by (simp_all add: timer_defs)
  show "spaced (unat to) m fs" using os_timer.fires_spaced [OF o, of ?T] re by (simp add: fs_def)
  have "fs = [] \<longleftrightarrow> dropWhile (\<lambda>(a, b). a \<le> m + unat to) qs = []"
    using os_timer.fires_at_first_poll [OF o, of ?T] re
    by (auto simp: fs_def simp del: dropWhile_eq_Nil_conv split: list.splits)
  then show "fs = [] \<longleftrightarrow> list_all (\<lambda>(x, y). x \<le> m + unat to) qs"
    unfolding dropWhile_eq_Nil_conv list_all_iff .
qed

lemma led_pins:
  assumes led: "objects a p = Some (OLed (fst (ToggleLED to port now b)))"
    and run: "led_view p port a' = fold (led_step port) qs (led_view p port a)" and i: "i < 8" "bit port i"
  defines "fs \<equiv> fire_times expired_class Restart (OSTimer to now) qs"
  shows "bit (PORTB a') i = (if fs = [] then bit (PORTB a) i else even (length fs))"
proof -
  let ?t = "fst (ToggleLED to port now b)" and ?b = "snd (led_view p port a)"
  have t: "tm ?t = OSTimer to now" "toggleflag ?t = False" by (auto simp: ToggleLED_def ToggleTask_def toggletask.defs)
  have "led_view p port a = (?t, ?b)" using led by (simp add: led_view_def led_of_def)
  then have "toggle_polls (ToggleLED_Toggle port) qs (?t, ?b) = (fst (led_view p port a'), snd (led_view p port a'))"
    using run by (simp add: fold_led_step)
  from toggle_polls_fold [OF this] t
  have pins: "snd (led_view p port a') = fold (ToggleLED_Toggle port) (alternate False (length fs)) ?b"
    by (simp add: fs_def Let_def)
  have "bit (PORTB (snd (led_view p port a'))) i =
      (if fs \<noteq> [] then last (alternate False (length fs)) else bit (PORTB ?b) i)"
    unfolding pins fold_Toggle(1) using i by (cases fs) auto
  then show ?thesis
    using i last_alternate [of "length fs" False] by (auto simp: led_view_def bit_and_iff)
qed

section \<open>A small application\<close>

text \<open>
  A logger and two LED tasks on different pins, a clock that advances two seconds between
  readings, and the simulated bus and clock chip, whose weekday register holds 4.
\<close>

definition demo_board :: "(rtcsim simtwi) app_env" where
  "demo_board = \<lparr>ae_clock = (\<lambda>i. 2000 * Suc i), ae_twi = sim_twi 2 rtc_bus, ae_days = (\<lambda>_. 16),
     ae_str = (\<lambda>_. ''Thursday''), ae_junk = replicate 7 0\<rparr>"

definition demo_chip :: rtcsim where
  "demo_chip = \<lparr>rt_reg = (\<lambda>i. if i = 3 then 4 else 0), rt_cur = 0, rt_cnt = 0\<rparr>"

definition demo_app :: "(rtcsim simtwi) app" where
  "demo_app = \<lparr>PORTB = 0x01, DDRB = 0x28, serial = [], baud = 0,
     objects = [512 \<mapsto> OLog \<lparr>lt_tm = OSTimer 1000 (of_nat 0)\<rparr>,
       544 \<mapsto> OLed (fst (ToggleLED 300 0x08 (of_nat 0) demo_io)),
       576 \<mapsto> OLed (fst (ToggleLED 500 0x20 (of_nat 0) demo_io))],
     reads = 0, bus_hw = sim_idle demo_chip\<rparr>"

definition demo_system :: "(rtcsim simtwi) system" where
  "demo_system = \<lparr>cells = (\<lambda>_. None), pool = [16, 32, 48, 64], sreg_i = True, QueueBlock = [],
     MsgQueueFirst = 0, MsgQueueLast = 0, pHead = 0, pCur = 0, \<dots> = demo_app\<rparr>"

lemma demo_system_ok:
  "heap_wf demo_system" "length [512, 544, 576 :: ptr] \<le> length (pool demo_system)" "NULL \<notin> set [512, 544, 576]"
  "mono (ae_clock demo_board)" "0 \<le> ae_clock demo_board (reads (taskring.more demo_system))"
  "app_ok demo_board rtc_bus sim_rel rtc_regs (\<lambda>b. rt_cur b = 0) (rtc_regs demo_chip) (set [512, 544, 576])
     (taskring.more demo_system)"
proof -
  show "heap_wf demo_system" by (simp add: heap_wf_def demo_system_def)
  show "mono (ae_clock demo_board)" by (simp add: mono_def demo_board_def)
  have "devices_ok demo_board rtc_bus sim_rel rtc_regs (\<lambda>b. rt_cur b = 0)"
    using sim_twi_master rtc_bus_device by (simp add: devices_ok_def demo_board_def)
  moreover have "bus_idle sim_rel rtc_regs (rtc_regs demo_chip) demo_app"
    using sim_idle_rel [of demo_chip] by (auto simp: bus_idle_def demo_app_def)
  moreover have "weekday_ok (rtc_regs demo_chip)" by (simp add: weekday_ok_def rtc_regs_def demo_chip_def)
  ultimately show "app_ok demo_board rtc_bus sim_rel rtc_regs (\<lambda>b. rt_cur b = 0) (rtc_regs demo_chip)
      (set [512, 544, 576]) (taskring.more demo_system)"
    by (simp add: app_ok_def demo_system_def demo_app_def)
qed (simp_all add: demo_system_def)

text \<open>The readings of three turns.\<close>

lemma readings_3: "length ix = 3 \<Longrightarrow> readings k ix \<Longrightarrow> \<exists>i j. ix = [k, i, j]"
  by (auto simp: numeral_eq_Suc length_Suc_conv)

section \<open>Properties of the application\<close>

text \<open>
  Property C6. The blinking task in the whole system: on a booted kernel with the tasks \<open>ps\<close> started,
  of any of the classes and with the pins of the LED at \<open>p\<close> driven by no other task,
  every iteration of the main loop returns. The task is
  polled at its own turns, at least once in every round; its timer fires at those turns more than a
  timeout apart, at the first one after the timeout; and its pins are on exactly
  after an even number of firings, whatever the other tasks do.
\<close>

theorem app_led_blinks:
  assumes "heap_wf s" and "length ps \<le> length (pool s)" and "NULL \<notin> set ps" and "p \<in> set ps"
    and "app_ok E (B :: 'b bus) R regs at0 r (set ps) (taskring.more s)" and "led_ok p port (set ps) (taskring.more s)"
    and "objects (taskring.more s) p = Some (OLed (fst (ToggleLED to port (of_nat m) (b :: io))))"
    and "mono (ae_clock E)" and "m \<le> ae_clock E (reads (taskring.more s))"
    and "ae_clock E (reads (taskring.more s) + 2 * n) < m + 2 ^ 32"
  shows "\<exists>s' ix. run_app E ps n s = okR s' \<and> length ix = n \<and> readings (reads (taskring.more s)) ix \<and>
    (let qs = own_polls E p (turn_order ps n) ix; fs = fire_times expired_class Restart (OSTimer to (of_nat m)) qs in
     n div length ps \<le> length qs \<and> spaced (unat to) m fs \<and>
     (fs = [] \<longleftrightarrow> list_all (\<lambda>(x, y). x \<le> m + unat to) qs) \<and>
     list_all (\<lambda>i. bit port i \<longrightarrow> bit (PORTB (taskring.more s')) i =
       (if fs = [] then bit (PORTB (taskring.more s)) i else even (length fs))) [0..<8])"
proof -
  have ins: "insert p (set ps) = set ps" using assms(4) by auto
  obtain s' ix where r: "run_app E ps n s = okR s'" "length ix = n" "readings (reads (taskring.more s)) ix"
      "led_view p port (taskring.more s') = fold (led_step port) (own_polls E p (turn_order ps n) ix) (led_view p port (taskring.more s))"
      "ordered_polls m (m + 2 ^ 32) (own_polls E p (turn_order ps n) ix)"
      "n div length ps \<le> length (own_polls E p (turn_order ps n) ix)"
    by (rule led.run_view [where Q = "set ps" and port = port and r = r, OF assms(1-4) _ _ assms(8-10)])
      (use assms(5,6) ins in auto)
  show ?thesis unfolding Let_def list_all_iff
    by (intro exI [of _ s'] exI [of _ ix] conjI)
      (use r fires_from [OF r(5)] led_pins [OF assms(7) r(4)] in \<open>simp_all add: list_all_iff\<close>)
qed

theorem app_led_blinks_witness:
  "\<exists>s'. run_app demo_board [512, 544, 576] 3 demo_system = okR s' \<and> \<not> bit (PORTB (taskring.more s')) 5"
proof -
  have led: "led_ok 576 0x20 (set [512, 544, 576]) (taskring.more demo_system)"
      "objects (taskring.more demo_system) 576 = Some (OLed (fst (ToggleLED 500 0x20 (of_nat 0) demo_io)))"
      "ae_clock demo_board (reads (taskring.more demo_system) + 2 * 3) < 0 + 2 ^ 32" "576 \<in> set [512, 544, 576 :: ptr]"
    by (auto simp: led_ok_def demo_system_def demo_app_def demo_board_def ToggleLED_def ToggleTask_def toggletask.defs)
  from app_led_blinks [OF demo_system_ok(1-3) led(4) demo_system_ok(6) led(1,2) demo_system_ok(4,5) led(3)]
  obtain s' ix where r: "run_app demo_board [512, 544, 576] 3 demo_system = okR s'" "length ix = 3"
      "readings (reads (taskring.more demo_system)) ix"
      "list_all (\<lambda>i. bit (0x20 :: u8) i \<longrightarrow> bit (PORTB (taskring.more s')) i =
         (if fire_times expired_class Restart (OSTimer 500 (of_nat 0))
            (own_polls demo_board 576 (turn_order [512, 544, 576] 3) ix) = []
          then bit (PORTB (taskring.more demo_system)) i
          else even (length (fire_times expired_class Restart (OSTimer 500 (of_nat 0))
            (own_polls demo_board 576 (turn_order [512, 544, 576] 3) ix))))) [0..<8]"
    unfolding Let_def by blast
  obtain i j where "ix = [0, i, j]" using readings_3 [OF r(2,3)] by (auto simp: demo_system_def demo_app_def)
  then have "own_polls demo_board 576 (turn_order [512, 544, 576] 3) ix = [(2000, 4000)]"
    by (simp add: upt_rec demo_board_def)
  then have "\<not> bit (PORTB (taskring.more s')) 5" using r(4) by (simp add: timer_defs list_all_iff)
  with r(1) show ?thesis by blast
qed



end
