(* ===== verification/Task_Rate.thy ===== *)
theory Task_Rate
  imports Application
begin

text \<open>
  How often a periodic task of the application acts: its timer is tested only at the turns of the
  task, so the period it keeps depends on the number of tasks and on the time a turn takes. If the
  clock advances by at most \<open>d\<close> between two readings, the number of firings is bounded from
  both sides.
\<close>

section \<open>A timer that is polled often enough\<close>

text \<open>No more than \<open>D\<close> between a reading and the next, \<open>c\<close> being the one before the first.\<close>

fun close_polls :: "nat \<Rightarrow> nat \<Rightarrow> (nat \<times> nat) list \<Rightarrow> bool" where
  "close_polls D c [] \<longleftrightarrow> True"
| "close_polls D c ((a, b) # ps) \<longleftrightarrow> a \<le> c + D \<and> b \<le> a + D \<and> close_polls D b ps"

fun last_poll :: "nat \<Rightarrow> (nat \<times> nat) list \<Rightarrow> nat" where
  "last_poll c [] = c"
| "last_poll c ((a, b) # ps) = last_poll b ps"

context timer
begin

lemma fires_often:
  "ordered_polls c (m + 2 ^ 32) ps \<Longrightarrow> close_polls D c ps \<Longrightarrow> m \<le> c \<Longrightarrow> c \<le> m + unat (period t) + D \<Longrightarrow>
     last_poll c ps \<le> m + length (fire_times expired restart (restart (of_nat m) t) ps) * (unat (period t) + 3 * D) +
       unat (period t) + D"
proof (induction ps arbitrary: c m)
  case (Cons x ps)
  let ?P = "unat (period t)"
  obtain a b where x: "x = (a, b)" by (cases x)
  with Cons.prems have ab: "c \<le> a" "a \<le> b" "b < m + 2 ^ 32" "ordered_polls b (m + 2 ^ 32) ps"
      "a \<le> c + D" "b \<le> a + D" "close_polls D b ps" by auto
  have e: "expired (of_nat a) (restart (of_nat m) t) \<longleftrightarrow> m + ?P < a"
    using ab Cons.prems(3) by (auto simp: expired_restart)
  show ?case
  proof (cases "m + ?P < a")
    case True
    let ?n = "length (fire_times expired restart (restart (of_nat b) t) ps)"
    have "last_poll b ps \<le> b + ?n * (?P + 3 * D) + ?P + D"
      using Cons.IH [of b b] ordered_polls_mono [OF ab(4)] ab(1,2,7) Cons.prems(3) by simp
    moreover have "b \<le> m + ?P + 3 * D" using ab(5,6) Cons.prems(4) by simp
    ultimately show ?thesis using True e x by (simp add: restart_restart)
  next
    case False
    then have "b \<le> m + ?P + D" "m \<le> b" using ab Cons.prems(3) by simp_all
    with Cons.IH [OF ab(4,7)] False e x show ?thesis by simp
  qed
qed simp

end

lemma spaced_sum: "spaced d m xs \<Longrightarrow> xs \<noteq> [] \<Longrightarrow> m + length xs * Suc d \<le> last xs"
  by (induction d m xs rule: spaced.induct) (auto split: if_splits)

lemma fire_times_polls: "set (fire_times expired restart t ps) \<subseteq> fst ` set ps"
  by (induction ps arbitrary: t) (fastforce split: if_splits)+

section \<open>The turns of a task\<close>

text \<open>In the list of turns \<open>p\<close> comes up after at most \<open>k\<close> others, and then again and again after at most \<open>g\<close>.\<close>

fun due :: "nat \<Rightarrow> nat \<Rightarrow> ptr \<Rightarrow> ptr list \<Rightarrow> bool" where
  "due g k p [] \<longleftrightarrow> True"
| "due g k p (q # qs) \<longleftrightarrow> (if q = p then due g g p qs else 0 < k \<and> due g (k - 1) p qs)"

lemma turn_order_due:
  assumes p: "p \<in> set ps"
  shows "due (length ps - 1) (length ps - 1) p (turn_order ps n)"
proof -
  let ?l = "length ps" and ?f = "\<lambda>i. rev ps ! (i mod length ps)"
  have l: "0 < ?l" using p by (cases ps) auto
  have "due (?l - 1) k p (map ?f [i..<n])" if "\<exists>j. i \<le> j \<and> j \<le> i + k \<and> ?f j = p" for i k
    using that
  proof (induction "n - i" arbitrary: i k)
    case (Suc r)
    then have i: "[i..<n] = i # [Suc i..<n]" and r: "r = n - Suc i" by (auto simp: upt_rec)
    show ?case
    proof (cases "?f i = p")
      case True
      have "?f (i + ?l) = p" using True by simp
      then have "\<exists>j. Suc i \<le> j \<and> j \<le> Suc i + (?l - 1) \<and> ?f j = p" using l by (intro exI [of _ "i + ?l"]) (auto simp: Suc_le_eq)
      from Suc.hyps(1) [OF r this] True i show ?thesis by simp
    next
      case False
      obtain j where j: "i \<le> j" "j \<le> i + k" "?f j = p" using Suc.prems by blast
      with False have "i \<noteq> j" by auto
      with j have "Suc i \<le> j \<and> j \<le> Suc i + (k - 1) \<and> ?f j = p" "0 < k" by auto
      with Suc.hyps(1) [OF r, of "k - 1"] False i show ?thesis by auto
    qed
  qed simp
  moreover obtain i where "i < ?l" "rev ps ! i = p" using p by (metis in_set_conv_nth length_rev set_rev)
  then have "\<exists>j. 0 \<le> j \<and> j \<le> 0 + (?l - 1) \<and> ?f j = p" by (intro exI [of _ i]) auto
  ultimately show ?thesis by blast
qed

text \<open>
  Clock values at the turns: with at most \<open>d\<close> between two readings, the polls of a task that is
  due are close, and its last poll is close to the last turn.
\<close>

lemma clock_step:
  assumes "\<And>i. clk (Suc i) \<le> clk i + d" and "mono (clk :: nat \<Rightarrow> nat)"
  shows "clk (k + 2) \<le> clk k + 2 * d" "clk (k + 1) \<le> clk k + d" "clk (k + 2) \<le> clk (Suc k) + d"
  using assms(1) [of k] assms(1) [of "Suc k"] by auto

lemma own_polls_close:
  assumes clk: "\<And>i. ae_clock E (Suc i) \<le> ae_clock E i + d" "mono (ae_clock E)" and D: "d + 2 * d * g \<le> D"
  shows "due g k p qs \<Longrightarrow> readings r ix \<Longrightarrow> length ix = length qs \<Longrightarrow> ae_clock E r \<le> c + e \<Longrightarrow> e + 2 * d * k \<le> D \<Longrightarrow>
    close_polls D c (own_polls E p qs ix) \<and> (ix \<noteq> [] \<longrightarrow> ae_clock E (last ix) \<le> last_poll c (own_polls E p qs ix) + D)"
proof (induction qs arbitrary: k r ix c e)
  case (Cons q qs)
  then obtain ix' where ix: "ix = r # ix'" "length ix' = length qs" by (cases ix) auto
  then obtain r' where r': "readings r' ix'" "r' = r + 1 \<or> r' = r + 2" using Cons.prems(2) by auto
  note cs = clock_step [OF clk, of r]
  show ?case
  proof (cases "q = p")
    case True
    have "ae_clock E r' \<le> ae_clock E (Suc r) + d" using r'(2) cs by auto
    from Cons.IH [OF _ r'(1) ix(2) this D] True Cons.prems(1) have IH:
      "close_polls D (ae_clock E (Suc r)) (own_polls E p qs ix')"
      "ix' \<noteq> [] \<longrightarrow> ae_clock E (last ix') \<le> last_poll (ae_clock E (Suc r)) (own_polls E p qs ix') + D" by auto
    have "ae_clock E r \<le> c + D" "ae_clock E (Suc r) \<le> ae_clock E r + D" using Cons.prems(4,5) D clk(1) [of r] by simp_all
    moreover have "ae_clock E r \<le> ae_clock E (Suc r)" using clk(2) by (simp add: mono_iff_le_Suc)
    ultimately show ?thesis using IH True ix(1) by (cases ix') (auto simp: ix(2))
  next
    case False
    then have k: "0 < k" "due g (k - 1) p qs" using Cons.prems(1) by auto
    have "2 * d * k = 2 * d * (k - 1) + 2 * d" using k(1) by (simp add: algebra_simps flip: mult_Suc_right)
    then have "ae_clock E r' \<le> c + (e + 2 * d)" "e + 2 * d + 2 * d * (k - 1) \<le> D"
      using r'(2) cs Cons.prems(4,5) by auto
    from Cons.IH [OF k(2) r'(1) ix(2) this] False ix(1) Cons.prems(4,5) ix(2) show ?thesis by (cases ix') auto
  qed
qed simp

lemma own_polls_before:
  assumes "mono (ae_clock E)"
  shows "readings r ix \<Longrightarrow> length ix = length qs \<Longrightarrow> (a, b) \<in> set (own_polls E p qs ix) \<Longrightarrow> a \<le> ae_clock E (last ix)"
proof (induction qs arbitrary: r ix)
  case (Cons q qs)
  then obtain ix' where ix: "ix = r # ix'" "length ix' = length qs" by (cases ix) auto
  then obtain r' where r': "readings r' ix'" "r \<le> r'" using Cons.prems(1) by auto
  have last: "readings k xs \<Longrightarrow> xs \<noteq> [] \<Longrightarrow> k \<le> last xs" for k xs
    by (induction xs arbitrary: k) fastforce+
  show ?case
  proof (cases "(a, b) \<in> set (own_polls E p qs ix')")
    case True
    then have "ix' \<noteq> []" by (cases ix') (auto simp: ix(2))
    with Cons.IH [OF r'(1) ix(2) True] ix(1) show ?thesis by simp
  next
    case False
    then have "a = ae_clock E r" using Cons.prems(3) ix(1) by (auto split: if_splits)
    moreover have "r \<le> last ix" using last [of r ix] Cons.prems(1) ix(1) by auto
    ultimately show ?thesis using assms by (simp add: monoD)
  qed
qed simp

section \<open>The rate of the application's tasks\<close>

lemma fires_rate:
  fixes to :: u32
  assumes p: "p \<in> set ps" and ix: "length ix = n" "readings r ix" "0 < n"
    and o: "ordered_polls m (m + 2 ^ 32) (own_polls E p (turn_order ps n) ix)"
    and clk: "\<And>i. ae_clock E (Suc i) \<le> ae_clock E i + d" "mono (ae_clock E)" "ae_clock E r \<le> m + d"
  defines "D \<equiv> d * (2 * length ps - 1)"
    and "fs \<equiv> fire_times expired_class Restart (OSTimer to (of_nat m)) (own_polls E p (turn_order ps n) ix)"
  shows "length fs * Suc (unat to) \<le> ae_clock E (last ix) - m"
    and "ae_clock E (last ix) - m \<le> length fs * (unat to + 3 * D) + unat to + 2 * D"
proof -
  let ?qs = "own_polls E p (turn_order ps n) ix" and ?T = "OSTimer to (of_nat m)"
  have re: "Restart (of_nat m) ?T = ?T" "time ?T = to" by (simp_all add: timer_defs)
  obtain l where "length ps = Suc l" using p by (cases ps) auto
  then have D: "d + 2 * d * (length ps - 1) \<le> D" by (simp add: D_def)
  have len: "length ix = length (turn_order ps n)" using ix(1) by simp
  from own_polls_close [OF clk(1,2) D turn_order_due [OF p] ix(2) len clk(3) D]
  have cl: "close_polls D m ?qs" "ae_clock E (last ix) \<le> last_poll m ?qs + D" using ix(1,3) by auto
  have "last_poll m ?qs \<le> m + length fs * (unat to + 3 * D) + unat to + D"
    using os_timer.fires_often [OF o cl(1), of ?T] re by (simp add: fs_def)
  with cl(2) show "ae_clock E (last ix) - m \<le> length fs * (unat to + 3 * D) + unat to + 2 * D" by simp
  show "length fs * Suc (unat to) \<le> ae_clock E (last ix) - m"
  proof (cases "fs = []")
    case False
    have "last fs \<in> fst ` set ?qs" using fire_times_polls [of expired_class Restart ?T ?qs] last_in_set [OF False]
      by (auto simp: fs_def)
    then have "last fs \<le> ae_clock E (last ix)" using own_polls_before [OF clk(2) ix(2) len] by auto
    with spaced_sum [OF fires_from(1) [OF o, of to, folded fs_def] False] show ?thesis by simp
  qed simp
qed



end
