(* ===== verification/Event_Log.thy ===== *)
theory Event_Log
  imports Log_Data
begin

text \<open>
  The event log over many calls. \<open>WriteAuto\<close> refines appending to a ring of 2044 entries, so
  that the log holds the last 2044 of the texts written; \<open>ReadAll\<close> prints it. The second part
  is about the write cycle of the memory: while it lasts the memory does not answer, and
  \<open>WriteAuto\<close> does not wait for its end.
\<close>

section \<open>A ring of entries\<close>

record event_log =
  entry :: "int \<Rightarrow> string"
  next_page :: int

definition log_append :: "string \<Rightarrow> event_log \<Rightarrow> event_log" where
  "log_append s g = g\<lparr>entry := (entry g)(next_page g := s), next_page := (next_page g + 1) mod 2044\<rparr>"

lemma log_append_simps [simp]:
  "entry (log_append s g) = (entry g)(next_page g := s)" "next_page (log_append s g) = (next_page g + 1) mod 2044"
  by (simp_all add: log_append_def)

definition log_rep :: "(u16 \<Rightarrow> u8) \<Rightarrow> event_log \<Rightarrow> bool" where
  "log_rep m g \<longleftrightarrow> 0 \<le> next_page g \<and> next_page g < 2044 \<and> fetch m 0xFF80 4 = addr_digits (next_page g) \<and>
     (\<forall>q. 0 \<le> q \<and> q < 2044 \<longrightarrow> terminated m q \<and> page_text m q = entry g q)"

text \<open>The ring after appending: the position, the last 2044 texts, and what is left of the old.\<close>

lemma log_fold_next:
  assumes "0 \<le> next_page g" and "next_page g < 2044"
  shows "next_page (fold log_append ss g) = (next_page g + int (length ss)) mod 2044"
proof (induction ss rule: rev_induct)
  case Nil
  show ?case using assms by simp
next
  case (snoc s ss)
  then show ?case by (simp add: mod_simps algebra_simps)
qed

lemma log_fold_entry:
  assumes g: "0 \<le> next_page g" "next_page g < 2044"
  shows "i < length ss \<Longrightarrow> length ss \<le> i + 2044 \<Longrightarrow>
    entry (fold log_append ss g) ((next_page g + int i) mod 2044) = ss ! i"
proof (induction ss rule: rev_induct)
  case (snoc s ss)
  let ?n = "int (length ss)"
  show ?case
  proof (cases "i = length ss")
    case False
    then have i: "i < length ss" "length ss < i + 2044" using snoc.prems by simp_all
    have "(next_page g + int i) mod 2044 \<noteq> (next_page g + ?n) mod 2044"
    proof
      assume "(next_page g + int i) mod 2044 = (next_page g + ?n) mod 2044"
      then have "(2044 :: int) dvd (next_page g + ?n) - (next_page g + int i)" by (metis mod_eq_dvd_iff)
      then have "2044 dvd (?n - int i)" by simp
      with i zdvd_imp_le [of 2044 "?n - int i"] show False by linarith
    qed
    with snoc.IH i show ?thesis by (simp add: nth_append log_fold_next [OF g])
  qed (simp add: log_fold_next [OF g])
qed simp

lemma log_fold_old:
  assumes g: "0 \<le> next_page g" "next_page g < 2044"
  shows "(\<And>i. i < length ss \<Longrightarrow> q \<noteq> (next_page g + int i) mod 2044) \<Longrightarrow>
    entry (fold log_append ss g) q = entry g q"
proof (induction ss rule: rev_induct)
  case (snoc s ss)
  from snoc.prems [of "length ss"] have "q \<noteq> (next_page g + int (length ss)) mod 2044" by simp
  moreover have "entry (fold log_append ss g) q = entry g q" using snoc.prems by (intro snoc.IH) simp
  ultimately show ?case by (simp add: log_fold_next [OF g])
qed simp

section \<open>The memory refines the ring\<close>

lemma logged_terminated:
  assumes c: "0 \<le> c" "c < 2044" and q: "0 \<le> q" "q < 2044" and len: "length (cstr data) < 32" and t: "terminated m q"
    and m: "m' = store (store m (word_of_int (c * 32)) (page_bytes data f)) 0xFF80 (addr_digits ((c + 1) mod 2044))"
  shows "terminated m' q"
proof -
  let ?m = "store m (word_of_int (c * 32)) (page_bytes data f)"
  have "(word_of_int (2044 * 32) :: u16) = 0xFF80" by simp
  then have "fetch m' (word_of_int (q * 32)) 32 = fetch ?m (word_of_int (q * 32)) 32"
    unfolding m using fetch_store_other [of 2044 q "addr_digits ((c + 1) mod 2044)" ?m] q by simp
  moreover have "0 \<in> set (fetch ?m (word_of_int (q * 32)) 32)"
  proof (cases "q = c")
    case True
    then show ?thesis using fetch_store [of 32 "page_bytes data f" m "word_of_int (c * 32)"] len by simp
  next
    case False
    then show ?thesis using fetch_store_other [of c q "page_bytes data f" m] c q len t by (simp add: terminated_def)
  qed
  ultimately show ?thesis by (simp add: terminated_def)
qed

lemma log_rep_append:
  assumes g: "log_rep m g" and len: "length (cstr data) < 32" and c: "c = next_page g"
    and m: "m' = store (store m (word_of_int (c * 32)) (page_bytes data f)) 0xFF80 (addr_digits ((c + 1) mod 2044))"
  shows "log_rep m' (log_append (cstr data) g)"
proof -
  have b: "0 \<le> c" "c < 2044" using g c by (simp_all add: log_rep_def)
  have "terminated m' q \<and> page_text m' q = entry (log_append (cstr data) g) q" if "0 \<le> q" "q < 2044" for q
    using g that logged_memory(1,3) [OF b len m] logged_terminated [OF b that len _ m] c
    by (auto simp: log_rep_def)
  with logged_memory(2) [OF b len m] c show ?thesis by (simp add: log_rep_def)
qed

text \<open>A client that logs a list of texts, one after the other.\<close>

fun log_texts :: "'hw twi \<Rightarrow> 'hw cenv \<Rightarrow> logdata \<Rightarrow> string list \<Rightarrow> 'hw \<Rightarrow> 'a io_scheme \<Rightarrow> ('hw \<times> 'a io_scheme) res" where
  "log_texts T E l [] hw io = okR (hw, io)"
| "log_texts T E l (s # ss) hw io = bindR (WriteAuto T E l s hw io) (\<lambda>(_, hw1, io1). log_texts T E l ss hw1 io1)"

lemma log_texts_refine:
  assumes T: "twi_master T (B :: 'b bus) R" and P: "eeprom B (IIC_ADDR_E2 l) mem cur ready"
    and Q: "prompt B (IIC_ADDR_E2 l) ready" and w: "wrapv E" and z: "\<And>hw. 0 \<in> set (after E hw)"
  shows "R Idle st d hw b \<Longrightarrow> ready b \<Longrightarrow> log_rep (mem b) g \<Longrightarrow> list_all (\<lambda>s. length (cstr s) < 32) ss \<Longrightarrow>
    \<exists>hw' st' d' b' out. log_texts T E l ss hw io = okR (hw', serial_print out io) \<and> R Idle st' d' hw' b' \<and>
      ready b' \<and> log_rep (mem b') (fold log_append (map cstr ss) g)"
proof (induction ss arbitrary: st d hw b g io)
  case Nil
  have "okR (hw, io) = okR (hw, serial_print [] io)" by (simp add: serial_print_def)
  with Nil show ?case by (simp del: serial_print_print) blast
next
  case (Cons s ss)
  let ?c = "next_page g"
  have c: "0 \<le> ?c" "?c < 2044" "fetch (mem b) 0xFF80 4 = addr_digits ?c" and len: "length (cstr s) < 32"
    using Cons.prems by (simp_all add: log_rep_def)
  obtain hw1 st1 d1 b1 out f where 1: "WriteAuto T E l s hw io = okR (0, hw1, serial_print out io)" "R Idle st1 d1 hw1 b1" "ready b1"
      "mem b1 = store (store (mem b) (word_of_int (?c * 32)) (page_bytes s f)) 0xFF80 (addr_digits ((?c + 1) mod 2044))"
    by (rule WriteAuto_stores [OF T P Q Cons.prems(1,2) c(1,2) disjI1 [OF w] z c(3) len])
  have "log_rep (mem b1) (log_append (cstr s) g)" by (rule log_rep_append [OF Cons.prems(3) len refl 1(4)])
  from Cons.IH [OF 1(2,3) this, of "serial_print out io"] Cons.prems(4) obtain hw' st' d' b' o2 where
    "log_texts T E l ss hw1 (serial_print out io) = okR (hw', serial_print o2 (serial_print out io))"
    "R Idle st' d' hw' b'" "ready b'" "log_rep (mem b') (fold log_append (map cstr (s # ss)) g)" by auto
  with 1(1) show ?case by auto
qed

section \<open>The log holds the last entries\<close>



section \<open>The write cycle\<close>

text \<open>
  The documented behaviour during a write cycle: a transaction that stores data starts one, and
  until it is over the memory does not acknowledge its address, so that a transaction
  fails and stores nothing.
\<close>

definition write_cycle :: "'b bus \<Rightarrow> u8 \<Rightarrow> ('b \<Rightarrow> u16 \<Rightarrow> u8) \<Rightarrow> ('b \<Rightarrow> bool) \<Rightarrow> bool" where
  "write_cycle B a mem ready \<longleftrightarrow>
     (\<forall>b hi lo ds. ready b \<longrightarrow> ds \<noteq> [] \<longrightarrow> unat (word_cat hi lo :: u16) mod 128 + length ds \<le> 128 \<longrightarrow>
        \<not> ready (snd (bus_write B a (hi # lo # ds) b))) \<and>
     (\<forall>b ds. \<not> ready b \<longrightarrow> fst (bus_write B a ds b) \<noteq> 0 \<and> mem (snd (bus_write B a ds b)) = mem b)"

lemma write_cycle_starts:
  assumes "write_cycle B a mem ready" and "ready b" and "unat (word_cat hi lo :: u16) mod 128 + length ds \<le> 128"
    and "ds \<noteq> []" and "bus_write B a (hi # lo # ds) b = (rc, b')"
  shows "\<not> ready b'"
  using assms unfolding write_cycle_def by (metis snd_conv)

lemma take_fetch: "take n (fetch m p k) = fetch m p (min n k)"
  by (simp add: fetch_def take_map take_upt min_def)

lemma WriteAuto_stuck:
  assumes T: "twi_master T (B :: 'b bus) R" and P: "eeprom B (IIC_ADDR_E2 l) mem cur ready"
    and C: "write_cycle B (IIC_ADDR_E2 l) mem ready" and R: "R Idle st d hw b" "ready b"
    and c: "0 \<le> c" "c < 2044" and w: "wrapv E \<or> c < 1024"
    and z: "\<And>hw. 0 \<in> set (after E hw)" and pos: "fetch (mem b) 0xFF80 4 = addr_digits c"
    and len: "length (cstr data) < 32"
  shows "\<exists>hw' st' d' b' out. WriteAuto T E l data hw io = okR (0, hw', serial_print out io) \<and> R Idle st' d' hw' b' \<and>
    page_text (mem b') c = cstr data \<and> fetch (mem b') 0xFF80 4 = addr_digits c"
proof -
  obtain hw1 st1 d1 b1 o1 where 1: "get_addr T E l hw io = okR (c, hw1, serial_print o1 io)"
      "R Idle st1 d1 hw1 b1" "mem b1 = mem b" "ready b1"
    by (rule get_addr_reads [OF T P R c z pos])
  have pk: "page_ok E c 0" using c w by (auto simp: page_ok_def is_int16_def)
  let ?io = "serial_print (o1 @ wa_before c) io" and ?io' = "serial_print (o1 @ wa_before c @ wa_after) io"
  obtain a0 a1 hw2 st2 d2 b2 where 2: "Write T E l c data 0 hw1 ?io = okR (0, hw2, snd (ok c 0 ?io))"
      "R Idle st2 d2 hw2 b2" "word_cat a0 a1 = (word_of_int (c * 32) :: u16)"
      "bus_write B (IIC_ADDR_E2 l) (a0 # a1 # page_bytes data (stk E hw1)) b1 = (0, b2)"
      "mem b2 = store (mem b1) (word_of_int (c * 32)) (page_bytes data (stk E hw1))"
    by (rule Write_transaction [OF T P 1(2,4) pk len])
  obtain a2 a3 hw3 st3 d3 o2 where 3: "upd_addr T E l c hw2 ?io' = okR (hw3, serial_print o2 ?io')"
      "R Idle st3 d3 hw3 (snd (bus_write B (IIC_ADDR_E2 l) (a2 # a3 # addr_digits ((c + 1) mod 2044)) b2))"
    by (rule upd_addr_transaction [OF T 2(2) c z])
  let ?b3 = "snd (bus_write B (IIC_ADDR_E2 l) (a2 # a3 # addr_digits ((c + 1) mod 2044)) b2)"
  have "\<not> ready b2" using write_cycle_starts [OF C 1(4) _ _ 2(4)] page_in_128 [of c] 2(3) len by simp
  then have m: "mem ?b3 = mem b2" using C by (simp add: write_cycle_def)
  have "fetch (mem ?b3) 0xFF80 128 = fetch (mem b) 0xFF80 128"
    unfolding m 2(5) 1(3) using c len by (intro reserved_kept) simp_all
  then have "take 4 (fetch (mem ?b3) 0xFF80 128) = take 4 (fetch (mem b) 0xFF80 128)" by simp
  then have "fetch (mem ?b3) 0xFF80 4 = addr_digits c" using pos by (simp only: take_fetch) simp
  moreover have "page_text (mem ?b3) c = cstr data" unfolding m 2(5) by (rule page_text_store [OF len])
  ultimately show ?thesis using WriteAuto_calls [OF 1(1) c 2(1) 3(1)] 3(2) by blast
qed

text \<open>
  Property C35. Without a wait for the write cycle the log does not grow: on a memory that is still in its
  write cycle when \<open>upd_addr\<close> follows \<open>Write\<close>, \<open>WriteAuto\<close> returns 0 and stores the text on
  page \<open>c\<close>, but the new position is lost without a report, and the next \<open>WriteAuto\<close>, however
  much later, overwrites the same page.
\<close>

theorem WriteAuto_loses_position:
  assumes "twi_master T (B :: 'b bus) R" and "eeprom B (IIC_ADDR_E2 l) mem cur ready"
    and "write_cycle B (IIC_ADDR_E2 l) mem ready" and "R Idle st d hw b" and "ready b"
    and "0 \<le> c" and "c < 2044" and "wrapv E \<or> c < 1024" and "\<And>hw. 0 \<in> set (after E hw)"
    and "fetch (mem b) 0xFF80 4 = addr_digits c" and "length (cstr data) < 32" and "length (cstr data') < 32"
  shows "\<exists>hw1 st1 d1 b1 out. WriteAuto T E l data hw io = okR (0, hw1, serial_print out io) \<and> R Idle st1 d1 hw1 b1 \<and>
    page_text (mem b1) c = cstr data \<and>
    (\<forall>hw2 st2 d2 b2. R Idle st2 d2 hw2 b2 \<and> ready b2 \<and> mem b2 = mem b1 \<longrightarrow>
       (\<exists>hw3 st3 d3 b3 out'. WriteAuto T E l data' hw2 io = okR (0, hw3, serial_print out' io) \<and> R Idle st3 d3 hw3 b3 \<and>
          page_text (mem b3) c = cstr data' \<and> fetch (mem b3) 0xFF80 4 = addr_digits c))"
proof -
  obtain hw1 st1 d1 b1 out where 1: "WriteAuto T E l data hw io = okR (0, hw1, serial_print out io)" "R Idle st1 d1 hw1 b1"
      "page_text (mem b1) c = cstr data" "fetch (mem b1) 0xFF80 4 = addr_digits c"
    using WriteAuto_stuck [OF assms(1-11)] by blast
  have "fetch (mem b2) 0xFF80 4 = addr_digits c" if "mem b2 = mem b1" for b2 using 1(4) that by simp
  with WriteAuto_stuck [OF assms(1-3) _ _ assms(6-9) _ assms(12)] 1(1-3) show ?thesis by blast
qed

text \<open>
  The memory of \<open>eesim_bus\<close> with a write cycle that starts with the first stored byte of a transaction
  and outlasts the run; the second component tells that it has started.
\<close>

definition wc_bus :: "u8 \<Rightarrow> (eesim \<times> bool) bus" where
  "wc_bus a = \<lparr>
     bstart = (\<lambda>(b, w). case bstart (eesim_bus a) b of (k, b') \<Rightarrow> (k, b', w)),
     baddr = (\<lambda>v (b, w). case baddr (eesim_bus a) v b of (k, b') \<Rightarrow> (k \<and> \<not> w, b', w)),
     bsend = (\<lambda>v (b, w). case bsend (eesim_bus a) v b of (k, b') \<Rightarrow> (k, b', w \<or> 2 \<le> ee_cnt b)),
     brecv = (\<lambda>ack (b, w). case brecv (eesim_bus a) ack b of (v, b') \<Rightarrow> (v, b', w)),
     bstop = (\<lambda>(b, w). (bstop (eesim_bus a) b, w))\<rparr>"

lemma wc_simps [simp]:
  "bstart (wc_bus a) (b, w) = (True, b\<lparr>ee_cnt := 0\<rparr>, w)" "baddr (wc_bus a) v (b, w) = (v AND 0xfe = a \<and> \<not> w, b, w)"
  "bstop (wc_bus a) (b, w) = (b, w)"
  "bsend (wc_bus a) v (b, w) = (case bsend (eesim_bus a) v b of (k, b') \<Rightarrow> (k, b', w \<or> 2 \<le> ee_cnt b))"
  "brecv (wc_bus a) ack (b, w) = (case brecv (eesim_bus a) ack b of (v, b') \<Rightarrow> (v, b', w))"
  by (simp_all add: wc_bus_def)

lemma eesim_cnt: "bsend (eesim_bus a) v b = (k, b') \<Longrightarrow> k \<and> ee_cnt b' = (if ee_cnt b < 2 then Suc (ee_cnt b) else ee_cnt b)"
  by (auto simp: eesim_bus_def split: if_splits)

lemma wc_send:
  "bus_send (wc_bus a) ds (b, w) =
     (fst (bus_send (eesim_bus a) ds b), snd (bus_send (eesim_bus a) ds b), w \<or> (ds \<noteq> [] \<and> 2 < ee_cnt b + length ds))"
proof (induction ds arbitrary: b w)
  case (Cons v ds)
  obtain k b' where s: "bsend (eesim_bus a) v b = (k, b')" by fastforce
  from eesim_cnt [OF this] have "k" "ee_cnt b' = (if ee_cnt b < 2 then Suc (ee_cnt b) else ee_cnt b)" by auto
  with s Cons.IH [of b'] show ?case by (cases ds) (auto simp: Let_def)
qed simp

lemma wc_recv: "bus_recv (wc_bus a) n (b, w) =
    (fst (bus_recv (eesim_bus a) n b), snd (bus_recv (eesim_bus a) n b), w)"
  by (induction n arbitrary: b) (auto simp: Let_def split_beta)

lemma wc_write:
  assumes "a AND 0xfe = (a :: u8)"
  shows "bus_write (wc_bus a) a ds (b, w) =
    (if w then (-2, b\<lparr>ee_cnt := 0\<rparr>, w)
     else (fst (bus_write (eesim_bus a) a ds b), snd (bus_write (eesim_bus a) a ds b), 2 < length ds))"
  using assms by (auto simp: bus_write_def wc_send Let_def split_beta)

lemma wc_read: "bus_read (wc_bus a) a n (b, False) =
    (fst (bus_read (eesim_bus a) a n b), fst (snd (bus_read (eesim_bus a) a n b)), snd (snd (bus_read (eesim_bus a) a n b)), False)"
  by (auto simp: bus_read_def wc_recv Let_def split_beta)

lemma wc_eeprom:
  assumes a: "a AND 0xfe = (a :: u8)"
  shows "eeprom (wc_bus a) a (\<lambda>b. ee_mem (fst b)) (\<lambda>b. ee_cur (fst b)) (\<lambda>b. \<not> snd b)"
  using eesim_eeprom [OF a] unfolding eeprom_def
  by (simp add: wc_write [OF a] wc_read split_paired_All split_paired_Ex)
     (metis fst_conv snd_conv)

lemma wc_cycle:
  assumes a: "a AND 0xfe = (a :: u8)"
  shows "write_cycle (wc_bus a) a (\<lambda>b. ee_mem (fst b)) (\<lambda>b. \<not> snd b)"
  by (auto simp: write_cycle_def wc_write [OF a])

theorem WriteAuto_loses_position_witness:
  "\<exists>hw1 out. WriteAuto (sim_twi 2 (wc_bus 0xA0)) demo_env (LogData 0) ''on'' (sim_idle (demo_logged, False)) demo_serial =
       okR (0, hw1, serial_print out demo_serial) \<and>
     page_text (ee_mem (fst (sm_bus hw1))) 7 = ''on'' \<and>
     (\<exists>hw3 out'. WriteAuto (sim_twi 2 (wc_bus 0xA0)) demo_env (LogData 0) ''off''
         (sim_idle (fst (sm_bus hw1), False)) demo_serial = okR (0, hw3, serial_print out' demo_serial) \<and>
       page_text (ee_mem (fst (sm_bus hw3))) 7 = ''off'')"
proof -
  have s: "cstr ''on'' = ''on''" "cstr ''off'' = ''off''" by (simp_all add: cstr_def)
  have p: "(0::int) \<le> 7" "(7::int) < 2044" "wrapv demo_env \<or> (7::int) < 1024" "\<And>hw. 0 \<in> set (after demo_env hw)"
    "length (cstr ''on'') < 32" "length (cstr ''off'') < 32" by (simp_all add: demo_env_def s)
  have m: "fetch (ee_mem (fst (demo_logged, False))) 0xFF80 4 = addr_digits 7"
    using demo_logged_position by simp
  have l: "eeprom (wc_bus 0xA0) (IIC_ADDR_E2 (LogData 0)) (\<lambda>b. ee_mem (fst b)) (\<lambda>b. ee_cur (fst b)) (\<lambda>b. \<not> snd b)"
    "write_cycle (wc_bus 0xA0) (IIC_ADDR_E2 (LogData 0)) (\<lambda>b. ee_mem (fst b)) (\<lambda>b. \<not> snd b)" "\<not> snd (demo_logged, False)"
    unfolding LogData_0 using wc_eeprom [of "0xA0"] wc_cycle [of "0xA0"] by simp_all
  from WriteAuto_loses_position [where R = sim_rel and io = demo_serial and B = "wc_bus 0xA0",
      OF sim_twi_master [of 2] l(1,2) sim_idle_rel l(3) p(1-4) m p(5,6)]
  obtain hw1 st1 d1 b1 out where 1: "WriteAuto (sim_twi 2 (wc_bus 0xA0)) demo_env (LogData 0) ''on'' (sim_idle (demo_logged, False)) demo_serial =
       okR (0, hw1, serial_print out demo_serial)" "sim_rel Idle st1 d1 hw1 b1" "page_text (ee_mem (fst b1)) 7 = cstr ''on''"
    and 2: "\<forall>hw2 st2 d2 b2. sim_rel Idle st2 d2 hw2 b2 \<and> \<not> snd b2 \<and> ee_mem (fst b2) = ee_mem (fst b1) \<longrightarrow>
      (\<exists>hw3 st3 d3 b3 out'. WriteAuto (sim_twi 2 (wc_bus 0xA0)) demo_env (LogData 0) ''off'' hw2 demo_serial =
          okR (0, hw3, serial_print out' demo_serial) \<and> sim_rel Idle st3 d3 hw3 b3 \<and>
        page_text (ee_mem (fst b3)) 7 = cstr ''off'' \<and> fetch (ee_mem (fst b3)) 0xFF80 4 = addr_digits 7)"
    by blast
  have b: "sm_bus hw1 = b1" using 1(2) by (simp add: sim_rel_def)
  have "sim_rel Idle 0xf8 0 (sim_idle (fst b1, False)) (fst b1, False) \<and> \<not> snd (fst b1, False) \<and>
      ee_mem (fst (fst b1, False)) = ee_mem (fst b1)" using sim_idle_rel by simp
  with 2 obtain hw3 st3 d3 b3 out' where
    3: "WriteAuto (sim_twi 2 (wc_bus 0xA0)) demo_env (LogData 0) ''off'' (sim_idle (fst b1, False)) demo_serial =
          okR (0, hw3, serial_print out' demo_serial)" "sim_rel Idle st3 d3 hw3 b3" "page_text (ee_mem (fst b3)) 7 = cstr ''off''"
    by blast
  have "sm_bus hw3 = b3" using 3(2) by (simp add: sim_rel_def)
  with 1 3 b s show ?thesis by metis
qed

end
