(* ===== verification/Sys_Incs.thy ===== *)
theory Sys_Incs
  imports Main
begin

text \<open>
  The two macros of \<open>sysincs.h\<close>. A macro argument is an expression that is evaluated where it
  stands, so it is modelled as a function of the state that gives a value and a new state. The
  operands of the comparison are evaluated from left to right, a choice the language leaves to
  the compiler; both operands have the same type.
\<close>

type_synonym ('v, 's) expr = "'s \<Rightarrow> 'v \<times> 's"

definition IMIN :: "('v :: linorder, 's) expr \<Rightarrow> ('v, 's) expr \<Rightarrow> ('v, 's) expr" where
  "IMIN a b s = (let (x, s1) = a s; (y, s2) = b s1 in if x < y then a s2 else b s2)"

definition IMAX :: "('v :: linorder, 's) expr \<Rightarrow> ('v, 's) expr \<Rightarrow> ('v, 's) expr" where
  "IMAX a b s = (let (x, s1) = a s; (y, s2) = b s1 in if x > y then a s2 else b s2)"

text \<open>On expressions without side effects the macros are the minimum and the maximum.\<close>

lemma IMIN_IMAX_pure:
  assumes "\<And>s. a s = (f s, s)" and "\<And>s. b s = (g s, s)"
  shows "IMIN a b s = (min (f s) (g s), s)" "IMAX a b s = (max (f s) (g s), s)"
  by (auto simp: IMIN_def IMAX_def assms min_def max_def)

text \<open>
  On others they are not: the chosen argument is evaluated twice. With \<open>i++\<close> for a variable \<open>i\<close>
  below the other argument, \<open>IMIN\<close> gives \<open>i + 1\<close> and adds two to the variable.
\<close>

lemma IMIN_evaluates_twice:
  fixes i n :: int
  assumes "i < n"
  shows "IMIN (\<lambda>i. (i, i + 1)) (\<lambda>i. (n, i)) i = (i + 1, i + 2)"
  using assms by (simp add: IMIN_def)

end
