(* ===== verification/Spec2Isabelle.thy ===== *)
theory Spec2Isabelle
  imports Kernel_Start Kernel_Types Kernel_Memory Kernel_Capacity Post_Steps Register_Steps Main_Steps Live_Subscriptions Task_Rate Shared_Bus Sys_Incs
begin

text \<open>
  A verification of a small cooperative kernel for the ATmega328p (an Arduino library, the
  directory \<open>src/kernel\<close>) and of the application built on it (\<open>src/ENDG3051_APP\<close>).

  \<^bold>\<open>The program.\<close> The Arduino runtime calls \<open>setup\<close> once and \<open>loop\<close> forever
  (\<open>kernel.cpp\<close>). \<open>loop\<close> first lets the message queue deliver up to two messages and then
  lets the task ring run one task. Tasks (\<open>Task.cpp\<close>) and event receivers register
  themselves; tasks and interrupt routines post messages. Timers (\<open>ostimer.cpp\<close>,
  \<open>tasktimers.h\<close>) tell tasks when to act. The application has blinking tasks, a task that logs
  the time of a clock chip, and an event log in an EEPROM; both chips are reached through the
  polled two-wire driver \<open>iic.cpp\<close>.

  \<^bold>\<open>The theories\<close>, in the order of their dependencies.

  \<^item> \<open>Kernel_Prelude\<close>: machine widths (an \<open>int\<close> has 16 bits, a pointer 16, an
    \<open>unsigned long\<close> 32), the result type \<open>res\<close>, linked lists in a heap (\<open>lchain\<close>). A result is
    \<open>Some (Ok v)\<close>, \<open>Some (Fault e)\<close> for behaviour the language leaves undefined, or \<open>None\<close>
    when the code does not return.
  \<^item> \<open>Cpp_Heap\<close>: the objects the kernel allocates (\<open>MESSAGEHANDLER\<close>, \<open>MESSAGE\<close>,
    \<open>TASKSTATE\<close> with their subclasses), \<open>new\<close> and \<open>delete\<close> on a finite pool of addresses
    that are reused, and the interrupt flag (\<open>interrupts.cpp\<close>). The locale \<open>allocator\<close> states
    what is relied on.
  \<^item> \<open>Message_Queue\<close>: the whole of \<open>mq.cpp\<close> on the heap, the representation \<open>mq_rep\<close> of the
    subscription lists and the queue, and the specification of the subscription operations
    (locale \<open>subscription_table\<close>).
  \<^item> \<open>Message_Delivery\<close>: \<open>Post\<close> and \<open>MQClass::Loop\<close> against the invariant \<open>mq_inv\<close> and
    the abstract FIFO (locale \<open>fifo\<close>). \<open>Live_Subscriptions\<close>: delivery to handlers that subscribe,
    unsubscribe and post while their message is delivered.
  \<^item> \<open>Task_Ring\<close>: \<open>taskring.cpp\<close>, \<open>Task.cpp\<close>, \<open>EventReceiver.cpp\<close>; round robin (locale
    \<open>round_robin\<close>).
  \<^item> \<open>Os_Timer\<close>: both kinds of timer (locales \<open>timer\<close> and \<open>freezable_timer\<close>, each
    interpreted for the class and for the macros).
  \<^item> \<open>Serial_Io\<close>, \<open>Toggle\<close>: port B and the serial line; \<open>ToggleTask.cpp\<close>,
    \<open>ToggleLED.cpp\<close>.
  \<^item> \<open>Iic_Driver\<close>: \<open>iic.cpp\<close> over the registers of the TWI peripheral, and its refinement of
    transactions on an abstract bus (locale \<open>iic_driver\<close>, used by both loggers).
  \<^item> \<open>Log_Task\<close>: \<open>LogTask.cpp\<close>; \<open>Log_Data\<close>: \<open>LogData.cpp\<close>. \<open>Event_Log\<close>: the log over many calls
    as a ring of entries, and the write cycle of the EEPROM. \<open>Shared_Bus\<close>: both loggers with
    their chips on one bus.
  \<^item> \<open>Interrupts\<close>: runs of a machine whose statements are interrupted by routines that post
    (locale \<open>interruptible\<close>: what a machine has to show to refine a specification).
    \<open>Loop_Steps\<close>, \<open>Post_Steps\<close>, \<open>Subscription_Steps\<close> and \<open>Register_Steps\<close> are \<open>MQClass::Loop\<close>,
    \<open>MQClass::Post\<close>, \<open>MQClass::Subscribe\<close>, \<open>MQClass::Unsubscribe\<close> and
    \<open>TaskRing::RegisterTaskHandler\<close> statement by statement, \<open>Loop_Interrupts\<close> the refinement of \<open>Loop\<close> under interrupts to a mailbox.
  \<^item> \<open>Kernel_Main\<close>: \<open>kernel.cpp\<close>, \<open>ENDG3051_APP.ino\<close>; the invariant
    \<open>kernel_inv\<close> of the whole kernel and the step relation \<open>kernel_step\<close> of main loop, interrupts
    and interface calls.
  \<^item> \<open>Kernel_Start\<close>: \<open>KernelClass.h\<close> and the \<open>Get\<close> functions and constructors of the three
    singletons. \<open>Kernel_Types\<close>: the types of the pointers the kernel holds.
    \<open>Kernel_Memory\<close>: every object the kernel allocates stays in one of its lists.
  \<^item> \<open>Kernel_Reference\<close>: a reference kernel on lists and counters, and the proof that the kernel on
    the heap computes the same for every application (given by the calls its handlers and tasks
    make). \<open>Kernel_Capacity\<close>: the memory of the kernel accounted for, from the reference.
  \<^item> \<open>Application\<close>: task objects of the application's classes on the kernel, with the virtual
    \<open>TaskLoop\<close> dispatched on the class; each task seen alone (locale \<open>task_view\<close>,
    interpreted for an LED task and for the logger). \<open>Task_Rate\<close>: how often a task acts.
  \<^item> \<open>Main_Steps\<close>: the endless main program statement by statement, with interrupts.
  \<^item> \<open>Sys_Incs\<close>: the macros of \<open>sysincs.h\<close>.
  \<^item> this theory: the properties of the whole kernel.

  \<^bold>\<open>State.\<close> The state is one record that grows with the components: \<open>machine\<close> (heap, free
  addresses, interrupt flag), \<open>mq\<close>, \<open>taskring\<close>, and a rest of any type for the application.
  Names are those of the source, with a suffix where C++ overloads a name (\<open>Subscribe_fn\<close>,
  \<open>Subscribe_class\<close>) or where several classes have a member of that name
  (\<open>MQ_Loop\<close>, \<open>TaskRing_Loop\<close>).

  \<^bold>\<open>What is proved.\<close> For the kernel: agreement with the reference kernel from the start on, for any
  application and any number of iterations; no fault and no endless loop in any reachable state;
  delivery of every message in order to every subscriber, two per iteration; every message
  freed once, no object leaked, and calls refused for want
  of memory exactly when it is full; subscriptions, posting and registration on every branch; round robin; the
  construction of the singletons; the types of all pointers. Delivery, posting, subscribing,
  unsubscribing and registering are also proved with interrupts between the single statements: nothing is lost, duplicated or
  reordered, and the number of statements is bounded; for the main program as a whole,
  every so many statements deliver two messages, whatever the interrupts post. Handlers may change
  the subscriptions during a delivery, except for their own. For the application: each task
  behaves in the whole system, from the boot on, as it does alone at its own turns, and the
  number of its actions is bounded from both sides by the time elapsed. For the
  timers: exactness across the wrap-around of the clock, periodicity, pauses, equivalence of the
  class and the macros. For the driver: every call is one bus transaction. For the loggers: the
  date and the pages survive the round trip through the chips, buffers are not exceeded, the
  reserved pages are protected, the log is a ring that keeps the last 2044 entries, and the two
  chips on one bus do not disturb each other. The properties about faults show where the code does not keep
  to this: negative ids, a handler that unsubscribes itself, destructors that do not
  deregister, arithmetic that overflows, pointers that are truncated, a write cycle that is not
  waited for.

  \<^bold>\<open>Parameters.\<close> Code that is not in the repository is an argument with its documented
  behaviour as a hypothesis: the TWI peripheral (\<open>twi_master\<close>), the clock chip
  (\<open>rtc_device\<close>), the EEPROM (\<open>eeprom\<close>, \<open>prompt\<close>, \<open>write_cycle\<close>), their sharing of
  the bus (\<open>two_devices\<close>), the reading of \<open>millis()\<close>, the compiler's
  treatment of signed overflow, the contents of uninitialised memory, the bodies of handlers and
  tasks (\<open>good_handlers\<close>, \<open>good_tasks\<close>, for the memory \<open>tidy_handlers\<close>,
  \<open>tidy_tasks\<close>). Each hypothesis is shown to hold for a concrete
  instance: \<open>sim_twi\<close>, \<open>rtc_bus\<close>, \<open>eesim_bus\<close>, \<open>wc_bus\<close>, \<open>board_bus\<close>, recording handlers.

  \<^bold>\<open>Loops.\<close> No fuel is used. Loops over lists in the heap and polling loops are
  \<open>partial_function (option)\<close>, so that not returning is the value \<open>None\<close>, and are proved to
  return under the invariant or the hypotheses; counted loops terminate by a measure.

  \<^bold>\<open>Not modelled.\<close> Interrupts inside a single statement: \<open>new\<close>, \<open>delete\<close> and the
  accesses to a pointer variable are atomic here, while the sources leave them unprotected
  outside of \<open>Post\<close>; interrupts inside a handler or a task are the handler's or task's own
  posts (\<open>well_behaved\<close>). The lifetime of the objects of the application; the order in
  which the static objects of different files are constructed, beyond the calls of
  \<open>Get\<close>. The destructors of \<open>OSTimer\<close> and \<open>LogData\<close>, which are empty; the parts of the
  Arduino library behind \<open>Serial\<close>; the time of the write cycle of the EEPROM, which is
  either over before the next transaction or not.
\<close>

section \<open>Properties of the kernel\<close>

text \<open>
  Property C1. The running system never faults and never hangs. In every state reached from
  the start by any sequence of turns of the main loop, posts from interrupts (only while
  interrupts are enabled), posts by the application with or without a context for the queue
  to free, subscriptions, unsubscriptions and task registrations, the next iteration of
  \<open>loop\<close> returns, again in a reachable state.
\<close>

theorem kernel_loop_safe:
  assumes "reachable fb rb tf tc s" and "good_handlers fb rb" and "good_tasks tf tc"
  shows "\<exists>s'. loop fb rb tf tc s = okR s' \<and> reachable fb rb tf tc s'"
proof -
  obtain H M T k where inv: "kernel_inv s H M T k" using reachable_ok [OF assms] by (auto simp: kernel_ok_def)
  obtain s1 M1 R where 1: "MQ_Loop fb rb (int 2) s = okR s1" "kernel_inv s1 H M1 (R @ T) (length R + k)"
    using mq_turn [OF inv assms(2), of 2] by blast
  obtain s2 where 2: "TaskRing_Loop tf tc s1 = okR s2" using task_turn [OF 1(2) assms(3)] by blast
  have "reachable fb rb tf tc s1" using reachable.step [OF assms(1) kernel_step.messages] 1(1) by simp
  from reachable.step [OF this kernel_step.tasks [OF 2]] 1(1) 2 show ?thesis by (simp add: loop_def)
qed

theorem kernel_loop_safe_witness:
  "\<exists>s'. loop krec_fn krec_recv (\<lambda>f c s. okR s) (\<lambda>t s. okR s) (MQClass_init (TaskRing_init (demo_kernel []))) = okR s' \<and>
     reachable krec_fn krec_recv (\<lambda>f c s. okR s) (\<lambda>t s. okR s) s'"
proof -
  have "heap_wf (demo_kernel x)" for x :: "delivery list"
    using demo_kernel_inv [of x] by (auto simp: kernel_inv_def intro: mq_inv_heap)
  from kernel_loop_safe [OF reachable.boot [OF this [of "[]"]] krec_good idle_tasks_good] show ?thesis .
qed

text \<open>
  Property C8. Liveness: two messages are delivered per iteration of the main loop. After
  \<open>n\<close> iterations the \<open>2 n\<close> oldest messages that were waiting have been delivered to all
  their subscribers in order, so the message at position \<open>i\<close> is delivered by iteration
  \<open>i div 2 + 1\<close>, whatever handlers and tasks post or register in between.
\<close>

theorem kernel_delivers_backlog:
  assumes "kernel_inv s H M T k" and "good_handlers fb rb" and "good_tasks tf tc"
    and "observed L fb rb tf tc" and "2 * n \<le> length M"
  shows "\<exists>s' N R k'. kernel_loops fb rb tf tc n s = okR s' \<and> kernel_inv s' H (drop (2 * n) M @ N) (R @ T) k' \<and>
    L (taskring.more s') = L (taskring.more s) @
      concat (map (deliveries (\<lambda>i. vals (H i))) (take (2 * n) (vals M)))"
  using loops_deliver [OF assms(2-4,1,5)] .

theorem kernel_delivers_backlog_witness:
  "\<exists>s'. kernel_loops krec_fn krec_recv (\<lambda>f c s. okR s) (\<lambda>t s. okR s) 1 (demo_kernel []) = okR s' \<and>
     taskring.more s' = [CalledRecv 512 3 64, CalledFn 100 64, CalledRecv 512 3 0, CalledFn 100 0]"
  using kernel_delivers_backlog [OF demo_kernel_inv [of "[]"] krec_good idle_tasks_good krec_observed, of 1]
  by (auto simp: demo_letters_def demo_subs_def deliveries_def demo_kernel_def)

text \<open>
  Destroying an event receiver does not unsubscribe it: the destructor is empty,
  and the next message for an id it is subscribed to is still delivered to it.
\<close>

lemma destroyed_receiver_called:
  assumes "mq_inv s H F ((p, l) # M)" and "well_behaved fb rb" and "recording lg fb rb"
    and "(a, Recv r) \<in> set (H (nat (fst l)))"
  shows "\<exists>s' new. MQ_Loop fb rb (int 1) (EventReceiver_destroy r s) = okR s' \<and> lg s' = lg s @ new \<and>
    CalledRecv r (fst l) (fst (snd l)) \<in> set new"
proof -
  have "CalledRecv r (fst l) (fst (snd l)) \<in> set (deliveries (\<lambda>i. vals (H i)) l)"
    using assms(4) by (force simp: deliveries_def image_iff)
  with MQ_Loop_records [OF assms(1-3), of 1] show ?thesis by (auto simp: EventReceiver_destroy_def)
qed

lemma destroyed_receiver_called_witness:
  "\<exists>s' new. MQ_Loop rec_fn rec_recv (int 1) (EventReceiver_destroy 512 (demo_mq [])) = okR s' \<and>
     mq.more s' = new \<and> CalledRecv 512 3 64 \<in> set new"
  using destroyed_receiver_called [OF demo_inv_Cons [of "[]"] rec_well_behaved rec_recording, of 16 512]
  by (auto simp: demo_subs_def)

end
